(* ===== verification/Prelude.thy ===== *)
theory Prelude
  imports Main "HOL-Library.Word"
begin

text \<open>
  Shared vocabulary of the development: the machine integer types of the sources, results as
  sums (\<open>Inl\<close> an error or a panic, \<open>Inr\<close> a value), the two theorem collections that the
  component theories extend, and generic lemmas on results, lists and words.
\<close>

section \<open>Types\<close>

type_synonym u8 = "8 word"
type_synonym u16 = "16 word"
type_synonym u32 = "32 word"
type_synonym u64 = "64 word"

type_synonym bytes = "u8 list"

text \<open>\<open>std::ops::Range\<close>: start (inclusive) and end (exclusive).\<close>

type_synonym 'a range = "'a \<times> 'a"

named_theorems res_simps \<open>evaluation of results\<close>
named_theorems wf_intros \<open>preservation of well-formedness\<close>

section \<open>Results\<close>

text \<open>The \<open>?\<close> operator: an error ends the computation, a value is passed on.\<close>

definition rbind :: "'e + 'a \<Rightarrow> ('a \<Rightarrow> 'e + 'b) \<Rightarrow> 'e + 'b" where
  "rbind m f = (case m of Inl e \<Rightarrow> Inl e | Inr x \<Rightarrow> f x)"

lemma rbind_simps [simp, res_simps]:
  "rbind (Inl e) f = Inl e" "rbind (Inr x) f = f x"
  by (simp_all add: rbind_def)

lemma rbind_eq_Inr [simp]: "rbind m f = Inr y \<longleftrightarrow> (\<exists>x. m = Inr x \<and> f x = Inr y)"
  by (cases m) auto

lemma rbind_eq_Inl: "rbind m f = Inl e \<longleftrightarrow> m = Inl e \<or> (\<exists>x. m = Inr x \<and> f x = Inl e)"
  by (cases m) auto

lemma rbind_cong [fundef_cong]:
  "m = m' \<Longrightarrow> (\<And>x. m' = Inr x \<Longrightarrow> f x = g x) \<Longrightarrow> rbind m f = rbind m' g"
  by (cases m') auto

text \<open>\<open>ensure!(c, e)\<close>.\<close>

definition ensure :: "bool \<Rightarrow> 'e \<Rightarrow> 'e + unit" where
  "ensure c e = (if c then Inr () else Inl e)"

lemma ensure_simps [simp, res_simps]: "ensure True e = Inr ()" "ensure False e = Inl e"
  by (simp_all add: ensure_def)

lemma ensure_eq [simp]:
  "ensure c e = Inr u \<longleftrightarrow> c" "ensure c e = Inl e' \<longleftrightarrow> \<not> c \<and> e' = e"
  by (auto simp: ensure_def)

text \<open>\<open>Option::ok_or_else\<close>.\<close>

definition ok_or :: "'a option \<Rightarrow> 'e \<Rightarrow> 'e + 'a" where
  "ok_or m e = (case m of None \<Rightarrow> Inl e | Some x \<Rightarrow> Inr x)"

lemma ok_or_simps [simp, res_simps]: "ok_or None e = Inl e" "ok_or (Some x) e = Inr x"
  by (simp_all add: ok_or_def)

lemma ok_or_eq [simp]: "ok_or m e = Inr x \<longleftrightarrow> m = Some x"
  by (cases m) auto

lemma option_eqI: "(\<And>x. a = Some x \<longleftrightarrow> b = Some x) \<Longrightarrow> a = b"
  by (cases a; cases b) auto

section \<open>Successors of machine integers\<close>

text \<open>\<open>n + 1\<close> on a fixed width wraps at the maximum; below it, it is the successor.\<close>

lemma word_succ_unat: "n \<noteq> - 1 \<Longrightarrow> unat (n + 1) = Suc (unat n)"
  for n :: "'a::len word"
  by (metis add.commute add_eq_0_iff unatSuc)

lemma word_less_succ [simp]: "n \<noteq> - 1 \<Longrightarrow> x < n + 1 \<longleftrightarrow> x \<le> n"
  for n :: "'a::len word"
  by (simp add: word_less_nat_alt word_le_nat_alt word_succ_unat less_Suc_eq_le)

lemma word_succ_le [simp]: "n \<noteq> - 1 \<Longrightarrow> n + 1 \<le> x \<longleftrightarrow> n < x"
  for n :: "'a::len word"
  by (simp add: word_less_nat_alt word_le_nat_alt word_succ_unat Suc_le_eq)

lemma word_less_not_max: "x < y \<Longrightarrow> x \<noteq> - 1"
  for x :: "'a::len word"
  by auto

end
