(* ===== verification/Ranges.thy ===== *)
theory Ranges
  imports Prelude
begin

text \<open>
  The range lists of \<open>primitives/src/range\<close>: the streaming operations of \<open>arith.rs\<close>
  (\<open>seal\<close>, \<open>intersection\<close>, \<open>union\<close>) and the \<open>RangeList\<close> of \<open>mod.rs\<close> (checked
  construction, construction from sorted indexes, pagination). An iterator is the list of the
  items it yields; a panic is the error \<open>Panic\<close>.
\<close>

section \<open>Range lists\<close>

datatype range_err = EmptyRange | UnorderedRanges | RangePanic

definition nonempty :: "'a::linorder range \<Rightarrow> bool" where
  "nonempty r \<longleftrightarrow> fst r < snd r"

definition covers :: "'a::linorder range list \<Rightarrow> 'a set" where
  "covers rs = (\<Union>r \<in> set rs. {fst r ..< snd r})"

fun ordered :: "'a::linorder range list \<Rightarrow> bool" where
  "ordered (p # c # rs) \<longleftrightarrow> snd p \<le> fst c \<and> ordered (c # rs)"
| "ordered _ \<longleftrightarrow> True"

definition range_list :: "'a::linorder range list \<Rightarrow> bool" where
  "range_list rs \<longleftrightarrow> list_all nonempty rs \<and> ordered rs"

text \<open>\<open>RangeList::try_from\<close>: the emptiness scan first, then the loop over neighbours.\<close>

fun neighbours_ok :: "'a::linorder range list \<Rightarrow> range_err + unit" where
  "neighbours_ok (prev # current # rs) =
     (if snd prev > fst current then Inl UnorderedRanges else neighbours_ok (current # rs))"
| "neighbours_ok _ = Inr ()"

definition try_from :: "'a::linorder range list \<Rightarrow> range_err + 'a range list" where
  "try_from ranges =
     (if list_ex (\<lambda>r. \<not> fst r < snd r) ranges then Inl EmptyRange
      else rbind (neighbours_ok ranges) (\<lambda>_. Inr ranges))"

section \<open>seal, intersection, union\<close>

fun seal :: "'a::linorder range list \<Rightarrow> range_err + 'a range list" where
  "seal (head # next # rest) =
     (if snd head < fst next then rbind (seal (next # rest)) (\<lambda>rs. Inr (head # rs))
      else if snd head = fst next then seal ((fst head, snd next) # rest)
      else Inl RangePanic)"
| "seal [head] = Inr [head]"
| "seal [] = Inr []"

fun intersection :: "'a::linorder range list \<Rightarrow> 'a range list \<Rightarrow> 'a range list" where
  "intersection (h1 # l1) (h2 # l2) =
     (let start = max (fst h1) (fst h2);
          (end, rest) =
            (if snd h1 < snd h2 then (snd h1, intersection l1 (h2 # l2))
             else if snd h1 = snd h2 then (snd h1, intersection l1 l2)
             else (snd h2, intersection (h1 # l1) l2))
      in if start < end then (start, end) # rest else rest)"
| "intersection [] _ = []"
| "intersection _ [] = []"

function union_steps :: "'a::linorder range list \<Rightarrow> 'a range list \<Rightarrow> 'a range list" where
  "union_steps (h1 # l1) (h2 # l2) =
     (let start = min (fst h1) (fst h2);
          end = min (snd h1) (snd h2);
          list1 = (if snd h1 = end then l1
                   else if fst h1 < end then (end, snd h1) # l1 else h1 # l1);
          list2 = (if snd h2 = end then l2 else (end, snd h2) # l2)
      in (start, end) # union_steps list1 list2)"
| "union_steps l1 [] = l1"
| "union_steps [] (h2 # l2) = h2 # l2"
  by pat_completeness auto
termination
  by (relation "measure (\<lambda>(a, b). length a + length b)") (auto simp: min_def Let_def)

definition union :: "'a::linorder range list \<Rightarrow> 'a range list \<Rightarrow> range_err + 'a range list" where
  "union a b = seal (union_steps a b)"

section \<open>Structure of range lists\<close>

lemma covers_simps [simp]:
  "covers [] = {}" "covers (r # rs) = {fst r ..< snd r} \<union> covers rs"
  by (auto simp: covers_def)

lemma covers_append [simp]: "covers (rs @ qs) = covers rs \<union> covers qs"
  by (auto simp: covers_def)

lemma range_list_Nil [simp]: "range_list []"
  by (simp add: range_list_def)

lemma range_list_Cons [simp]:
  "range_list (r # rs) \<longleftrightarrow> fst r < snd r \<and> (\<forall>q \<in> set rs. snd r \<le> fst q) \<and> range_list rs"
proof (induction rs arbitrary: r)
  case Nil
  then show ?case by (simp add: range_list_def nonempty_def)
next
  case (Cons q rs)
  have "range_list (r # q # rs) \<longleftrightarrow> fst r < snd r \<and> snd r \<le> fst q \<and> range_list (q # rs)"
    by (auto simp: range_list_def nonempty_def)
  with Cons.IH [of q] show ?case by force
qed

lemma covers_above:
  "\<lbrakk> range_list rs; \<forall>q \<in> set rs. m \<le> fst q; x \<in> covers rs \<rbrakk> \<Longrightarrow> m \<le> x"
  by (induction rs) auto

text \<open>Neighbouring ranges of a sealed list are separated by a gap.\<close>

fun separated :: "'a::linorder range list \<Rightarrow> bool" where
  "separated (p # c # rs) \<longleftrightarrow> snd p < fst c \<and> separated (c # rs)"
| "separated _ \<longleftrightarrow> True"

lemma neighbours_ok_iff: "neighbours_ok rs = Inr () \<longleftrightarrow> ordered rs"
  by (induction rs rule: neighbours_ok.induct) auto

lemma seal_spec:
  assumes "range_list rs"
  obtains out where "seal rs = Inr out" "covers out = covers rs" "range_list out" "separated out"
    "rs \<noteq> [] \<longrightarrow> out \<noteq> [] \<and> fst (hd out) = fst (hd rs)"
proof -
  have "\<exists>out. seal rs = Inr out \<and> covers out = covers rs \<and> range_list out \<and> separated out \<and>
      (rs \<noteq> [] \<longrightarrow> out \<noteq> [] \<and> fst (hd out) = fst (hd rs))"
    using assms
  proof (induction rs rule: seal.induct)
    case (1 h n rest)
    consider (gap) "snd h < fst n" | (touch) "snd h = fst n"
      using "1.prems" by fastforce
    then show ?case
    proof cases
      case gap
      with "1.IH"(1) "1.prems" obtain out where out: "seal (n # rest) = Inr out"
        "covers out = covers (n # rest)" "range_list out" "separated out" "out \<noteq> []"
        "fst (hd out) = fst n"
        by auto
      then obtain p ps where "out = p # ps" "fst p = fst n" by (cases out) auto
      with out gap "1.prems" show ?thesis by force
    next
      case touch
      with "1.IH"(2) "1.prems" obtain out where
        "seal ((fst h, snd n) # rest) = Inr out" "covers out = covers ((fst h, snd n) # rest)"
        "range_list out" "separated out" "out \<noteq> []" "fst (hd out) = fst h"
        by fastforce
      with touch "1.prems" show ?thesis
        by (force simp: ivl_disj_un)
    qed
  qed auto
  with that show thesis by blast
qed

lemma intersection_above:
  "(\<forall>q \<in> set a. m \<le> fst q) \<or> (\<forall>q \<in> set b. m \<le> fst q) \<Longrightarrow>
     r \<in> set (intersection a b) \<Longrightarrow> m \<le> fst r"
  by (induction a b rule: intersection.induct) (auto simp: Let_def le_max_iff_disj split: if_splits)

lemma intersection_spec:
  "\<lbrakk> range_list a; range_list b \<rbrakk> \<Longrightarrow>
     range_list (intersection a b) \<and> covers (intersection a b) = covers a \<inter> covers b"
proof (induction a b rule: intersection.induct)
  case (1 h1 l1 h2 l2)
  consider (less) "snd h1 < snd h2" | (same) "snd h1 = snd h2" | (greater) "snd h2 < snd h1"
    by force
  then show ?case
  proof cases
    case less
    have "\<forall>r \<in> set (intersection l1 (h2 # l2)). snd h1 \<le> fst r"
      using "1.prems" by (auto intro!: intersection_above [of l1 "snd h1"])
    moreover have "\<forall>x \<in> covers l1. snd h1 \<le> x" "\<forall>x \<in> covers l2. snd h2 \<le> x"
      using "1.prems" covers_above by auto
    ultimately show ?thesis
      using "1.IH"(1) "1.prems" less by (force simp: Let_def max_def)
  next
    case same
    have "\<forall>r \<in> set (intersection l1 l2). snd h1 \<le> fst r"
      using "1.prems" by (auto intro!: intersection_above [of l1 "snd h1"])
    moreover have "\<forall>x \<in> covers l1. snd h1 \<le> x" "\<forall>x \<in> covers l2. snd h2 \<le> x"
      using "1.prems" covers_above by auto
    ultimately show ?thesis
      using "1.IH"(2) "1.prems" same by (force simp: Let_def max_def)
  next
    case greater
    have "\<forall>r \<in> set (intersection (h1 # l1) l2). snd h2 \<le> fst r"
      using "1.prems" by (auto intro!: intersection_above [of _ "snd h2" l2])
    moreover have "\<forall>x \<in> covers l1. snd h1 \<le> x" "\<forall>x \<in> covers l2. snd h2 \<le> x"
      using "1.prems" covers_above by auto
    ultimately show ?thesis
      using "1.IH"(3) "1.prems" greater by (force simp: Let_def max_def)
  qed
qed auto

definition trim1 :: "'a::linorder range \<Rightarrow> 'a range list \<Rightarrow> 'a \<Rightarrow> 'a range list" where
  "trim1 h l e = (if snd h = e then l else if fst h < e then (e, snd h) # l else h # l)"

definition trim2 :: "'a::linorder range \<Rightarrow> 'a range list \<Rightarrow> 'a \<Rightarrow> 'a range list" where
  "trim2 h l e = (if snd h = e then l else (e, snd h) # l)"

lemma union_steps_Cons:
  "union_steps (h1 # l1) (h2 # l2) =
     (min (fst h1) (fst h2), min (snd h1) (snd h2)) #
     union_steps (trim1 h1 l1 (min (snd h1) (snd h2))) (trim2 h2 l2 (min (snd h1) (snd h2)))"
  by (simp only: union_steps.simps Let_def trim1_def trim2_def)

declare union_steps.simps(1) [simp del]

lemma union_steps_induct [case_names step left right]:
  assumes "\<And>h1 l1 h2 l2 e. e = min (snd h1) (snd h2) \<Longrightarrow> P (trim1 h1 l1 e) (trim2 h2 l2 e) \<Longrightarrow> P (h1 # l1) (h2 # l2)"
    and "\<And>l1. P l1 []" and "\<And>h2 l2. P [] (h2 # l2)"
  shows "P a b"
  using assms by (induction a b rule: union_steps.induct) (simp_all only: trim1_def trim2_def)

lemma range_list_nonempty: "\<lbrakk> range_list rs; q \<in> set rs \<rbrakk> \<Longrightarrow> fst q < snd q"
  by (induction rs) auto

lemma trim1_range_list:
  "\<lbrakk> range_list (h # l); e \<le> snd h \<rbrakk> \<Longrightarrow> range_list (trim1 h l e) \<and> (\<forall>q \<in> set (trim1 h l e). e \<le> fst q)"
  by (force simp: trim1_def)

lemma trim2_range_list:
  "\<lbrakk> range_list (h # l); e \<le> snd h \<rbrakk> \<Longrightarrow> range_list (trim2 h l e) \<and> (\<forall>q \<in> set (trim2 h l e). e \<le> fst q)"
  by (force simp: trim2_def)

lemma union_steps_above:
  "\<lbrakk> range_list a; range_list b; \<forall>q \<in> set a. m \<le> fst q; \<forall>q \<in> set b. m \<le> fst q;
     r \<in> set (union_steps a b) \<rbrakk> \<Longrightarrow> m \<le> fst r"
proof (induction a b rule: union_steps_induct)
  case (step h1 l1 h2 l2 e)
  have e: "e \<le> snd h1" "e \<le> snd h2" by (auto simp: step.hyps)
  have m: "m \<le> e" using step.prems(1-4) by (auto simp: step.hyps)
  note wa = trim1_range_list [OF step.prems(1) e(1)] and wb = trim2_range_list [OF step.prems(2) e(2)]
  have "r \<in> set (union_steps (trim1 h1 l1 e) (trim2 h2 l2 e)) \<Longrightarrow> m \<le> fst r"
    using step.IH wa wb m by (meson order_trans)
  with step.prems show ?case
    by (auto simp: union_steps_Cons simp flip: step.hyps)
qed auto

definition gaps :: "'a::linorder range list \<Rightarrow> 'a range list \<Rightarrow> 'a set" where
  "gaps a b = {x. (\<exists>r \<in> set a. snd r \<le> x) \<and> (\<exists>r \<in> set b. x < fst r)}"

lemma trim1_covers:
  "\<lbrakk> range_list (h # l); e \<le> snd h \<rbrakk> \<Longrightarrow> covers (trim1 h l e) = {max (fst h) e ..< snd h} \<union> covers l"
  by (auto simp: trim1_def max_def)

lemma trim2_covers:
  "\<lbrakk> range_list (h # l); e \<le> snd h \<rbrakk> \<Longrightarrow> covers (trim2 h l e) = {e ..< snd h} \<union> covers l"
  by (auto simp: trim2_def)

lemma trim_gaps:
  assumes "range_list (h1 # l1)" "range_list (h2 # l2)" "e \<le> snd h1" "e \<le> snd h2"
  shows "gaps (trim1 h1 l1 e) (trim2 h2 l2 e) \<subseteq> gaps (h1 # l1) (h2 # l2)"
proof
  fix x
  assume x: "x \<in> gaps (trim1 h1 l1 e) (trim2 h2 l2 e)"
  then obtain q where q: "q \<in> set (trim1 h1 l1 e)" "snd q \<le> x" by (auto simp: gaps_def)
  moreover have "e \<le> snd q"
    using q(1) trim1_range_list [OF assms(1,3)] range_list_nonempty by (meson less_imp_le order_trans)
  moreover obtain p where p: "p \<in> set (trim2 h2 l2 e)" "x < fst p" using x by (auto simp: gaps_def)
  ultimately have "\<exists>r \<in> set (h1 # l1). snd r \<le> x" "p \<in> set l2"
    by (auto simp: trim1_def trim2_def split: if_splits)
  with p(2) show "x \<in> gaps (h1 # l1) (h2 # l2)" by (auto simp: gaps_def)
qed

lemma union_steps_spec:
  "\<lbrakk> range_list a; range_list b \<rbrakk> \<Longrightarrow>
     range_list (union_steps a b) \<and> covers a \<union> covers b \<subseteq> covers (union_steps a b) \<and>
     covers (union_steps a b) \<subseteq> covers a \<union> covers b \<union> gaps a b"
proof (induction a b rule: union_steps_induct)
  case (step h1 l1 h2 l2 e)
  let ?s = "min (fst h1) (fst h2)" and ?a = "trim1 h1 l1 e" and ?b = "trim2 h2 l2 e"
  have e: "e \<le> snd h1" "e \<le> snd h2" by (auto simp: step.hyps)
  have eq: "union_steps (h1 # l1) (h2 # l2) = (?s, e) # union_steps ?a ?b"
    by (simp add: union_steps_Cons step.hyps)
  note wa = trim1_range_list [OF step.prems(1) e(1)] and wb = trim2_range_list [OF step.prems(2) e(2)]
  note IH = step.IH [OF conjunct1 [OF wa] conjunct1 [OF wb]]
  have "?s < e" using step.prems by (auto simp: step.hyps min_def)
  moreover have "\<forall>q \<in> set (union_steps ?a ?b). e \<le> fst q"
    using union_steps_above wa wb by blast
  ultimately have "range_list (union_steps (h1 # l1) (h2 # l2))"
    using IH by (simp add: eq)
  moreover have cov: "covers (union_steps (h1 # l1) (h2 # l2)) = {?s ..< e} \<union> covers (union_steps ?a ?b)"
    by (simp add: eq)
  moreover have "covers (h1 # l1) \<union> covers (h2 # l2) \<subseteq> {?s ..< e} \<union> (covers ?a \<union> covers ?b)"
    using trim1_covers [OF step.prems(1) e(1)] trim2_covers [OF step.prems(2) e(2)] e
    by (auto simp: min_le_iff_disj not_less)
  moreover have "{?s ..< e} \<union> covers ?a \<union> covers ?b \<subseteq> covers (h1 # l1) \<union> covers (h2 # l2) \<union> gaps (h1 # l1) (h2 # l2)"
    using trim1_covers [OF step.prems(1) e(1)] trim2_covers [OF step.prems(2) e(2)] e
    by (fastforce simp: gaps_def step.hyps min_def not_less split: if_splits)
  moreover note trim_gaps [OF step.prems e] IH
  ultimately show ?case by blast
qed auto

section \<open>Construction from sorted indexes\<close>

fun from_sorted_indexes_loop :: "u32 \<Rightarrow> u32 \<Rightarrow> u32 list \<Rightarrow> range_err + u32 range list" where
  "from_sorted_indexes_loop beg end [] = Inr [(beg, end)]"
| "from_sorted_indexes_loop beg end (idx # iter) =
     (if end < idx then
        rbind (from_sorted_indexes_loop idx (idx + 1) iter) (\<lambda>ranges. Inr ((beg, end) # ranges))
      else if end = idx then from_sorted_indexes_loop beg (idx + 1) iter
      else Inl RangePanic)"

fun from_sorted_indexes :: "u32 list \<Rightarrow> range_err + u32 range list" where
  "from_sorted_indexes [] = Inr []"
| "from_sorted_indexes (idx # iter) = from_sorted_indexes_loop idx (idx + 1) iter"

lemma from_sorted_indexes_loop_spec:
  "\<lbrakk> beg < end; \<forall>i \<in> set idxs. i \<noteq> - 1; sorted_wrt (<) idxs; \<forall>i \<in> set idxs. end \<le> i \<rbrakk> \<Longrightarrow>
     \<exists>rs. from_sorted_indexes_loop beg end idxs = Inr rs \<and> range_list rs \<and> separated rs \<and>
       covers rs = {beg ..< end} \<union> set idxs \<and> rs \<noteq> [] \<and> fst (hd rs) = beg"
proof (induction idxs arbitrary: beg "end")
  case Nil
  then show ?case by simp
next
  case (Cons idx iter)
  then have idx: "idx \<noteq> - 1" "\<forall>i \<in> set iter. idx + 1 \<le> i" "idx < idx + 1" by auto
  show ?case
  proof (cases "end < idx")
    case True
    obtain rs where rs: "from_sorted_indexes_loop idx (idx + 1) iter = Inr rs" "range_list rs"
      "separated rs" "covers rs = {idx ..< idx + 1} \<union> set iter" "rs \<noteq> []" "fst (hd rs) = idx"
      using Cons.IH [of idx "idx + 1"] Cons.prems idx by auto
    moreover have "{idx ..< idx + 1} = {idx}" using idx by auto
    moreover obtain q qs where "rs = q # qs" using rs(5) by (cases rs) auto
    ultimately show ?thesis using True Cons.prems by force
  next
    case False
    with Cons.prems have e: "end = idx" by auto
    obtain rs where "from_sorted_indexes_loop beg (idx + 1) iter = Inr rs" "range_list rs"
      "separated rs" "covers rs = {beg ..< idx + 1} \<union> set iter" "rs \<noteq> []" "fst (hd rs) = beg"
      using Cons.IH [of beg "idx + 1"] Cons.prems idx e by (auto simp: less_imp_le)
    moreover have "{beg ..< idx + 1} = insert idx {beg ..< idx}" using idx Cons.prems e by auto
    ultimately show ?thesis using e by auto
  qed
qed

lemma from_sorted_indexes_loop_sorted:
  "\<lbrakk> from_sorted_indexes_loop beg end idxs = Inr rs; \<forall>i \<in> set idxs. i \<noteq> - 1 \<rbrakk> \<Longrightarrow>
     sorted_wrt (<) idxs \<and> (\<forall>i \<in> set idxs. end \<le> i)"
proof (induction idxs arbitrary: beg "end" rs)
  case (Cons idx iter)
  then show ?case by (fastforce split: if_splits)
qed simp

section \<open>Pagination\<close>

datatype page_end = PageFull | PageBreak "nat range list" | PageExhausted "nat range list"

function page_loop ::
  "nat range \<Rightarrow> nat range list \<Rightarrow> nat range list \<Rightarrow> page_end \<times> nat range list" where
  "page_loop page included [] = (PageExhausted included, [])"
| "page_loop page included (r # ranges) =
     (let i = (max (fst page) (fst r), min (snd page) (snd r)) in
      if i = page then (PageFull, r # ranges)
      else
        let included' = (if snd i > fst i then included @ [(fst i - fst page, snd i - fst page)]
                         else included);
            ranges' = (if snd i = snd r then ranges else r # ranges)
        in if snd page = snd i then (PageBreak included', ranges')
           else page_loop page included' ranges')"
  by pat_completeness auto
termination
  by (relation "measure (\<lambda>(page, included, ranges). length ranges)") (auto simp: min_def Let_def)

fun paginate_pages ::
  "nat \<Rightarrow> nat list \<Rightarrow> nat range list \<Rightarrow> range_err + (nat \<times> nat range list option) list" where
  "paginate_pages pix (o1 # o2 # offsets) ranges =
     (if \<not> o1 < o2 then Inl RangePanic
      else case page_loop (o1, o2) [] ranges of
        (PageFull, ranges') \<Rightarrow>
          rbind (paginate_pages (Suc pix) (o2 # offsets) ranges') (\<lambda>ps. Inr ((pix, None) # ps))
      | (PageExhausted included, _) \<Rightarrow>
          Inr (if included \<noteq> [] then [(pix, Some included)] else [])
      | (PageBreak included, ranges') \<Rightarrow>
          rbind (paginate_pages (Suc pix) (o2 # offsets) ranges')
            (\<lambda>ps. Inr (if included \<noteq> [] then (pix, Some included) # ps else ps)))"
| "paginate_pages pix [_] ranges = Inr []"
| "paginate_pages pix [] ranges = Inl RangePanic"

definition paginate :: "nat range list \<Rightarrow> nat list \<Rightarrow> range_err + (nat \<times> nat range list option) list" where
  "paginate ranges page_offsets = paginate_pages 0 page_offsets ranges"

text \<open>The rows a list of page selections denotes, as absolute row numbers.\<close>

fun page_rows :: "nat list \<Rightarrow> nat \<times> nat range list option \<Rightarrow> nat set" where
  "page_rows offs (pix, None) = {offs ! pix ..< offs ! Suc pix}"
| "page_rows offs (pix, Some rs) = (\<lambda>i. offs ! pix + i) ` covers rs"


definition page_inv :: "nat range \<Rightarrow> nat range list \<Rightarrow> nat range list \<Rightarrow> bool" where
  "page_inv page included ranges \<longleftrightarrow> fst page < snd page \<and> range_list included \<and> range_list ranges \<and>
     (\<forall>q \<in> set included. \<forall>r \<in> set ranges. fst page + snd q \<le> fst r)"

definition page_cover :: "nat range \<Rightarrow> nat range list \<Rightarrow> nat range list \<Rightarrow> nat set" where
  "page_cover page included ranges =
     (\<lambda>i. fst page + i) ` covers included \<union> covers ranges \<inter> {fst page ..< snd page}"

definition page_post :: "nat range \<Rightarrow> nat set \<Rightarrow> nat range list \<Rightarrow> page_end \<times> nat range list \<Rightarrow> bool" where
  "page_post page cov ranges out \<longleftrightarrow>
     range_list (snd out) \<and> covers (snd out) \<inter> {snd page..} = covers ranges \<inter> {snd page..} \<and>
     (case fst out of
        PageFull \<Rightarrow> cov = {fst page ..< snd page}
      | PageBreak inc \<Rightarrow> range_list inc \<and> (\<lambda>i. fst page + i) ` covers inc = cov
      | PageExhausted inc \<Rightarrow> range_list inc \<and> (\<lambda>i. fst page + i) ` covers inc = cov \<and>
          covers ranges \<inter> {snd page..} = {})"

lemma shift_ivl: "(\<lambda>i. p + i) ` {a - p ..< b - p} = {a ..< b}" if "p \<le> a" for p a b :: nat
proof
  show "{a ..< b} \<subseteq> (\<lambda>i. p + i) ` {a - p ..< b - p}"
  proof
    fix x assume "x \<in> {a ..< b}"
    with that show "x \<in> (\<lambda>i. p + i) ` {a - p ..< b - p}"
      by (intro image_eqI [of _ _ "x - p"]) auto
  qed
qed (use that in auto)

lemma range_list_snoc:
  "range_list (rs @ [r]) \<longleftrightarrow> range_list rs \<and> fst r < snd r \<and> (\<forall>q \<in> set rs. snd q \<le> fst r)"
  by (induction rs) auto

lemmas page_loop_Cons = page_loop.simps(2)

declare page_loop.simps(2) [simp del]

lemma page_loop_spec:
  "page_inv page included ranges \<Longrightarrow>
     page_post page (page_cover page included ranges) ranges (page_loop page included ranges)"
proof (induction page included ranges rule: page_loop.induct)
  case (1 page included)
  then show ?case by (simp add: page_post_def page_inv_def page_cover_def)
next
  case (2 page included r ranges)
  obtain p1 p2 where page: "page = (p1, p2)" by (cases page)
  obtain a b where r: "r = (a, b)" by (cases r)
  define i where "i = (max p1 a, min p2 b)"
  define inc where "inc = (if snd i > fst i then included @ [(fst i - p1, snd i - p1)] else included)"
  define rs where "rs = (if snd i = b then ranges else r # ranges)"
  have above: "\<forall>x \<in> covers ranges. b \<le> x" "a < b" "p1 < p2"
    using "2.prems" covers_above [of ranges b] by (auto simp: page_inv_def r page)
  show ?case
  proof (cases "i = page")
    case True
    moreover have "included = []"
      using True "2.prems" range_list_nonempty [of included]
      by (cases included) (auto simp: page_inv_def i_def page r max_def split: if_splits)
    moreover have "{p1 ..< p2} \<subseteq> {a ..< b}" using True by (auto simp: i_def page)
    ultimately show ?thesis
      using "2.prems" above
      by (auto simp: page_loop_Cons page_post_def page_inv_def page_cover_def page r i_def)
  next
    case False
    have wf: "range_list inc" "range_list rs"
      using "2.prems" above by (force simp: page_inv_def page r i_def inc_def rs_def range_list_snoc)+
    have cov: "page_cover page inc rs = page_cover page included (r # ranges)"
      using above by (auto simp: page_cover_def page r i_def inc_def rs_def image_Un shift_ivl)
    have rest: "covers rs \<inter> {p2..} = covers (r # ranges) \<inter> {p2..}"
      using above by (auto simp: rs_def r i_def)
    have i: "(max (fst page) (fst r), min (snd page) (snd r)) = i"
      by (simp add: i_def page r)
    have eq: "page_loop page included (r # ranges) =
        (if p2 = snd i then (PageBreak inc, rs) else page_loop page inc rs)"
      using False unfolding page_loop_Cons Let_def i inc_def rs_def by (simp add: page r)
    show ?thesis
    proof (cases "p2 = snd i")
      case True
      have "page_cover page inc rs = (\<lambda>i. p1 + i) ` covers inc"
        using True above by (auto simp: page_cover_def page rs_def r i_def inc_def image_Un shift_ivl)
      then show ?thesis
        using True wf cov rest unfolding eq page_post_def by (simp add: page)
    next
      case neq: False
      have inv: "page_inv page inc rs"
        using "2.prems" above wf neq
        by (auto simp: page_inv_def page r i_def inc_def rs_def min_def split: if_splits)
      have "page_post page (page_cover page inc rs) rs (page_loop page inc rs)"
        by (rule "2.IH" [OF i [symmetric] False]) (use neq inv in \<open>simp_all add: inc_def rs_def page r\<close>)
      then show ?thesis
        using neq cov rest unfolding eq page_post_def by (auto simp: page split: page_end.splits)
    qed
  qed
qed

definition page_selection :: "nat \<Rightarrow> nat \<Rightarrow> nat \<times> nat range list option \<Rightarrow> bool" where
  "page_selection lo hi p \<longleftrightarrow> lo \<le> fst p \<and> fst p < hi \<and>
     (\<forall>rs. snd p = Some rs \<longrightarrow> rs \<noteq> [] \<and> range_list rs)"

lemma paginate_pages_spec:
  assumes "offs = drop pix all" "offs \<noteq> []" "sorted_wrt (<) offs" "range_list ranges"
  shows "\<exists>ps. paginate_pages pix offs ranges = Inr ps \<and>
     (\<Union>p \<in> set ps. page_rows all p) = covers ranges \<inter> {hd offs ..< last offs} \<and>
     sorted_wrt (<) (map fst ps) \<and> (\<forall>p \<in> set ps. page_selection pix (length all - 1) p)"
  using assms
proof (induction pix offs ranges rule: paginate_pages.induct)
  case (1 pix o1 o2 offsets ranges)
  have all: "drop (Suc pix) all = o2 # offsets" "all ! pix = o1" "all ! Suc pix = o2" "Suc pix < length all"
    using "1.prems"(1)
    by (metis drop_Suc list.sel(3) tl_drop, metis nth_via_drop, metis drop_Suc list.sel(3) nth_via_drop tl_drop,
        metis drop_Suc drop_all linorder_not_le list.distinct(1) list.sel(3) tl_drop)
  obtain out ranges' where loop: "page_loop (o1, o2) [] ranges = (out, ranges')" by fastforce
  have last: "o2 \<le> last (o2 # offsets)" "o1 < o2" "sorted_wrt (<) (o2 # offsets)"
    using "1.prems"(3) by (auto simp: less_imp_le)
  have post: "page_post (o1, o2) (covers ranges \<inter> {o1 ..< o2}) ranges (out, ranges')"
    using page_loop_spec [of "(o1, o2)" "[]" ranges] "1.prems"(4) last
    by (simp add: page_inv_def page_cover_def loop)
  then have wf: "range_list ranges'" and rest: "covers ranges' \<inter> {o2..} = covers ranges \<inter> {o2..}"
    by (auto simp: page_post_def)
  have split: "covers ranges \<inter> {o1 ..< last (o2 # offsets)} =
      (covers ranges \<inter> {o1 ..< o2}) \<union> (covers ranges' \<inter> {o2 ..< last (o2 # offsets)})"
    using last rest by auto
  have rows: "page_rows all (pix, None) = {o1 ..< o2}" "\<And>rs. page_rows all (pix, Some rs) = (\<lambda>i. o1 + i) ` covers rs"
    by (simp_all add: all)
  have sel: "page_selection (Suc pix) hi p \<Longrightarrow> page_selection pix hi p \<and> pix < fst p" for hi p
    by (auto simp: page_selection_def)
  show ?case
  proof (cases out)
    case PageFull
    then obtain ps where "paginate_pages (Suc pix) (o2 # offsets) ranges' = Inr ps"
      "(\<Union>p \<in> set ps. page_rows all p) = covers ranges' \<inter> {o2 ..< last (o2 # offsets)}"
      "sorted_wrt (<) (map fst ps)" "\<forall>p \<in> set ps. page_selection (Suc pix) (length all - 1) p"
      using "1.IH"(1) last loop all wf by fastforce
    moreover have "covers ranges \<inter> {o1 ..< o2} = {o1 ..< o2}"
      using post PageFull by (simp add: page_post_def)
    ultimately show ?thesis
      using PageFull loop last split sel all by (auto simp: rows page_selection_def)
  next
    case (PageExhausted inc)
    moreover have "range_list inc" "(\<lambda>i. o1 + i) ` covers inc = covers ranges \<inter> {o1 ..< o2}"
      "covers ranges' \<inter> {o2 ..< last (o2 # offsets)} = {}"
      using post PageExhausted rest by (auto simp: page_post_def)
    ultimately show ?thesis
      using loop last split all by (auto simp: rows page_selection_def)
  next
    case (PageBreak inc)
    then obtain ps where "paginate_pages (Suc pix) (o2 # offsets) ranges' = Inr ps"
      "(\<Union>p \<in> set ps. page_rows all p) = covers ranges' \<inter> {o2 ..< last (o2 # offsets)}"
      "sorted_wrt (<) (map fst ps)" "\<forall>p \<in> set ps. page_selection (Suc pix) (length all - 1) p"
      using "1.IH"(2) last loop all wf by fastforce
    moreover have "range_list inc" "(\<lambda>i. o1 + i) ` covers inc = covers ranges \<inter> {o1 ..< o2}"
      using post PageBreak by (auto simp: page_post_def)
    ultimately show ?thesis
      using PageBreak loop last split sel all by (auto simp: rows page_selection_def)
  qed
next
  case 2
  show ?case by simp
qed simp

section \<open>Properties\<close>

text \<open>
  \<open>RangeList::try_from\<close> accepts exactly the lists of non-empty, ordered, pairwise disjoint
  ranges, returns them unchanged, and reports an empty range before any ordering problem.
\<close>

theorem try_from_spec:
  "try_from rs =
     (if \<not> list_all nonempty rs then Inl EmptyRange
      else if \<not> range_list rs then Inl UnorderedRanges else Inr rs)"
proof -
  have "neighbours_ok rs = (if ordered rs then Inr () else Inl UnorderedRanges)"
    by (induction rs rule: neighbours_ok.induct) auto
  then show ?thesis
    by (auto simp: try_from_def range_list_def list_all_iff list_ex_iff nonempty_def)
qed

text \<open>
  C36: \<open>RangeList::intersection\<close> of two valid range lists is a valid range list that holds
  exactly the rows both lists hold.
\<close>

theorem intersection_exact:
  "\<lbrakk> range_list a; range_list b \<rbrakk> \<Longrightarrow>
     range_list (intersection a b) \<and> covers (intersection a b) = covers a \<inter> covers b"
  by (rule intersection_spec)

theorem intersection_exact_witness:
  "intersection [(0, 5), (8, 12)] [(3, 10 :: nat)] = [(3, 5), (8, 10)] \<and>
   covers [(3, 5), (8, 10 :: nat)] = covers [(0, 5), (8, 12)] \<inter> covers [(3, 10)]"
proof -
  have wf: "range_list [(0, 5), (8, 12 :: nat)]" "range_list [(3, 10 :: nat)]" by simp_all
  have eq: "intersection [(0, 5), (8, 12)] [(3, 10 :: nat)] = [(3, 5), (8, 10)]"
    by simp
  from intersection_exact [OF wf] show ?thesis unfolding eq by blast
qed

text \<open>
  C37: \<open>RangeList::union\<close> of two valid range lists never panics, returns a valid list whose
  neighbouring ranges are separated by a gap, loses no row of either list, and adds rows only
  between the end of a range of the first list and the start of a range of the second.
\<close>

theorem union_sound:
  assumes "range_list a" "range_list b"
  shows "\<exists>out. union a b = Inr out \<and> range_list out \<and> separated out \<and>
    covers a \<union> covers b \<subseteq> covers out \<and> covers out \<subseteq> covers a \<union> covers b \<union> gaps a b"
proof -
  from union_steps_spec [OF assms] have wf: "range_list (union_steps a b)" ..
  obtain out where out: "seal (union_steps a b) = Inr out" "covers out = covers (union_steps a b)"
    "range_list out" "separated out"
    by (rule seal_spec [OF wf])
  with union_steps_spec [OF assms] show ?thesis unfolding union_def by (metis out(2))
qed

theorem union_sound_witness:
  "\<exists>out. union [(0, 5)] [(3, 8), (9, 10 :: nat)] = Inr out \<and> separated out \<and>
     covers [(0, 5)] \<union> covers [(3, 8), (9, 10)] \<subseteq> covers out"
proof -
  have "range_list [(0, 5 :: nat)]" "range_list [(3, 8), (9, 10 :: nat)]" by simp_all
  from union_sound [OF this] show ?thesis by blast
qed

lemma range_list_last: "\<lbrakk> range_list a; q \<in> set a \<rbrakk> \<Longrightarrow> snd q \<le> snd (last a)"
proof (induction a)
  case (Cons h a)
  show ?case
  proof (cases "a = []")
    case True
    with Cons.prems show ?thesis by simp
  next
    case False
    then have l: "last a \<in> set a" by simp
    have "snd h \<le> fst (last a)" using Cons.prems(1) l by simp
    moreover have "fst (last a) < snd (last a)"
      using Cons.prems(1) l range_list_nonempty [of a "last a"] by simp
    ultimately have "snd h \<le> snd (last a)" by simp
    then show ?thesis using Cons False by auto
  qed
qed simp

lemma union_steps_before:
  assumes "range_list a" "a \<noteq> []" "\<forall>q\<in>set a. snd q < hi"
  shows "covers (union_steps a ((lo, hi) # b)) = {min (fst (hd a)) lo ..< hi} \<union> covers b"
  using assms
proof (induction a arbitrary: lo)
  case (Cons h a)
  have e: "min (snd h) hi = snd h" "snd h < hi" using Cons.prems(3) by auto
  have eq: "union_steps (h # a) ((lo, hi) # b) = (min (fst h) lo, snd h) # union_steps a ((snd h, hi) # b)"
    using e by (auto simp: union_steps_Cons trim1_def trim2_def)
  have "min (fst h) lo \<le> snd h" using Cons.prems(1) by (auto simp: min_le_iff_disj)
  then have join: "{min (fst h) lo ..< snd h} \<union> {snd h ..< hi} = {min (fst h) lo ..< hi}"
    using e(2) by (intro ivl_disj_un_two(3)) auto
  show ?case
  proof (cases "a = []")
    case True
    then show ?thesis using eq join by (simp add: Un_assoc [symmetric])
  next
    case False
    then have "covers (union_steps a ((snd h, hi) # b)) = {snd h ..< hi} \<union> covers b"
      using Cons.IH [of "snd h"] Cons.prems by (cases a) (auto simp: min_def)
    then show ?thesis using eq join by (simp add: Un_assoc [symmetric])
  qed
qed simp

text \<open>
  C39: the rows \<open>union\<close> adds are real, and depend on the order of its arguments. Of two lists where
  the first ends before the second starts, the union holds every row from the start of the first list
  to the end of the first range of the second: the gap between the lists and every gap inside the first list is
  swallowed. The union of the same lists in the other order is exact.
\<close>

theorem union_swallows_gap:
  assumes "range_list a" "range_list b" "a \<noteq> []" "b \<noteq> []" "snd (last a) \<le> fst (hd b)"
  shows "\<exists>out out'. union a b = Inr out \<and> covers out = {fst (hd a) ..< snd (hd b)} \<union> covers b \<and>
    union b a = Inr out' \<and> covers out' = covers a \<union> covers b"
proof -
  obtain h2 l2 where b: "b = h2 # l2" using assms(4) by (cases b) auto
  have h2: "fst h2 < snd h2" using assms(2) b by simp
  have before: "\<forall>q\<in>set a. snd q \<le> fst h2"
    using range_list_last [OF assms(1)] assms(5) b by fastforce
  then have "\<forall>q\<in>set a. snd q < snd h2" using h2 by fastforce
  then have "covers (union_steps a ((fst h2, snd h2) # l2)) = {min (fst (hd a)) (fst h2) ..< snd h2} \<union> covers l2"
    using union_steps_before [OF assms(1,3), of "snd h2" "fst h2" l2] by simp
  moreover have "fst (hd a) < fst h2" using before assms(1,3) range_list_nonempty [OF assms(1), of "hd a"] by (cases a) auto
  ultimately have forth: "covers (union_steps a b) = {fst (hd a) ..< snd (hd b)} \<union> covers b" using b by (auto simp: min_def)
  have "gaps b a = {}"
  proof -
    have "fst h2 \<le> fst r" if "r \<in> set b" for r using that assms(2) b h2 by auto
    then have "\<not> (snd r \<le> x \<and> x < fst q)" if "r \<in> set b" "q \<in> set a" for r q x
      using that before range_list_nonempty [OF assms(2), of r] range_list_nonempty [OF assms(1), of q] by fastforce
    then show ?thesis by (auto simp: gaps_def)
  qed
  then have rev: "covers (union_steps b a) = covers a \<union> covers b" using union_steps_spec [OF assms(2,1)] by auto
  have wf: "range_list (union_steps a b)" "range_list (union_steps b a)"
    using union_steps_spec assms(1,2) by blast+
  obtain out where "union a b = Inr out" "covers out = covers (union_steps a b)" using seal_spec [OF wf(1)] unfolding union_def by metis
  moreover obtain out' where "union b a = Inr out'" "covers out' = covers (union_steps b a)" using seal_spec [OF wf(2)] unfolding union_def by metis
  ultimately show ?thesis using forth rev by auto
qed

theorem union_swallows_gap_witness:
  "\<exists>out out'. union [(0, 2), (4, 5)] [(10, 20 :: nat)] = Inr out \<and> covers out = {0 ..< 20} \<union> {10 ..< 20} \<and>
     union [(10, 20)] [(0, 2), (4, 5 :: nat)] = Inr out' \<and> covers out' = {0 ..< 2} \<union> {4 ..< 5} \<union> {10 ..< 20}"
proof -
  have "range_list [(0, 2), (4, 5 :: nat)]" "range_list [(10, 20 :: nat)]" by simp_all
  from union_swallows_gap [OF this] show ?thesis by (simp add: Un_assoc)
qed

text \<open>
  \<open>RangeList::from_sorted_indexes\<close> returns, for strictly ascending indexes below the \<open>u32\<close>
  maximum, a valid list of maximal ranges that holds exactly the given indexes; on any other
  order of such indexes it panics.
\<close>

theorem from_sorted_indexes_spec:
  assumes "\<forall>i \<in> set idxs. i \<noteq> - 1"
  shows "if sorted_wrt (<) idxs
    then \<exists>rs. from_sorted_indexes idxs = Inr rs \<and> range_list rs \<and> separated rs \<and> covers rs = set idxs
    else from_sorted_indexes idxs = Inl RangePanic"
proof (cases idxs)
  case (Cons idx iter)
  then have idx: "idx \<noteq> - 1" "idx < idx + 1" "{idx ..< idx + 1} = {idx}" using assms by auto
  have err: "from_sorted_indexes_loop b e is = Inl x \<Longrightarrow> x = RangePanic" for b e "is" x
    by (induction b e "is" rule: from_sorted_indexes_loop.induct)
      (auto simp: rbind_eq_Inl split: if_splits)
  show ?thesis
  proof (cases "sorted_wrt (<) idxs")
    case True
    with from_sorted_indexes_loop_spec [of idx "idx + 1" iter] Cons assms idx show ?thesis by auto
  next
    case False
    with Cons assms idx from_sorted_indexes_loop_sorted [of idx "idx + 1" iter]
    have "from_sorted_indexes idxs \<noteq> Inr rs" for rs by auto
    with err [of idx "idx + 1" iter] False Cons show ?thesis
      by (cases "from_sorted_indexes idxs") auto
  qed
qed auto

theorem from_sorted_indexes_spec_witness:
  "from_sorted_indexes [1, 2, 5] = Inr [(1, 3), (5, 6)] \<and> covers [(1, 3), (5, 6 :: u32)] = {1, 2, 5}"
proof -
  have eq: "from_sorted_indexes [1, 2, 5] = Inr [(1, 3), (5, 6)]" by simp
  have "\<forall>i \<in> set [1, 2, 5 :: u32]. i \<noteq> - 1" by simp
  from from_sorted_indexes_spec [OF this] have "covers [(1, 3), (5, 6 :: u32)] = set [1, 2, 5]"
    unfolding eq by (simp del: covers_simps)
  with eq show ?thesis by (simp del: covers_simps)
qed

text \<open>
  C38: \<open>RangeList::paginate\<close> over strictly ascending page offsets returns, in ascending page
  order, page selections whose rows are exactly the listed rows that lie on the pages; partial
  selections are non-empty valid range lists relative to their page.
\<close>

theorem paginate_exact:
  assumes "range_list ranges" "offs \<noteq> []" "sorted_wrt (<) offs"
  shows "\<exists>ps. paginate ranges offs = Inr ps \<and>
    (\<Union>p \<in> set ps. page_rows offs p) = covers ranges \<inter> {hd offs ..< last offs} \<and>
    sorted_wrt (<) (map fst ps) \<and> (\<forall>p \<in> set ps. page_selection 0 (length offs - 1) p)"
  using paginate_pages_spec [of offs 0 offs ranges] assms by (simp add: paginate_def)

theorem paginate_exact_witness:
  "paginate [(1, 3), (4, 8)] [0, 5, 8, 10] = Inr [(0, Some [(1, 3), (4, 5)]), (1, None)] \<and>
   (\<Union>p \<in> set [(0, Some [(1, 3), (4, 5)]), (1, None)]. page_rows [0, 5, 8, 10] p) =
     covers [(1, 3), (4, 8)] \<inter> {0 ..< 10}"
proof -
  have eq: "paginate [(1, 3), (4, 8)] [0, 5, 8, 10] = Inr [(0, Some [(1, 3), (4, 5)]), (1, None)]"
    by (simp add: paginate_def page_loop_Cons)
  have "range_list [(1, 3), (4, 8 :: nat)]" "[0, 5, 8, 10 :: nat] \<noteq> []"
    "sorted_wrt (<) [0, 5, 8, 10 :: nat]"
    by simp_all
  from paginate_exact [OF this] show ?thesis
    unfolding eq by (simp del: covers_simps page_rows.simps)
qed

end
