(* ===== verification/Keys.thy ===== *)
theory Keys
  imports Prelude "HOL-Library.List_Lexorder"
begin

text \<open>
  Identifiers and storage keys: short ids (\<open>primitives/src/sid.rs\<close>), chunk ids and hash-index
  keys (\<open>storage/src/db/data.rs\<close>), table ids and table keys (\<open>storage/src/db/table_id.rs\<close>,
  \<open>storage/src/table/key.rs\<close>) and the reclaim bounds (\<open>storage/src/db/reclaim.rs\<close>). Keys
  are byte lists and the lexicographic order on them is the key order of the store.
\<close>

section \<open>Short ids\<close>

datatype sid_err = SidTooLong | SidInnerZero | SidBadByte

type_synonym sid = bytes

definition is_valid_byte :: "u8 \<Rightarrow> bool" where
  "is_valid_byte b \<longleftrightarrow>
     48 \<le> b \<and> b \<le> 57 \<or> 65 \<le> b \<and> b \<le> 90 \<or> 97 \<le> b \<and> b \<le> 122 \<or> b = 45 \<or> b = 95"

text \<open>\<open>SID::try_new\<close> on an array of \<open>N\<close> bytes: the id proper ends at the first zero byte.\<close>

definition sid_try_new :: "bytes \<Rightarrow> sid_err + sid" where
  "sid_try_new bytes =
     (let slice = takeWhile (\<lambda>b. b \<noteq> 0) bytes in
      if list_ex (\<lambda>b. b \<noteq> 0) (dropWhile (\<lambda>b. b \<noteq> 0) bytes) then Inl SidInnerZero
      else if \<not> list_all is_valid_byte slice then Inl SidBadByte
      else Inr bytes)"

definition sid_pad :: "nat \<Rightarrow> bytes \<Rightarrow> bytes" where
  "sid_pad N value = value @ replicate (N - length value) 0"

definition sid_try_from_bytes :: "nat \<Rightarrow> bytes \<Rightarrow> sid_err + sid" where
  "sid_try_from_bytes N value =
     (if length value > N then Inl SidTooLong else sid_try_new (sid_pad N value))"

definition sid_try_from_str :: "nat \<Rightarrow> bytes \<Rightarrow> sid_err + sid" where
  "sid_try_from_str N value =
     (if length value > N then Inl SidTooLong
      else if \<not> list_all is_valid_byte value then Inl SidBadByte
      else Inr (sid_pad N value))"

definition sid_as_str :: "sid \<Rightarrow> bytes" where
  "sid_as_str bytes = takeWhile (\<lambda>b. b \<noteq> 0) bytes"

definition sid_default :: "nat \<Rightarrow> sid" where
  "sid_default N = replicate N 0"

text \<open>The values of type \<open>SID<N>\<close>.\<close>

definition sid_ok :: "nat \<Rightarrow> sid \<Rightarrow> bool" where
  "sid_ok N s \<longleftrightarrow> length s = N \<and> sid_try_new s = Inr s"

lemma is_valid_byte_nonzero: "is_valid_byte b \<Longrightarrow> b \<noteq> 0"
  by (auto simp: is_valid_byte_def)

lemma is_valid_byte_lt_max: "is_valid_byte b \<Longrightarrow> b < 255"
proof -
  assume "is_valid_byte b"
  then have "b \<le> 122" by (auto simp: is_valid_byte_def intro: order_trans)
  then show ?thesis by (rule le_less_trans) simp
qed

lemma takeWhile_valid [simp]:
  "list_all is_valid_byte v \<Longrightarrow> takeWhile (\<lambda>b. b \<noteq> 0) (v @ replicate n 0) = v"
  "list_all is_valid_byte v \<Longrightarrow> dropWhile (\<lambda>b. b \<noteq> 0) (v @ replicate n 0) = replicate n 0"
  by (induction v) (auto dest: is_valid_byte_nonzero simp: takeWhile_eq_Nil_iff)

lemma list_ex_nonzero: "list_ex (\<lambda>b. b \<noteq> 0) z \<longleftrightarrow> z \<noteq> replicate (length z) (0 :: u8)"
  by (induction z) auto

lemma zero_tail_iff:
  "list_ex (\<lambda>b. b \<noteq> 0) (dropWhile (\<lambda>b. b \<noteq> 0) bs) \<longleftrightarrow> bs \<noteq> sid_pad (length bs) (sid_as_str bs)"
proof -
  obtain v z where vz: "v = takeWhile (\<lambda>b. b \<noteq> 0) bs" "z = dropWhile (\<lambda>b. b \<noteq> 0) bs" by simp
  then have bs: "bs = v @ z" by simp
  then have "length bs - length v = length z" by simp
  then have "sid_pad (length bs) (sid_as_str bs) = v @ replicate (length z) 0"
    using vz by (simp add: sid_pad_def sid_as_str_def)
  then show ?thesis
    unfolding vz(2) [symmetric] by (simp only: list_ex_nonzero bs same_append_eq)
qed

lemma sid_try_new_iff:
  "sid_try_new bs = Inr s \<longleftrightarrow>
     s = bs \<and> list_all is_valid_byte (sid_as_str bs) \<and> bs = sid_pad (length bs) (sid_as_str bs)"
  unfolding sid_try_new_def Let_def zero_tail_iff sid_as_str_def [symmetric] by auto

section \<open>Big-endian integers\<close>

text \<open>\<open>to_be_bytes\<close> of a \<open>k\<close>-byte integer and its inverse.\<close>

fun be_bytes :: "nat \<Rightarrow> nat \<Rightarrow> bytes" where
  "be_bytes 0 n = []"
| "be_bytes (Suc k) n = word_of_nat (n div 256 ^ k) # be_bytes k (n mod 256 ^ k)"

fun be_nat :: "bytes \<Rightarrow> nat" where
  "be_nat [] = 0"
| "be_nat (b # bs) = unat b * 256 ^ length bs + be_nat bs"

lemma length_be_bytes [simp]: "length (be_bytes k n) = k"
  by (induction k n rule: be_bytes.induct) auto

lemma unat_byte [simp]: "n < 256 \<Longrightarrow> unat (word_of_nat n :: u8) = n"
  by (simp add: unat_of_nat take_bit_eq_mod)

lemma unat_byte_less: "unat (b :: u8) < 256"
  by (rule order_less_le_trans [OF unsigned_less]) simp

lemma be_nat_bytes: "n < 256 ^ k \<Longrightarrow> be_nat (be_bytes k n) = n"
proof (induction k n rule: be_bytes.induct)
  case (2 k n)
  then have "n div 256 ^ k < 256" by (simp add: less_mult_imp_div_less)
  then show ?case using 2 by (simp add: div_mult_mod_eq)
qed simp

lemma be_nat_less: "be_nat bs < 256 ^ length bs"
proof (induction bs)
  case (Cons b bs)
  have "unat b * 256 ^ length bs + be_nat bs < (unat b + 1) * 256 ^ length bs"
    using Cons by simp
  also have "\<dots> \<le> 256 * 256 ^ length bs"
    using unat_byte_less [of b] by (intro mult_right_mono) auto
  finally show ?case by simp
qed simp

lemma be_bytes_nat: "be_bytes (length bs) (be_nat bs) = bs"
proof (induction bs)
  case (Cons b bs)
  have "(unat b * 256 ^ length bs + be_nat bs) div 256 ^ length bs = unat b"
    "(unat b * 256 ^ length bs + be_nat bs) mod 256 ^ length bs = be_nat bs"
    using be_nat_less [of bs] by simp_all
  then show ?case using Cons by simp
qed simp

lemma div_mod_less_iff:
  fixes m n d :: nat
  assumes "0 < d"
  shows "m < n \<longleftrightarrow> m div d < n div d \<or> m div d = n div d \<and> m mod d < n mod d"
proof (cases "m div d" "n div d" rule: linorder_cases)
  case less
  then show ?thesis by (metis div_le_mono not_le)
next
  case equal
  then show ?thesis by (metis div_mult_mod_eq less_irrefl nat_add_left_cancel_less)
next
  case greater
  then show ?thesis by (metis div_le_mono less_imp_le not_le order_less_irrefl)
qed

lemma be_bytes_less_iff:
  "\<lbrakk> m < 256 ^ k; n < 256 ^ k \<rbrakk> \<Longrightarrow> be_bytes k m < be_bytes k n \<longleftrightarrow> m < n"
proof (induction k m arbitrary: n rule: be_bytes.induct)
  case (2 k m n)
  let ?d = "256 ^ k :: nat"
  have d: "m div ?d < 256" "n div ?d < 256" using 2 by (simp_all add: less_mult_imp_div_less)
  have w: "word_of_nat (m div ?d) < (word_of_nat (n div ?d) :: u8) \<longleftrightarrow> m div ?d < n div ?d"
    "word_of_nat (m div ?d) = (word_of_nat (n div ?d) :: u8) \<longleftrightarrow> m div ?d = n div ?d"
    using d by (simp_all add: word_less_nat_alt word_unat_eq_iff)
  then show ?case using "2.IH" [of "n mod ?d"] div_mod_less_iff [of ?d m n] by simp
qed simp

section \<open>Chunk ids\<close>

definition chunk_id_new :: "sid \<Rightarrow> u64 \<Rightarrow> bytes" where
  "chunk_id_new dataset_id last_block = dataset_id @ be_bytes 8 (unat last_block)"

definition chunk_id_dataset_id :: "bytes \<Rightarrow> sid_err + sid" where
  "chunk_id_dataset_id bytes = sid_try_from_bytes 48 (take 48 bytes)"

definition chunk_id_last_block :: "bytes \<Rightarrow> u64" where
  "chunk_id_last_block bytes = word_of_nat (be_nat (drop 48 bytes))"

section \<open>Hash-index keys\<close>

definition hash_index_key :: "sid \<Rightarrow> bytes \<Rightarrow> bytes" where
  "hash_index_key dataset_id hash = dataset_id @ hash"

definition hash_index_set_hash :: "bytes \<Rightarrow> bytes \<Rightarrow> bytes" where
  "hash_index_set_hash key hash = take 48 key @ hash"

text \<open>The loop of \<open>prefix_upper_bound\<close> on the reversed vector: \<open>last_mut\<close> is the head \<open>b\<close>.\<close>

fun bump_last :: "bytes \<Rightarrow> bytes" where
  "bump_last [] = []"
| "bump_last (b # rest) = (if b < 255 then (b + 1) # rest else bump_last rest)"

definition prefix_upper_bound :: "bytes \<Rightarrow> bytes" where
  "prefix_upper_bound prefix = rev (bump_last (rev prefix))"

definition dataset_range :: "sid \<Rightarrow> bytes \<times> bytes" where
  "dataset_range dataset_id = (dataset_id, prefix_upper_bound dataset_id)"

section \<open>Table keys\<close>

datatype table_key =
  Schema
| Statistic u16
| Offsets u16
| Page u16 u32

fun table_key_serialize :: "table_key \<Rightarrow> bytes" where
  "table_key_serialize Schema = [0]"
| "table_key_serialize (Statistic column) = 1 # be_bytes 2 (unat column)"
| "table_key_serialize (Offsets buffer) = 2 # be_bytes 2 (unat buffer)"
| "table_key_serialize (Page buffer index) = 3 # be_bytes 2 (unat buffer) @ be_bytes 4 (unat index)"

definition table_key_make :: "bytes \<Rightarrow> table_key \<Rightarrow> bytes" where
  "table_key_make name key = name @ table_key_serialize key"

definition table_key_start :: "bytes \<Rightarrow> bytes" where
  "table_key_start name = name @ [0]"

definition table_key_end :: "bytes \<Rightarrow> bytes" where
  "table_key_end name = name @ [255]"

definition table_key_schema :: "bytes \<Rightarrow> bytes" where
  "table_key_schema name = table_key_make name Schema"

definition table_key_statistic :: "bytes \<Rightarrow> nat \<Rightarrow> bytes" where
  "table_key_statistic name column_index = table_key_make name (Statistic (word_of_nat column_index))"

definition table_key_offsets :: "bytes \<Rightarrow> nat \<Rightarrow> bytes" where
  "table_key_offsets name buffer = table_key_make name (Offsets (word_of_nat buffer))"

definition table_key_page :: "bytes \<Rightarrow> nat \<Rightarrow> nat \<Rightarrow> bytes" where
  "table_key_page name buffer page = table_key_make name (Page (word_of_nat buffer) (word_of_nat page))"

section \<open>Table ids and disk reclaim\<close>

type_synonym table_id = bytes

definition table_id_try_from_key :: "bytes \<Rightarrow> table_id option" where
  "table_id_try_from_key bytes = (if length bytes = 16 then Some bytes else None)"

definition reclaim_lower_bound :: bytes where
  "reclaim_lower_bound = replicate 16 0"

definition reclaim_upper_bound :: "table_id option \<Rightarrow> bytes" where
  "reclaim_upper_bound wm = (case wm of Some t \<Rightarrow> t | None \<Rightarrow> replicate 17 255)"

text \<open>\<open>Iterator::min\<close>.\<close>

fun iter_min :: "'a::linorder list \<Rightarrow> 'a option" where
  "iter_min [] = None"
| "iter_min (x # xs) = (case iter_min xs of None \<Rightarrow> Some x | Some y \<Rightarrow> Some (min x y))"

definition watermark :: "table_id list \<Rightarrow> table_id list \<Rightarrow> table_id option" where
  "watermark live dirty = iter_min (live @ dirty)"

definition sst_is_unlinkable :: "int \<Rightarrow> bytes option \<Rightarrow> bytes \<Rightarrow> bool" where
  "sst_is_unlinkable level end_key upper_bound \<longleftrightarrow>
     level > 0 \<and> (case end_key of Some e \<Rightarrow> e \<le> upper_bound | None \<Rightarrow> False)"

section \<open>Key lemmas\<close>

lemma append_less_iff:
  fixes a b :: bytes
  shows "length a = length b \<Longrightarrow> a @ x < b @ y \<longleftrightarrow> a < b \<or> a = b \<and> x < y"
  by (induction a b rule: list_induct2) auto

lemma append_le_iff:
  fixes a b :: bytes
  shows "length a = length b \<Longrightarrow> a @ x \<le> b @ y \<longleftrightarrow> a < b \<or> a = b \<and> x \<le> y"
  by (induction a b rule: list_induct2) auto

lemma le_append [simp]: "(a :: bytes) \<le> a @ x"
  by (induction a) auto

lemma be_bytes_inject:
  "\<lbrakk> m < 256 ^ k; n < 256 ^ k \<rbrakk> \<Longrightarrow> be_bytes k m = be_bytes k n \<longleftrightarrow> m = n"
  by (metis be_nat_bytes)

lemma unat_u64_less: "unat (x :: u64) < 256 ^ 8"
  by (rule order_less_le_trans [OF unsigned_less]) simp

lemma unat_u32_less: "unat (x :: u32) < 256 ^ 4"
  by (rule order_less_le_trans [OF unsigned_less]) simp

lemma unat_u16_less: "unat (x :: u16) < 256 ^ 2"
  by (rule order_less_le_trans [OF unsigned_less]) simp

lemma be_bytes_word_inject [simp]:
  "be_bytes 8 (unat x) = be_bytes 8 (unat x') \<longleftrightarrow> x = (x' :: u64)"
  "be_bytes 4 (unat y) = be_bytes 4 (unat y') \<longleftrightarrow> y = (y' :: u32)"
  "be_bytes 2 (unat z) = be_bytes 2 (unat z') \<longleftrightarrow> z = (z' :: u16)"
  using unat_u64_less unat_u32_less unat_u16_less
  by (simp_all add: be_bytes_inject word_unat_eq_iff)

lemma be_bytes_word_less [simp]:
  "be_bytes 8 (unat x) < be_bytes 8 (unat x') \<longleftrightarrow> x < (x' :: u64)"
  "be_bytes 4 (unat y) < be_bytes 4 (unat y') \<longleftrightarrow> y < (y' :: u32)"
  using unat_u64_less unat_u32_less by (simp_all add: be_bytes_less_iff word_less_nat_alt)

lemma chunk_id_less_iff [simp]:
  "length d = length d' \<Longrightarrow> chunk_id_new d b < chunk_id_new d' b' \<longleftrightarrow> d < d' \<or> d = d' \<and> b < b'"
  by (simp add: chunk_id_new_def append_less_iff)

lemma chunk_id_inject [simp]:
  "length d = length d' \<Longrightarrow> chunk_id_new d b = chunk_id_new d' b' \<longleftrightarrow> d = d' \<and> b = b'"
  by (simp add: chunk_id_new_def)

lemma chunk_id_le_iff [simp]:
  "length d = length d' \<Longrightarrow> chunk_id_new d b \<le> chunk_id_new d' b' \<longleftrightarrow> d < d' \<or> d = d' \<and> b \<le> b'"
  by (auto simp: order.order_iff_strict)

lemma sid_okD: "sid_ok N s \<Longrightarrow> length s = N"
  by (simp add: sid_ok_def)

lemma sid_try_from_bytes_ok: "sid_ok N s \<Longrightarrow> sid_try_from_bytes N s = Inr s"
  by (simp add: sid_ok_def sid_try_from_bytes_def sid_pad_def)

lemma chunk_id_last_block_new [simp]:
  "length d = 48 \<Longrightarrow> chunk_id_last_block (chunk_id_new d b) = b"
  using unat_u64_less [of b]
  by (simp add: chunk_id_last_block_def chunk_id_new_def be_nat_bytes del: be_bytes.simps)

lemma chunk_id_dataset_id_new [simp]:
  "sid_ok 48 d \<Longrightarrow> chunk_id_dataset_id (chunk_id_new d b) = Inr d"
  by (simp add: chunk_id_dataset_id_def chunk_id_new_def sid_okD sid_try_from_bytes_ok)

lemma bump_last_snoc:
  "bump_last (xs @ [b]) =
     (if bump_last xs \<noteq> [] then bump_last xs @ [b] else if b < 255 then [b + 1] else [])"
  by (induction xs) auto

lemma prefix_upper_bound_simps [simp]:
  "prefix_upper_bound [] = []"
  "prefix_upper_bound (b # p) =
     (if prefix_upper_bound p \<noteq> [] then b # prefix_upper_bound p
      else if b < 255 then [b + 1] else [])"
  by (simp_all add: prefix_upper_bound_def bump_last_snoc)

lemma byte_le_max [simp]: "(b :: u8) \<le> 255"
  using unat_byte_less [of b] by (simp add: word_le_nat_alt)

lemma byte_not_above_max [simp]: "\<not> (255 :: u8) < b"
  by (simp add: not_less)

lemma byte_less_max: "\<not> b < 255 \<longleftrightarrow> b = (255 :: u8)"
  by (metis byte_le_max order.strict_iff_order)

lemma byte_less_succ: "b < (255 :: u8) \<Longrightarrow> c < b + 1 \<longleftrightarrow> c \<le> b"
  using word_less_not_max [of b 255] by simp

lemma prefix_upper_bound_spec:
  "p \<le> k \<and> (prefix_upper_bound p = [] \<or> k < prefix_upper_bound p) \<longleftrightarrow> take (length p) k = p"
proof (induction p arbitrary: k)
  case (Cons b p)
  show ?case
  proof (cases k)
    case (Cons c k')
    then show ?thesis using Cons.IH [of k'] by (auto simp: byte_less_succ byte_less_max)
  qed simp
qed simp


lemma sid_ok_bytes: "sid_ok N s \<Longrightarrow> b \<in> set s \<Longrightarrow> b < 255"
proof -
  assume "sid_ok N s" and b: "b \<in> set s"
  then have v: "list_all is_valid_byte (sid_as_str s)" and s: "s = sid_pad (length s) (sid_as_str s)"
    by (auto simp: sid_ok_def sid_try_new_iff)
  from b have "b \<in> set (sid_pad (length s) (sid_as_str s))" using s by simp
  then have "b \<in> set (sid_as_str s) \<or> b = 0" by (auto simp: sid_pad_def)
  then show ?thesis using v by (auto simp: list_all_iff is_valid_byte_lt_max)
qed

lemma prefix_upper_bound_nonempty: "p \<noteq> [] \<Longrightarrow> \<forall>b\<in>set p. b < 255 \<Longrightarrow> prefix_upper_bound p \<noteq> []"
  by (induction p) auto

lemma table_key_serialize_inject [simp]:
  "table_key_serialize k = table_key_serialize k' \<longleftrightarrow> k = k'"
  by (cases k; cases k') auto

lemma table_key_bounds:
  "[0] \<le> table_key_serialize k" "table_key_serialize k < [255]"
  by (cases k; simp)+

lemma iter_min_spec:
  "iter_min xs = None \<longleftrightarrow> xs = []"
  "iter_min xs = Some m \<Longrightarrow> m \<in> set xs \<and> (\<forall>x\<in>set xs. m \<le> x)"
  by (induction xs arbitrary: m) (force split: option.splits simp: min_def)+

lemma table_key_in_range:
  "length t = 16 \<Longrightarrow> length t' = 16 \<Longrightarrow>
    table_key_start t \<le> table_key_make t' k \<and> table_key_make t' k < table_key_end t \<longleftrightarrow> t' = t"
  using table_key_bounds [of k]
  by (auto simp: table_key_make_def table_key_start_def table_key_end_def append_less_iff append_le_iff)

lemma table_key_above: "t < table_key_make t k"
  using le_append [of t "table_key_serialize k"]
  by (cases k) (auto simp: table_key_make_def order.order_iff_strict)

text \<open>The watermark is at or below every table it is taken over.\<close>

definition watermark_below :: "table_id option \<Rightarrow> table_id \<Rightarrow> bool" where
  "watermark_below m t \<longleftrightarrow> (\<exists>w. m = Some w \<and> w \<le> t)"

lemma watermark_below_watermark: "t \<in> set live \<union> set dirty \<Longrightarrow> watermark_below (watermark live dirty) t"
  by (cases "watermark live dirty")
    (auto simp: watermark_below_def watermark_def iter_min_spec dest: iter_min_spec(2))

lemma unlinkable_below:
  "sst_is_unlinkable level (Some end_key) (reclaim_upper_bound m) \<Longrightarrow> watermark_below m t \<Longrightarrow>
    end_key < table_key_make t k"
  using table_key_above [of t k]
  by (auto simp: sst_is_unlinkable_def reclaim_upper_bound_def watermark_below_def intro: order.strict_trans1)

section \<open>Properties\<close>

text \<open>
  Short ids round trip. Parsing a text gives the id \<open>s\<close> exactly when the text fits in \<open>N\<close>
  bytes, has only valid characters and is what \<open>s\<close> prints; raw bytes are read back as
  themselves exactly when they are an id.
\<close>

theorem sid_roundtrip:
  "(sid_try_from_str N v = Inr s \<longleftrightarrow>
      length v \<le> N \<and> list_all is_valid_byte v \<and> sid_ok N s \<and> sid_as_str s = v) \<and>
   (sid_try_from_bytes N s = Inr s \<longleftrightarrow> sid_ok N s)"
proof -
  have "sid_ok N s \<and> sid_as_str s = v" if "sid_try_from_str N v = Inr s"
    using that by (auto simp: sid_try_from_str_def sid_ok_def sid_try_new_iff sid_as_str_def sid_pad_def
        split: if_splits)
  moreover have "sid_try_from_str N (sid_as_str s) = Inr s" if "sid_ok N s"
    using that length_takeWhile_le [of "\<lambda>b. b \<noteq> 0" s]
    by (auto simp: sid_try_from_str_def sid_ok_def sid_try_new_iff sid_as_str_def)
  moreover have "length v \<le> N \<and> list_all is_valid_byte v" if "sid_try_from_str N v = Inr s"
    using that by (auto simp: sid_try_from_str_def split: if_splits)
  moreover have "sid_ok N s" if "sid_try_from_bytes N s = Inr s"
    using that by (auto simp: sid_try_from_bytes_def sid_ok_def sid_try_new_iff sid_pad_def split: if_splits)
  ultimately show ?thesis using sid_try_from_bytes_ok by blast
qed

text \<open>
  Chunk ids sort by dataset first and by last block second, and both parts are read back from
  the key: the order on which chunk iteration rests.
\<close>

theorem chunk_id_order:
  assumes "sid_ok 48 d" and "sid_ok 48 d'"
  shows "(chunk_id_new d b < chunk_id_new d' b' \<longleftrightarrow> d < d' \<or> d = d' \<and> b < b') \<and>
    chunk_id_dataset_id (chunk_id_new d b) = Inr d \<and> chunk_id_last_block (chunk_id_new d b) = b"
  using assms by (simp add: sid_okD)

theorem chunk_id_order_witness:
  "chunk_id_new (sid_default 48) 255 < chunk_id_new (sid_default 48) 256 \<and>
   chunk_id_dataset_id (chunk_id_new (sid_default 48) 255) = Inr (sid_default 48) \<and>
   chunk_id_last_block (chunk_id_new (sid_default 48) 255) = 255"
proof -
  have "sid_ok 48 (sid_default 48)" by code_simp
  from chunk_id_order [OF this this] show ?thesis by simp
qed

text \<open>
  The range deleted when a dataset's hash index is dropped holds all keys of that dataset and
  no key of another one.
\<close>

theorem dataset_range_exact:
  assumes "sid_ok 48 d" and "sid_ok 48 d'"
  shows "fst (dataset_range d) \<le> hash_index_key d' h \<and> hash_index_key d' h < snd (dataset_range d)
    \<longleftrightarrow> d' = d"
proof -
  have "prefix_upper_bound d \<noteq> []"
    using assms(1) sid_ok_bytes [OF assms(1)] sid_okD [OF assms(1)]
    by (intro prefix_upper_bound_nonempty) auto
  then show ?thesis
    using prefix_upper_bound_spec [of d "d' @ h"] assms
    by (simp add: dataset_range_def hash_index_key_def sid_okD)
qed

theorem dataset_range_exact_witness:
  "fst (dataset_range (sid_default 48)) \<le> hash_index_key (sid_default 48) [48, 120] \<and>
   hash_index_key (sid_default 48) [48, 120] < snd (dataset_range (sid_default 48))"
proof -
  have "sid_ok 48 (sid_default 48)" by code_simp
  from dataset_range_exact [OF this this] show ?thesis by simp
qed

text \<open>
  The keys of a table are in its key range, no key of another table is, and two different
  entries of the same or of different tables never share a key.
\<close>

theorem table_keys_isolated:
  assumes "length t = 16" and "length t' = 16"
  shows "(table_key_start t \<le> table_key_make t' k \<and> table_key_make t' k < table_key_end t \<longleftrightarrow> t' = t) \<and>
    (table_key_make t k = table_key_make t' k' \<longleftrightarrow> t = t' \<and> k = k')"
  using table_key_in_range [OF assms] assms by (simp add: table_key_make_def)

theorem table_keys_isolated_witness:
  "table_key_start (replicate 16 7) \<le> table_key_make (replicate 16 7) (Page 3 500) \<and>
   table_key_make (replicate 16 7) (Page 3 500) < table_key_end (replicate 16 7) \<and>
   table_key_make (replicate 16 7) (Page 3 500) \<noteq> table_key_make (replicate 16 7) (Page 3 501)"
  using table_keys_isolated [of "replicate 16 7" "replicate 16 7" "Page 3 500"] by simp

end
