(* ===== verification/Errors.thy ===== *)
theory Errors
  imports Prelude
begin

text \<open>
  The failures of the storage layer and of the dataset writer. The sources carry them in
  \<open>anyhow::Error\<close>; here each \<open>bail!\<close>, \<open>ensure!\<close>, typed error or panic is a constructor.
  \<open>fork_reason\<close> is \<open>UnapplicableForkReason\<close> of \<open>hotblocks/src/errors.rs\<close>.
\<close>

datatype retry_reason = DeadlineBeforeBackoff | AttemptsExhausted | DeadlineAfterBackoff

datatype fork_reason =
  HintsBelowFinalizedHead
| HintConflictsWithFinalizedHead
| BelowRetainedWindow
| StaleRollbackBoundary
| DropsFinalizedBlock
| RewritesFinalizedHistory
| FinalityHashChanged
| FinalityContradictsChunk
| FinalityEvictsFinalizedBlock
| FinalityContradictsStoredBlock

datatype db_err =
  NoSuchColumn string
| UnexpectedType string
| NullCells
| IndexTooBig
| BlockNotFound
| SliceOutOfBounds
| TableNotFound
| BadKey
| BadValue
| SidPanic
| UnexpectedLastBlock
| InvalidChunkRange
| DatasetNotFound
| DatasetExists
| KindMismatch
| ChainBroken
| ChainGap
| ChunkOverlap
| NoBlocksTable
| NoParentInfo
| BadIndexValue
| RetryExhausted nat retry_reason
| CommitFailed
| BuildFailed
| UnapplicableFork fork_reason
| MultipleProcesses
| EmptyDataset
| NoPrevBlocks
| PrevNotAscending
| RetentionGap
| RetentionHashMismatch
| MissingHeadPanic
| BadSortKey
| IndexPanic
| AssertPanic
| NoSuchField
| IncompatibleTypes
| InvalidIndexCast
| NothingToMerge
| NotIndexSlice
| ConversionError
| SortPanic
| ContinuityViolated
| DataMaskChanged
| ChannelClosed
| InvalidIndexType
| InMemoryReuse
| TableNotPresent

end
