(* ===== verification/Tables.thy ===== *)
theory Tables
  imports Errors
begin

text \<open>
  The column readers of the storage layer (\<open>storage/src/db/read/blocks_table.rs\<close> and
  \<open>transactions_table.rs\<close>). A table is its schema with the decoded columns: each cell is the
  slot of the value buffer and its validity bit. The page format below \<open>TableReader\<close> is not
  modelled.
\<close>

section \<open>Tables\<close>

type_synonym 'a cells = "('a \<times> bool) list"

datatype array =
  UInt16 "u16 cells"
| UInt32 "u32 cells"
| UInt64 "u64 cells"
| Utf8 "bytes cells"
| OtherArray nat

record table =
  num_rows :: nat
  columns :: "(string \<times> array) list"

fun array_len :: "array \<Rightarrow> nat" where
  "array_len (UInt16 xs) = length xs"
| "array_len (UInt32 xs) = length xs"
| "array_len (UInt64 xs) = length xs"
| "array_len (Utf8 xs) = length xs"
| "array_len (OtherArray n) = n"

definition slice :: "nat \<Rightarrow> nat \<Rightarrow> 'a list \<Rightarrow> 'a list" where
  "slice off len xs = take len (drop off xs)"

fun array_slice :: "nat \<Rightarrow> nat \<Rightarrow> array \<Rightarrow> array" where
  "array_slice off len (UInt16 xs) = UInt16 (slice off len xs)"
| "array_slice off len (UInt32 xs) = UInt32 (slice off len xs)"
| "array_slice off len (UInt64 xs) = UInt64 (slice off len xs)"
| "array_slice off len (Utf8 xs) = Utf8 (slice off len xs)"
| "array_slice off len (OtherArray n) = OtherArray len"

fun null_count :: "array \<Rightarrow> nat" where
  "null_count (UInt16 xs) = length (filter (\<lambda>c. \<not> snd c) xs)"
| "null_count (UInt32 xs) = length (filter (\<lambda>c. \<not> snd c) xs)"
| "null_count (UInt64 xs) = length (filter (\<lambda>c. \<not> snd c) xs)"
| "null_count (Utf8 xs) = length (filter (\<lambda>c. \<not> snd c) xs)"
| "null_count (OtherArray n) = 0"

text \<open>\<open>schema.index_of(name)?\<close> followed by \<open>create_column_reader\<close>.\<close>

definition column :: "table \<Rightarrow> string \<Rightarrow> db_err + array" where
  "column t name = ok_or (map_of (columns t) name) (NoSuchColumn name)"

definition read_slice :: "array \<Rightarrow> nat \<Rightarrow> nat \<Rightarrow> db_err + array" where
  "read_slice a off len =
     (if off + len \<le> array_len a then Inr (array_slice off len a) else Inl SliceOutOfBounds)"

definition read_string_cell :: "table \<Rightarrow> string \<Rightarrow> nat \<Rightarrow> db_err + bytes" where
  "read_string_cell t col row_index =
     rbind (column t col) (\<lambda>a.
     rbind (read_slice a row_index 1) (\<lambda>v.
       case v of Utf8 [c] \<Rightarrow> Inr (fst c) | _ \<Rightarrow> Inl (UnexpectedType col)))"

section \<open>Point reads\<close>

text \<open>\<open>Iterator::min_by_key\<close>: the first of several minimal items.\<close>

fun min_by_key :: "('a \<Rightarrow> 'k::linorder) \<Rightarrow> 'a list \<Rightarrow> 'a option" where
  "min_by_key f [] = None"
| "min_by_key f (x # xs) =
     (case min_by_key f xs of None \<Rightarrow> Some x | Some y \<Rightarrow> Some (if f y < f x then y else x))"

definition find_block_row :: "'n::linorder list \<Rightarrow> 'n \<Rightarrow> nat option" where
  "find_block_row numbers block =
     map_option fst (min_by_key snd (filter (\<lambda>e. block \<le> snd e) (List.enumerate 0 numbers)))"

fun position :: "('a \<Rightarrow> bool) \<Rightarrow> 'a list \<Rightarrow> nat option" where
  "position P [] = None"
| "position P (x # xs) = (if P x then Some 0 else map_option Suc (position P xs))"

definition find_exact_block_row :: "'n list \<Rightarrow> 'n \<Rightarrow> nat option" where
  "find_exact_block_row numbers block = position (\<lambda>n. n = block) numbers"

definition get_parent_block_hash :: "table \<Rightarrow> u64 \<Rightarrow> db_err + bytes" where
  "get_parent_block_hash t block_number =
     rbind (column t ''number'') (\<lambda>numbers.
     rbind (case numbers of
         UInt32 xs \<Rightarrow> Inr (find_block_row (map fst xs) (ucast block_number))
       | UInt64 xs \<Rightarrow> Inr (find_block_row (map fst xs) block_number)
       | _ \<Rightarrow> Inl (UnexpectedType ''number'')) (\<lambda>maybe_row_idx.
     rbind (ok_or maybe_row_idx BlockNotFound) (\<lambda>row_index.
       read_string_cell t ''parent_hash'' row_index)))"

text \<open>\<open>u32::try_from\<close> of a block number.\<close>

definition u32_try_from :: "u64 \<Rightarrow> u32 option" where
  "u32_try_from n = (if unat n < 2 ^ 32 then Some (ucast n) else None)"

definition find_block_hash :: "table \<Rightarrow> u64 \<Rightarrow> db_err + bytes option" where
  "find_block_hash t block_number =
     rbind (column t ''number'') (\<lambda>numbers.
     rbind (case numbers of
         UInt32 xs \<Rightarrow> Inr (Option.bind (u32_try_from block_number) (find_exact_block_row (map fst xs)))
       | UInt64 xs \<Rightarrow> Inr (find_exact_block_row (map fst xs) block_number)
       | _ \<Rightarrow> Inl (UnexpectedType ''number'')) (\<lambda>maybe_row_idx.
     case maybe_row_idx of
       None \<Rightarrow> Inr None
     | Some row_index \<Rightarrow> rbind (read_string_cell t ''hash'' row_index) (\<lambda>h. Inr (Some h))))"

section \<open>Streaming reads\<close>

definition HASH_BATCH_SIZE :: nat where
  "HASH_BATCH_SIZE = 4096"

text \<open>The loop over \<open>offset\<close>; \<open>body offset len\<close> reads one batch and visits its rows.\<close>

function for_each_batch :: "(nat \<Rightarrow> nat \<Rightarrow> 's \<Rightarrow> 'e + 's) \<Rightarrow> nat \<Rightarrow> nat \<Rightarrow> 's \<Rightarrow> 'e + 's" where
  "for_each_batch body n off s =
     (if off < n then
        let len = min HASH_BATCH_SIZE (n - off)
        in rbind (body off len s) (for_each_batch body n (off + len))
      else Inr s)"
  by pat_completeness auto
termination
  by (relation "measure (\<lambda>(body, n, off, s). n - off)") (auto simp: HASH_BATCH_SIZE_def)

declare for_each_batch.simps [simp del]

fun foldM :: "('a \<Rightarrow> 's \<Rightarrow> 'e + 's) \<Rightarrow> 'a list \<Rightarrow> 's \<Rightarrow> 'e + 's" where
  "foldM f [] s = Inr s"
| "foldM f (x # xs) s = rbind (f x s) (foldM f xs)"

definition ensure_number_type :: "string \<Rightarrow> array \<Rightarrow> db_err + unit" where
  "ensure_number_type name a = (case a of UInt32 _ \<Rightarrow> Inr () | UInt64 _ \<Rightarrow> Inr () | _ \<Rightarrow> Inl (UnexpectedType name))"

definition ensure_index_type :: "string \<Rightarrow> array \<Rightarrow> db_err + unit" where
  "ensure_index_type name a =
     (case a of UInt16 _ \<Rightarrow> Inr () | UInt32 _ \<Rightarrow> Inr () | UInt64 _ \<Rightarrow> Inr () | _ \<Rightarrow> Inl (UnexpectedType name))"

definition ensure_utf8_type :: "string \<Rightarrow> array \<Rightarrow> db_err + unit" where
  "ensure_utf8_type name a = (case a of Utf8 _ \<Rightarrow> Inr () | _ \<Rightarrow> Inl (UnexpectedType name))"

fun block_numbers :: "array \<Rightarrow> u64 list" where
  "block_numbers (UInt32 xs) = map (\<lambda>c. ucast (fst c)) xs"
| "block_numbers (UInt64 xs) = map fst xs"
| "block_numbers _ = []"

fun strings :: "array \<Rightarrow> bytes list" where
  "strings (Utf8 xs) = map fst xs"
| "strings _ = []"

text \<open>\<open>TransactionIndexes::value\<close>, row by row.\<close>

definition index_of_u64 :: "u64 \<Rightarrow> db_err + u32" where
  "index_of_u64 i = ok_or (u32_try_from i) IndexTooBig"

fun item_indexes :: "array \<Rightarrow> (db_err + u32) list" where
  "item_indexes (UInt16 xs) = map (\<lambda>c. Inr (ucast (fst c))) xs"
| "item_indexes (UInt32 xs) = map (\<lambda>c. Inr (fst c)) xs"
| "item_indexes (UInt64 xs) = map (\<lambda>c. index_of_u64 (fst c)) xs"
| "item_indexes _ = []"

definition for_each_block_hash ::
  "table \<Rightarrow> (u64 \<times> bytes \<Rightarrow> 's \<Rightarrow> db_err + 's) \<Rightarrow> 's \<Rightarrow> db_err + 's" where
  "for_each_block_hash t visit s =
     rbind (column t ''number'') (\<lambda>number_col.
     rbind (ensure_number_type ''number'' number_col) (\<lambda>_.
     rbind (column t ''hash'') (\<lambda>hash_col.
     rbind (ensure_utf8_type ''hash'' hash_col) (\<lambda>_.
     for_each_batch (\<lambda>off len s.
       rbind (read_slice number_col off len) (\<lambda>numbers.
       rbind (read_slice hash_col off len) (\<lambda>hashes.
       rbind (ensure (null_count numbers = 0 \<and> null_count hashes = 0) NullCells) (\<lambda>_.
         foldM visit (zip (block_numbers numbers) (strings hashes)) s))))
       (num_rows t) 0 s))))"

definition for_each_transaction_hash ::
  "table \<Rightarrow> (u64 \<times> u32 \<times> bytes \<Rightarrow> 's \<Rightarrow> db_err + 's) \<Rightarrow> 's \<Rightarrow> db_err + 's" where
  "for_each_transaction_hash t visit s =
     rbind (column t ''block_number'') (\<lambda>number_col.
     rbind (ensure_number_type ''block_number'' number_col) (\<lambda>_.
     rbind (column t ''transaction_index'') (\<lambda>index_col.
     rbind (ensure_index_type ''transaction_index'' index_col) (\<lambda>_.
     rbind (column t ''hash'') (\<lambda>hash_col.
     rbind (ensure_utf8_type ''hash'' hash_col) (\<lambda>_.
     for_each_batch (\<lambda>off len s.
       rbind (read_slice number_col off len) (\<lambda>numbers.
       rbind (read_slice index_col off len) (\<lambda>indexes.
       rbind (read_slice hash_col off len) (\<lambda>hashes.
       rbind (ensure (null_count numbers = 0 \<and> null_count indexes = 0 \<and> null_count hashes = 0) NullCells) (\<lambda>_.
         foldM (\<lambda>(n, i, h) s. rbind i (\<lambda>i. visit (n, i, h) s))
           (zip (block_numbers numbers) (zip (item_indexes indexes) (strings hashes))) s)))))
       (num_rows t) 0 s))))))"


section \<open>Reference rows\<close>

definition table_ok :: "table \<Rightarrow> bool" where
  "table_ok t \<longleftrightarrow> list_all (\<lambda>c. array_len (snd c) = num_rows t) (columns t)"

text \<open>The rows of a blocks table read at once; \<open>None\<close> when the table is refused.\<close>

definition block_rows :: "table \<Rightarrow> (u64 \<times> bytes) list option" where
  "block_rows t =
     (case (map_of (columns t) ''number'', map_of (columns t) ''hash'') of
        (Some n, Some h) \<Rightarrow>
          if ensure_number_type ''number'' n = Inr () \<and> ensure_utf8_type ''hash'' h = Inr () \<and>
             null_count n = 0 \<and> null_count h = 0
          then Some (zip (block_numbers n) (strings h)) else None
      | _ \<Rightarrow> None)"

definition transaction_rows :: "table \<Rightarrow> (u64 \<times> (db_err + u32) \<times> bytes) list option" where
  "transaction_rows t =
     (case (map_of (columns t) ''block_number'', map_of (columns t) ''transaction_index'', map_of (columns t) ''hash'') of
        (Some n, Some i, Some h) \<Rightarrow>
          if ensure_number_type ''block_number'' n = Inr () \<and> ensure_index_type ''transaction_index'' i = Inr () \<and>
             ensure_utf8_type ''hash'' h = Inr () \<and> null_count n = 0 \<and> null_count i = 0 \<and> null_count h = 0
          then Some (zip (block_numbers n) (zip (item_indexes i) (strings h))) else None
      | _ \<Rightarrow> None)"

lemma foldM_append: "foldM f (xs @ ys) s = rbind (foldM f xs s) (foldM f ys)"
proof (induction xs arbitrary: s)
  case (Cons x xs)
  then show ?case by (cases "f x s") auto
qed simp

lemma for_each_batch_spec:
  assumes body: "\<And>off len s s'. off + len \<le> n \<Longrightarrow>
      body off len s = Inr s' \<longleftrightarrow> list_all P (slice off len vs) \<and> foldM f (slice off len rows) s = Inr s'"
    and n: "length rows = n" "length vs = n"
  shows "for_each_batch body n off s = Inr s' \<longleftrightarrow>
    list_all P (drop off vs) \<and> foldM f (drop off rows) s = Inr s'"
proof (induction "n - off" arbitrary: off s rule: less_induct)
  case less
  show ?case
  proof (cases "off < n")
    case True
    define len where "len = min HASH_BATCH_SIZE (n - off)"
    have le: "off + len \<le> n" and dec: "n - (off + len) < n - off"
      using True by (auto simp: len_def HASH_BATCH_SIZE_def)
    have d: "drop off rows = slice off len rows @ drop (off + len) rows"
      "drop off vs = slice off len vs @ drop (off + len) vs"
      by (simp_all add: slice_def) (metis append_take_drop_id drop_drop add.commute)+
    show ?thesis
      using True body [OF le] less [OF dec]
      by (subst for_each_batch.simps) (auto simp: Let_def len_def [symmetric] d foldM_append)
  next
    case False
    then show ?thesis using n by (subst for_each_batch.simps) auto
  qed
qed

lemma slice_zip: "slice off len (zip xs ys) = zip (slice off len xs) (slice off len ys)"
  by (simp add: slice_def take_zip drop_zip)

lemma slice_map: "slice off len (map f xs) = map f (slice off len xs)"
  by (simp add: slice_def take_map drop_map)

lemma slice_Nil: "slice off len [] = []"
  by (simp add: slice_def)

lemma length_slice [simp]: "off + len \<le> length xs \<Longrightarrow> length (slice off len xs) = len"
  by (simp add: slice_def)

lemma columns_slice [simp]:
  "block_numbers (array_slice off len a) = slice off len (block_numbers a)"
  "item_indexes (array_slice off len a) = slice off len (item_indexes a)"
  "strings (array_slice off len a) = slice off len (strings a)"
  by (cases a; simp only: array_slice.simps block_numbers.simps item_indexes.simps strings.simps
      slice_map slice_Nil)+

lemma block_numbers_length: "ensure_number_type m a = Inr () \<Longrightarrow> length (block_numbers a) = array_len a"
  by (cases a) (auto simp: ensure_number_type_def)

lemma item_indexes_length: "ensure_index_type m a = Inr () \<Longrightarrow> length (item_indexes a) = array_len a"
  by (cases a) (auto simp: ensure_index_type_def)

lemma strings_length: "ensure_utf8_type m a = Inr () \<Longrightarrow> length (strings a) = array_len a"
  by (cases a) (auto simp: ensure_utf8_type_def)

text \<open>The validity bits of a column.\<close>

fun valid_bits :: "array \<Rightarrow> bool list" where
  "valid_bits (UInt16 xs) = map snd xs"
| "valid_bits (UInt32 xs) = map snd xs"
| "valid_bits (UInt64 xs) = map snd xs"
| "valid_bits (Utf8 xs) = map snd xs"
| "valid_bits (OtherArray n) = replicate n True"

lemma null_count_0: "null_count a = 0 \<longleftrightarrow> list_all (\<lambda>b. b) (valid_bits a)"
  by (cases a) (auto simp: filter_empty_conv list_all_iff)

lemma valid_bits_slice:
  "off + len \<le> array_len a \<Longrightarrow> valid_bits (array_slice off len a) = slice off len (valid_bits a)"
  by (cases a) (auto simp: slice_def take_map drop_map min_def)

lemma length_valid_bits [simp]: "length (valid_bits a) = array_len a"
  by (cases a) auto

lemma list_all_zip: "length xs = length ys \<Longrightarrow> list_all (\<lambda>(x, y). P x \<and> Q y) (zip xs ys) \<longleftrightarrow> list_all P xs \<and> list_all Q ys"
  by (induction xs ys rule: list_induct2) auto


lemma table_ok_column: "table_ok t \<Longrightarrow> map_of (columns t) m = Some a \<Longrightarrow> array_len a = num_rows t"
  by (force simp: table_ok_def list_all_iff dest: map_of_SomeD)

lemma read_slice_ok: "off + len \<le> array_len a \<Longrightarrow> read_slice a off len = Inr (array_slice off len a)"
  by (simp add: read_slice_def)

lemmas batch_simps = read_slice_ok valid_bits_slice slice_zip list_all_zip null_count_0 conj_assoc

lemma for_each_block_hash_iff:
  assumes ok: "table_ok t"
  shows "for_each_block_hash t visit s = Inr s' \<longleftrightarrow>
    (\<exists>rows. block_rows t = Some rows \<and> foldM visit rows s = Inr s')"
proof (cases "map_of (columns t) ''number''"; cases "map_of (columns t) ''hash''")
  fix n h assume nh: "map_of (columns t) ''number'' = Some n" "map_of (columns t) ''hash'' = Some h"
  note len = table_ok_column [OF ok nh(1)] table_ok_column [OF ok nh(2)]
  show ?thesis
  proof (cases "ensure_number_type ''number'' n = Inr () \<and> ensure_utf8_type ''hash'' h = Inr ()")
    case True
    let ?rows = "zip (block_numbers n) (strings h)" and ?vs = "zip (valid_bits n) (valid_bits h)"
    have "for_each_block_hash t visit s = Inr s' \<longleftrightarrow>
        list_all (\<lambda>(x, y). x \<and> y) (drop 0 ?vs) \<and> foldM visit (drop 0 ?rows) s = Inr s'"
      unfolding for_each_block_hash_def column_def nh ok_or_simps rbind_simps
        True [THEN conjunct1] True [THEN conjunct2]
      using True len
      by (intro for_each_batch_spec) (auto simp: batch_simps block_numbers_length strings_length)
    then show ?thesis using True len by (auto simp: block_rows_def nh batch_simps)
  qed (auto simp: for_each_block_hash_def column_def nh block_rows_def)
qed (auto simp: for_each_block_hash_def column_def block_rows_def)


lemma for_each_transaction_hash_iff:
  assumes ok: "table_ok t"
  shows "for_each_transaction_hash t visit s = Inr s' \<longleftrightarrow>
    (\<exists>rows. transaction_rows t = Some rows \<and>
       foldM (\<lambda>(n, i, h) s. rbind i (\<lambda>i. visit (n, i, h) s)) rows s = Inr s')"
proof (cases "map_of (columns t) ''block_number''"; cases "map_of (columns t) ''transaction_index''";
    cases "map_of (columns t) ''hash''")
  fix n i h
  assume nih: "map_of (columns t) ''block_number'' = Some n" "map_of (columns t) ''transaction_index'' = Some i"
    "map_of (columns t) ''hash'' = Some h"
  note len = nih [THEN table_ok_column [OF ok]]
  show ?thesis
  proof (cases "ensure_number_type ''block_number'' n = Inr () \<and>
      ensure_index_type ''transaction_index'' i = Inr () \<and> ensure_utf8_type ''hash'' h = Inr ()")
    case True
    let ?rows = "zip (block_numbers n) (zip (item_indexes i) (strings h))"
      and ?vs = "zip (valid_bits n) (zip (valid_bits i) (valid_bits h))"
    have "for_each_transaction_hash t visit s = Inr s' \<longleftrightarrow>
        list_all (\<lambda>(x, y). x \<and> (case y of (y, z) \<Rightarrow> y \<and> z)) (drop 0 ?vs) \<and>
        foldM (\<lambda>(n, i, h) s. rbind i (\<lambda>i. visit (n, i, h) s)) (drop 0 ?rows) s = Inr s'"
      unfolding for_each_transaction_hash_def column_def nih ok_or_simps rbind_simps
        True [THEN conjunct1] True [THEN conjunct2, THEN conjunct1] True [THEN conjunct2, THEN conjunct2]
      using True len
      by (intro for_each_batch_spec)
        (auto simp: batch_simps block_numbers_length item_indexes_length strings_length)
    then show ?thesis using True len by (auto simp: transaction_rows_def nih batch_simps)
  qed (auto simp: for_each_transaction_hash_def column_def nih transaction_rows_def)
qed (auto simp: for_each_transaction_hash_def column_def transaction_rows_def)

text \<open>What the visitor keeps, the whole read keeps.\<close>

lemma foldM_inv:
  assumes "foldM f xs s = Inr s'" and "I s" and "\<And>x s s'. I s \<Longrightarrow> f x s = Inr s' \<Longrightarrow> I s'"
  shows "I s'"
  using assms(1,2) by (induction xs arbitrary: s) (auto intro: assms(3))

lemma for_each_batch_inv:
  assumes step: "\<And>off len s s'. I s \<Longrightarrow> body off len s = Inr s' \<Longrightarrow> I s'"
  shows "for_each_batch body n off s = Inr s' \<Longrightarrow> I s \<Longrightarrow> I s'"
proof (induction "n - off" arbitrary: off s rule: less_induct)
  case less
  show ?case
  proof (cases "off < n")
    case True
    define len where "len = min HASH_BATCH_SIZE (n - off)"
    have dec: "n - (off + len) < n - off" using True by (auto simp: len_def HASH_BATCH_SIZE_def)
    obtain s1 where "body off len s = Inr s1" "for_each_batch body n (off + len) s1 = Inr s'"
      using less(2) True by (subst (asm) for_each_batch.simps) (auto simp: Let_def len_def [symmetric])
    then show ?thesis using less(1) [OF dec] step less(3) by blast
  qed (use less(2,3) in \<open>subst (asm) for_each_batch.simps, simp\<close>)
qed

lemma for_each_block_hash_inv:
  assumes "for_each_block_hash t visit s = Inr s'" and "I s"
    and step: "\<And>x s s'. I s \<Longrightarrow> visit x s = Inr s' \<Longrightarrow> I s'"
  shows "I s'"
  using assms(1,2) unfolding for_each_block_hash_def rbind_eq_Inr
  by (elim exE conjE, elim for_each_batch_inv [where I = I, rotated]) (auto elim: foldM_inv intro: step)

lemma for_each_transaction_hash_inv:
  assumes "for_each_transaction_hash t visit s = Inr s'" and "I s"
    and step: "\<And>x s s'. I s \<Longrightarrow> visit x s = Inr s' \<Longrightarrow> I s'"
  shows "I s'"
  using assms(1,2) unfolding for_each_transaction_hash_def rbind_eq_Inr
  by (elim exE conjE, elim for_each_batch_inv [where I = I, rotated]) (auto elim!: foldM_inv intro: step)

text \<open>A visitor that cannot fail visits the rows one after the other.\<close>

lemma foldM_total: "foldM (\<lambda>x s. Inr (g x s)) xs s = Inr (fold g xs s)"
  by (induction xs arbitrary: s) auto

lemma for_each_block_hash_total:
  "table_ok t \<Longrightarrow> block_rows t = Some rows \<Longrightarrow>
    for_each_block_hash t (\<lambda>x s. Inr (g x s)) s = Inr (fold g rows s)"
  by (simp add: for_each_block_hash_iff foldM_total)

lemma position_map_of: "length ks = length vs \<Longrightarrow>
    map_of (zip ks vs) k = map_option (\<lambda>i. vs ! i) (position (\<lambda>n. n = k) ks)"
  by (induction ks vs rule: list_induct2) (auto simp: option.map_comp comp_def)

lemma position_map: "position P (map f xs) = position (\<lambda>x. P (f x)) xs"
  by (induction xs) auto

lemma position_less: "position P xs = Some i \<Longrightarrow> i < length xs"
  by (induction xs arbitrary: i) (auto split: if_splits)

lemma position_None: "position P xs = None \<longleftrightarrow> (\<forall>x\<in>set xs. \<not> P x)"
  by (induction xs) auto

lemma position_cong: "(\<And>x. x \<in> set xs \<Longrightarrow> P x = Q x) \<Longrightarrow> position P xs = position Q xs"
  by (induction xs) auto

lemma unat_u32_bound: "unat (x :: u32) < 2 ^ 32"
  by (rule order_less_le_trans [OF unsigned_less]) simp

lemma ucast_u32_eq: "(ucast x = n) = (u32_try_from n = Some x)" for x :: u32
proof -
  have "unat (ucast x :: u64) = unat x"
    using unat_u32_bound [of x] by (simp add: unsigned_ucast_eq take_bit_nat_eq_self_iff)
  moreover have "unat n < 2 ^ 32 \<Longrightarrow> unat (ucast n :: u32) = unat n"
    by (simp add: unsigned_ucast_eq take_bit_nat_eq_self_iff)
  ultimately show ?thesis
    using unat_u32_bound [of x] by (auto simp: u32_try_from_def word_unat_eq_iff)
qed


lemma read_string_cell_ok:
  assumes "table_ok t" and "map_of (columns t) m = Some a" and "ensure_utf8_type m' a = Inr ()"
    and "i < num_rows t"
  shows "read_string_cell t m i = Inr (strings a ! i)"
proof -
  obtain xs where a: "a = Utf8 xs" using assms(3) by (cases a) (auto simp: ensure_utf8_type_def)
  then have i: "i < length xs" using table_ok_column [OF assms(1,2)] assms(4) by simp
  then have "slice i 1 xs = [xs ! i]" by (simp add: slice_def take_Suc hd_drop_conv_nth)
  then show ?thesis using a i assms(2) by (simp add: read_string_cell_def column_def read_slice_def)
qed

lemma min_by_key_spec:
  "min_by_key f xs = None \<longleftrightarrow> xs = []"
  "min_by_key f xs = Some x \<Longrightarrow> x \<in> set xs \<and> (\<forall>y\<in>set xs. f x \<le> f y)"
  by (induction xs arbitrary: x) (force split: option.splits if_splits)+

lemma find_block_row_cases:
  "(case find_block_row numbers block of
      Some i \<Rightarrow> i < length numbers \<and> block \<le> numbers ! i \<and>
        (\<forall>n\<in>set numbers. block \<le> n \<longrightarrow> numbers ! i \<le> n)
    | None \<Rightarrow> \<forall>n\<in>set numbers. n < block)"
proof -
  let ?es = "filter (\<lambda>e. block \<le> snd e) (List.enumerate 0 numbers)"
  have mem: "(i, n) \<in> set ?es \<longleftrightarrow> i < length numbers \<and> n = numbers ! i \<and> block \<le> n" for i n
    by (auto simp: in_set_enumerate_eq)
  have cover: "\<exists>i. (i, n) \<in> set ?es" if "n \<in> set numbers" "block \<le> n" for n
    using that mem by (metis in_set_conv_nth)
  show ?thesis
  proof (cases "min_by_key snd ?es")
    case None
    then have "?es = []" by (simp only: min_by_key_spec(1))
    then have "\<not> block \<le> n" if "n \<in> set numbers" for n
      using cover [OF that] by (metis list.set(1) empty_iff)
    then show ?thesis using None by (auto simp: find_block_row_def not_le)
  next
    case (Some e)
    obtain i n where e: "e = (i, n)" by (cases e)
    note m = min_by_key_spec(2) [OF Some]
    have "numbers ! i \<le> n'" if "n' \<in> set numbers" "block \<le> n'" for n'
      using cover [OF that] m mem [of i n] e by force
    then show ?thesis using m mem [of i n] e Some by (auto simp: find_block_row_def)
  qed
qed

lemma find_block_hash_rows:
  assumes "table_ok t" and "block_rows t = Some rows"
  shows "find_block_hash t n = Inr (map_of rows n)"
proof -
  obtain a h where ah: "map_of (columns t) ''number'' = Some a" "map_of (columns t) ''hash'' = Some h"
    "ensure_number_type ''number'' a = Inr ()" "ensure_utf8_type ''hash'' h = Inr ()"
    and rows: "rows = zip (block_numbers a) (strings h)"
    using assms(2) by (auto simp: block_rows_def split: option.splits if_splits)
  note len = ah(1,2) [THEN table_ok_column [OF assms(1)]]
  have row: "(case a of
         UInt32 xs \<Rightarrow> Inr (Option.bind (u32_try_from n) (find_exact_block_row (map fst xs)))
       | UInt64 xs \<Rightarrow> Inr (find_exact_block_row (map fst xs) n)
       | _ \<Rightarrow> Inl (UnexpectedType ''number'')) = Inr (position (\<lambda>m. m = n) (block_numbers a))"
  proof (cases a)
    case (UInt32 xs)
    have "position (\<lambda>m. m = n) (block_numbers a) = position (\<lambda>c. u32_try_from n = Some (fst c)) xs"
      by (simp add: UInt32 position_map ucast_u32_eq)
    also have "\<dots> = Option.bind (u32_try_from n) (find_exact_block_row (map fst xs))"
      by (cases "u32_try_from n") (auto simp: find_exact_block_row_def position_map position_None
          intro: position_cong)
    finally show ?thesis by (simp add: UInt32)
  qed (use ah in \<open>auto simp: ensure_number_type_def find_exact_block_row_def\<close>)
  have "length (block_numbers a) = length (strings h)"
    using ah len by (simp add: block_numbers_length strings_length)
  note m = position_map_of [OF this, of n, folded rows]
  show ?thesis
  proof (cases "position (\<lambda>m. m = n) (block_numbers a)")
    case (Some i)
    then have "i < num_rows t"
      using position_less [OF Some] ah len by (simp add: block_numbers_length)
    with Some m row ah show ?thesis
      by (simp add: find_block_hash_def column_def read_string_cell_ok [OF assms(1) ah(2,4)])
  qed (use m row ah in \<open>simp add: find_block_hash_def column_def\<close>)
qed

section \<open>Properties\<close>

text \<open>
  C28: reading a blocks table in batches visits exactly its rows, in order: the read succeeds
  exactly when the columns have the right types, no cell is null and the visitor accepts every row
  in turn, and its result is the result of the visitor on the whole list of rows.
\<close>

theorem for_each_block_hash_spec:
  assumes "table_ok t"
  shows "for_each_block_hash t visit s = Inr s' \<longleftrightarrow>
    (\<exists>rows. block_rows t = Some rows \<and> foldM visit rows s = Inr s')"
  using assms by (rule for_each_block_hash_iff)

theorem for_each_block_hash_spec_witness:
  "for_each_block_hash
     \<lparr>num_rows = 2, columns = [(''number'', UInt32 [(7, True), (8, True)]), (''hash'', Utf8 [([97], True), ([98], True)])]\<rparr>
     (\<lambda>x s. Inr (s @ [x])) [] = Inr [(7, [97]), (8, [98])]"
  by (subst for_each_block_hash_spec)
    (simp_all add: table_ok_def block_rows_def ensure_number_type_def ensure_utf8_type_def)

text \<open>
  Looking up a block finds the hash of the first row with exactly that number, and nothing
  when the table has no such row, for tables of 32-bit and of 64-bit block numbers.
\<close>

theorem find_block_hash_spec:
  assumes "table_ok t" and "block_rows t = Some rows"
  shows "find_block_hash t n = Inr (map_of rows n)"
  using assms by (rule find_block_hash_rows)

theorem find_block_hash_spec_witness:
  "find_block_hash
     \<lparr>num_rows = 2, columns = [(''number'', UInt32 [(7, True), (8, True)]), (''hash'', Utf8 [([97], True), ([98], True)])]\<rparr>
     8 = Inr (Some [98])"
  by (subst find_block_hash_spec [where rows = "[(7, [97]), (8, [98])]"])
    (simp_all add: table_ok_def block_rows_def ensure_number_type_def ensure_utf8_type_def)

end
