(* ===== verification/Store.thy ===== *)
theory Store
  imports Keys Tables
begin

text \<open>
  The data model of the store (\<open>storage/src/db/data.rs\<close>), the key-value interface it is built on
  (\<open>storage/src/kv.rs\<close>) and chunk iteration (\<open>storage/src/db/read/chunk.rs\<close>). The
  key-value engine and the value codecs are the record \<open>kv\<close>, an argument of every operation;
  the locale \<open>kv_store\<close> states the documented behaviour that the code relies on. The
  abstract view of a dataset is the ascending list of its chunks (\<open>rep\<close>).
\<close>

section \<open>Data\<close>

record block_ref =
  br_number :: u64
  br_hash :: bytes

type_synonym tables = "(string \<times> table_id) list"

datatype chunk =
  V0 (first_block: u64) (last_block: u64) (last_block_hash: bytes) (parent_block_hash: bytes)
    (tables: tables)
| V1 (first_block: u64) (last_block: u64) (last_block_hash: bytes) (parent_block_hash: bytes)
    (v1_first_block_time: "int option") (v1_last_block_time: "int option") (tables: tables)

fun first_block_time :: "chunk \<Rightarrow> int option" where
  "first_block_time (V0 _ _ _ _ _) = None"
| "first_block_time (V1 _ _ _ _ t _ _) = t"

fun last_block_time :: "chunk \<Rightarrow> int option" where
  "last_block_time (V0 _ _ _ _ _) = None"
| "last_block_time (V1 _ _ _ _ _ t _) = t"

definition blocks_count :: "chunk \<Rightarrow> u64" where
  "blocks_count c = last_block c - first_block c + 1"

definition next_block :: "chunk \<Rightarrow> u64" where
  "next_block c = last_block c + 1"

definition get_table :: "chunk \<Rightarrow> string \<Rightarrow> table_id option" where
  "get_table c name = map_of (tables c) name"

datatype dataset_label = LabelV0 (kind: sid) (version: u64) (finalized_head: "block_ref option")

definition bump_version :: "dataset_label \<Rightarrow> dataset_label" where
  "bump_version l = LabelV0 (kind l) (version l + 1) (finalized_head l)"

definition label_set_finalized_head :: "block_ref option \<Rightarrow> dataset_label \<Rightarrow> dataset_label" where
  "label_set_finalized_head h l = LabelV0 (kind l) (version l) h"

definition chunk_id_for :: "sid \<Rightarrow> chunk \<Rightarrow> bytes" where
  "chunk_id_for ds c = chunk_id_new ds (last_block c)"

section \<open>The key-value engine\<close>

datatype cf =
  CF_DATASETS | CF_CHUNKS | CF_TABLES | CF_DIRTY_TABLES | CF_DELETED_TABLES
| CF_BLOCK_HASHES | CF_TRANSACTION_HASHES

text \<open>
  \<open>kv_seek t cf k\<close> is what a cursor positioned by \<open>seek(k)\<close> yields with \<open>next\<close>,
  \<open>kv_seek_prev t cf k\<close> what one positioned by \<open>seek_prev(k)\<close> yields with \<open>prev\<close>.
\<close>

record ('t, 'v) kv =
  kv_get :: "'t \<Rightarrow> cf \<Rightarrow> bytes \<Rightarrow> 'v option"
  kv_put :: "'t \<Rightarrow> cf \<Rightarrow> bytes \<Rightarrow> 'v \<Rightarrow> 't"
  kv_delete :: "'t \<Rightarrow> cf \<Rightarrow> bytes \<Rightarrow> 't"
  kv_seek :: "'t \<Rightarrow> cf \<Rightarrow> bytes \<Rightarrow> (bytes \<times> 'v) list"
  kv_seek_prev :: "'t \<Rightarrow> cf \<Rightarrow> bytes \<Rightarrow> (bytes \<times> 'v) list"
  enc_chunk :: "chunk \<Rightarrow> 'v"
  dec_chunk :: "'v \<Rightarrow> chunk option"
  enc_label :: "dataset_label \<Rightarrow> 'v"
  dec_label :: "'v \<Rightarrow> dataset_label option"
  enc_raw :: "bytes \<Rightarrow> 'v"
  dec_raw :: "'v \<Rightarrow> bytes"

locale kv_store =
  fixes R :: "('t, 'v) kv"
  assumes get_put: "kv_get R (kv_put R t c k v) c' k' = (if c' = c \<and> k' = k then Some v else kv_get R t c' k')"
    and get_delete: "kv_get R (kv_delete R t c k) c' k' = (if c' = c \<and> k' = k then None else kv_get R t c' k')"
    and seek_sorted: "sorted_wrt (<) (map fst (kv_seek R t c k))"
    and seek_set: "(k', v) \<in> set (kv_seek R t c k) \<longleftrightarrow> k \<le> k' \<and> kv_get R t c k' = Some v"
    and seek_prev_sorted: "sorted_wrt (>) (map fst (kv_seek_prev R t c k))"
    and seek_prev_set: "(k', v) \<in> set (kv_seek_prev R t c k) \<longleftrightarrow> k' \<le> k \<and> kv_get R t c k' = Some v"
    and dec_enc_chunk: "dec_chunk R (enc_chunk R x) = Some x"
    and dec_enc_label: "dec_label R (enc_label R l) = Some l"
    and dec_enc_raw: "dec_raw R (enc_raw R b) = b"

section \<open>Chunk iteration\<close>

definition validate_chunk :: "bytes \<Rightarrow> chunk \<Rightarrow> db_err + unit" where
  "validate_chunk chunk_id c =
     rbind (ensure (chunk_id_last_block chunk_id = last_block c) UnexpectedLastBlock) (\<lambda>_.
     ensure (first_block c \<le> last_block c) InvalidChunkRange)"

definition next_chunk ::
  "('t, 'v) kv \<Rightarrow> sid \<Rightarrow> u64 \<Rightarrow> u64 option \<Rightarrow> bytes \<times> 'v \<Rightarrow> db_err + chunk option" where
  "next_chunk R ds from_block to_block e =
     rbind (ensure (length (fst e) = 56) BadKey) (\<lambda>_.
     rbind (case chunk_id_dataset_id (fst e) of Inl _ \<Rightarrow> Inl SidPanic | Inr d \<Rightarrow> Inr d) (\<lambda>d.
     if d \<noteq> ds then Inr None
     else
       rbind (ok_or (dec_chunk R (snd e)) BadValue) (\<lambda>c.
       rbind (validate_chunk (fst e) c) (\<lambda>_.
       if from_block \<le> last_block c \<and> (case to_block of None \<Rightarrow> True | Some e \<Rightarrow> first_block c \<le> e)
       then Inr (Some c) else Inr None))))"

fun chunk_iter ::
  "('t, 'v) kv \<Rightarrow> sid \<Rightarrow> u64 \<Rightarrow> u64 option \<Rightarrow> (bytes \<times> 'v) list \<Rightarrow> (db_err + chunk) list" where
  "chunk_iter R ds from_block to_block [] = []"
| "chunk_iter R ds from_block to_block (e # es) =
     (case next_chunk R ds from_block to_block e of
        Inl err \<Rightarrow> [Inl err]
      | Inr None \<Rightarrow> []
      | Inr (Some c) \<Rightarrow> Inr c # chunk_iter R ds from_block to_block es)"

definition list_chunks ::
  "('t, 'v) kv \<Rightarrow> 't \<Rightarrow> sid \<Rightarrow> u64 \<Rightarrow> u64 option \<Rightarrow> (db_err + chunk) list" where
  "list_chunks R t ds from_block to_block =
     chunk_iter R ds from_block to_block (kv_seek R t CF_CHUNKS (chunk_id_new ds from_block))"

text \<open>\<open>list_chunks(..).into_reversed()\<close>.\<close>

definition list_chunks_rev ::
  "('t, 'v) kv \<Rightarrow> 't \<Rightarrow> sid \<Rightarrow> u64 \<Rightarrow> u64 option \<Rightarrow> (db_err + chunk) list" where
  "list_chunks_rev R t ds from_block to_block =
     chunk_iter R ds from_block to_block
       (kv_seek_prev R t CF_CHUNKS
          (chunk_id_new ds (case to_block of Some b \<Rightarrow> b | None \<Rightarrow> - 1)))"

section \<open>The abstract view\<close>

definition chunks_sorted :: "chunk list \<Rightarrow> bool" where
  "chunks_sorted cs \<longleftrightarrow>
     list_all (\<lambda>c. first_block c \<le> last_block c) cs \<and>
     sorted_wrt (\<lambda>a b. last_block a < first_block b) cs"

definition keys_ok :: "('t, 'v) kv \<Rightarrow> 't \<Rightarrow> bool" where
  "keys_ok R t \<longleftrightarrow>
     (\<forall>k v. kv_get R t CF_CHUNKS k = Some v \<longrightarrow> (\<exists>d b. sid_ok 48 d \<and> k = chunk_id_new d b))"

definition rep :: "('t, 'v) kv \<Rightarrow> 't \<Rightarrow> sid \<Rightarrow> chunk list \<Rightarrow> bool" where
  "rep R t ds cs \<longleftrightarrow>
     sid_ok 48 ds \<and> chunks_sorted cs \<and> keys_ok R t \<and>
     (\<forall>b. map_option (dec_chunk R) (kv_get R t CF_CHUNKS (chunk_id_new ds b)) =
          map_option Some (map_of (map (\<lambda>c. (last_block c, c)) cs) b))"

text \<open>The chunks form one chain: each starts where the one before ends and names its last hash.\<close>

definition linked :: "chunk \<Rightarrow> chunk \<Rightarrow> bool" where
  "linked a b \<longleftrightarrow> last_block a + 1 = first_block b \<and> last_block_hash a = parent_block_hash b"

fun chain :: "chunk list \<Rightarrow> bool" where
  "chain (a # b # cs) \<longleftrightarrow> linked a b \<and> chain (b # cs)"
| "chain _ \<longleftrightarrow> True"

section \<open>Lemmas\<close>

lemma chunks_sorted_simps [simp]:
  "chunks_sorted []"
  "chunks_sorted (c # cs) \<longleftrightarrow> first_block c \<le> last_block c \<and> (\<forall>d\<in>set cs. last_block c < first_block d) \<and> chunks_sorted cs"
  by (auto simp: chunks_sorted_def)

lemma chunks_sorted_append:
  "chunks_sorted (xs @ ys) \<longleftrightarrow>
     chunks_sorted xs \<and> chunks_sorted ys \<and> (\<forall>a\<in>set xs. \<forall>b\<in>set ys. last_block a < first_block b)"
  by (auto simp: chunks_sorted_def sorted_wrt_append)

lemma chunks_sortedD: "chunks_sorted cs \<Longrightarrow> c \<in> set cs \<Longrightarrow> first_block c \<le> last_block c"
  by (auto simp: chunks_sorted_def list_all_iff)

lemma chunks_sorted_last: "chunks_sorted cs \<Longrightarrow> sorted_wrt (<) (map last_block cs)"
proof (induction cs)
  case (Cons c cs)
  then show ?case by (auto dest: chunks_sortedD) (metis chunks_sortedD order_less_le_trans)
qed simp

lemma chunks_sorted_map_of:
  "chunks_sorted cs \<Longrightarrow> map_of (map (\<lambda>c. (last_block c, c)) cs) b = Some c \<longleftrightarrow> c \<in> set cs \<and> last_block c = b"
  using chunks_sorted_last [of cs]
  by (subst map_of_eq_Some_iff) (auto simp: comp_def strict_sorted_iff)

lemma repD:
  assumes "rep R t ds cs"
  shows "sid_ok 48 ds" "chunks_sorted cs" "keys_ok R t" "length ds = 48"
  using assms by (auto simp: rep_def sid_okD)

lemma rep_lookup:
  assumes "rep R t ds cs"
  shows "map_option (dec_chunk R) (kv_get R t CF_CHUNKS (chunk_id_new ds b)) =
    map_option Some (map_of (map (\<lambda>c. (last_block c, c)) cs) b)"
  using assms by (simp add: rep_def)

lemma rep_get:
  assumes "rep R t ds cs" and "kv_get R t CF_CHUNKS (chunk_id_new ds b) = Some v"
  obtains c where "c \<in> set cs" "last_block c = b" "dec_chunk R v = Some c"
  using rep_lookup [OF assms(1), of b] assms(2) chunks_sorted_map_of [OF repD(2) [OF assms(1)]]
  by (cases "map_of (map (\<lambda>c. (last_block c, c)) cs) b") auto

lemma rep_stored:
  assumes "rep R t ds cs" and "c \<in> set cs"
  obtains v where "kv_get R t CF_CHUNKS (chunk_id_for ds c) = Some v" "dec_chunk R v = Some c"
proof -
  have "map_of (map (\<lambda>c. (last_block c, c)) cs) (last_block c) = Some c"
    using assms chunks_sorted_map_of [OF repD(2) [OF assms(1)]] by blast
  then show ?thesis
    using rep_lookup [OF assms(1), of "last_block c"] that by (auto simp: chunk_id_for_def)
qed

lemma rep_keys:
  assumes "rep R t ds cs"
  shows "kv_get R t CF_CHUNKS (chunk_id_new ds b) \<noteq> None \<longleftrightarrow> b \<in> last_block ` set cs"
proof -
  have "kv_get R t CF_CHUNKS (chunk_id_new ds b) \<noteq> None \<longleftrightarrow>
      map_of (map (\<lambda>c. (last_block c, c)) cs) b \<noteq> None"
    using rep_lookup [OF assms, of b]
    by (cases "kv_get R t CF_CHUNKS (chunk_id_new ds b)"; cases "map_of (map (\<lambda>c. (last_block c, c)) cs) b") auto
  then show ?thesis by (simp add: map_of_eq_None_iff image_image)
qed

text \<open>A list of entries with other keys after the chunks of the dataset ends the iteration.\<close>

definition entry_of :: "('t, 'v) kv \<Rightarrow> 't \<Rightarrow> sid \<Rightarrow> chunk \<Rightarrow> bytes \<times> 'v" where
  "entry_of R t ds c = (chunk_id_for ds c, the (kv_get R t CF_CHUNKS (chunk_id_for ds c)))"

lemma next_chunk_entry:
  assumes "rep R t ds cs" and "c \<in> set cs"
  shows "next_chunk R ds from_block to_block (entry_of R t ds c) =
    Inr (if from_block \<le> last_block c \<and> (case to_block of None \<Rightarrow> True | Some e \<Rightarrow> first_block c \<le> e)
         then Some c else None)"
proof -
  obtain v where v: "kv_get R t CF_CHUNKS (chunk_id_for ds c) = Some v" "dec_chunk R v = Some c"
    using rep_stored [OF assms] .
  have "length (chunk_id_for ds c) = 56"
    using repD(4) [OF assms(1)] by (simp add: chunk_id_for_def chunk_id_new_def)
  then show ?thesis
    using v repD [OF assms(1)] chunks_sortedD [OF repD(2) [OF assms(1)] assms(2)]
    by (simp add: next_chunk_def entry_of_def validate_chunk_def chunk_id_for_def)
qed

lemma next_chunk_other:
  assumes "sid_ok 48 d" and "d \<noteq> ds"
  shows "next_chunk R ds from_block to_block (chunk_id_new d b, v) = Inr None"
proof -
  have "length (chunk_id_new d b) = 56" using assms by (simp add: chunk_id_new_def sid_okD)
  then show ?thesis using assms by (simp add: next_chunk_def)
qed

definition other_keys :: "sid \<Rightarrow> (bytes \<times> 'v) list \<Rightarrow> bool" where
  "other_keys ds es \<longleftrightarrow> (\<forall>e\<in>set es. \<exists>d b. sid_ok 48 d \<and> d \<noteq> ds \<and> fst e = chunk_id_new d b)"

lemma chunk_iter_entries:
  assumes "rep R t ds cs" and "set cs' \<subseteq> set cs" and "other_keys ds rest"
  shows "chunk_iter R ds from_block to_block (map (entry_of R t ds) cs' @ rest) =
    map Inr (takeWhile (\<lambda>c. from_block \<le> last_block c \<and>
      (case to_block of None \<Rightarrow> True | Some e \<Rightarrow> first_block c \<le> e)) cs')"
  using assms(2)
proof (induction cs')
  case Nil
  show ?case
  proof (cases rest)
    case (Cons e es)
    obtain k v where e: "e = (k, v)" by (cases e)
    then obtain d b where "sid_ok 48 d" "d \<noteq> ds" "k = chunk_id_new d b"
      using assms(3) Cons by (auto simp: other_keys_def)
    then show ?thesis using Cons e by (simp add: next_chunk_other)
  qed simp
next
  case (Cons c cs')
  then show ?case using next_chunk_entry [OF assms(1), of c] by simp
qed


lemma sorted_keys_unique:
  fixes f :: "'a \<Rightarrow> 'b::linorder"
  assumes "sorted_wrt (<) (map f xs)" and "sorted_wrt (<) (map f ys)" and "set xs = set ys"
  shows "xs = ys"
proof -
  have "map f xs = map f ys"
    using assms by (intro strict_sorted_equal) auto
  moreover have "inj_on f (set xs)"
    using assms(1) by (simp add: strict_sorted_iff distinct_map)
  ultimately show ?thesis using assms(3) by (simp add: inj_on_map_eq_map)
qed

lemma sorted_keys_unique_rev:
  fixes f :: "'a \<Rightarrow> 'b::linorder"
  assumes "sorted_wrt (>) (map f xs)" and "sorted_wrt (>) (map f ys)" and "set xs = set ys"
  shows "xs = ys"
proof -
  have "rev xs = rev ys"
    using assms by (intro sorted_keys_unique [of f]) (auto simp: rev_map [symmetric] sorted_wrt_rev)
  then show ?thesis by simp
qed

lemma chunk_keys_sorted:
  assumes "rep R t ds cs" and "cs' = filter P cs"
  shows "sorted_wrt (<) (map (fst \<circ> entry_of R t ds) cs')"
proof -
  have "sorted_wrt (\<lambda>a b. last_block a < last_block b) cs"
    using chunks_sorted_last [OF repD(2) [OF assms(1)]] by (simp add: sorted_wrt_map)
  then have "sorted_wrt (\<lambda>a b. last_block a < last_block b) cs'"
    using assms(2) by (simp add: sorted_wrt_filter)
  then show ?thesis
    using repD(4) [OF assms(1)]
    by (simp add: sorted_wrt_map entry_of_def chunk_id_for_def comp_def)
qed

text \<open>The stored entries of a dataset are the entries of its chunks.\<close>

lemma entry_mem:
  assumes "rep R t ds cs" and "kv_get R t CF_CHUNKS k = Some v"
  shows "(\<exists>c\<in>set cs. (k, v) = entry_of R t ds c) \<or> (\<exists>d b. sid_ok 48 d \<and> d \<noteq> ds \<and> k = chunk_id_new d b)"
proof -
  obtain d b where k: "sid_ok 48 d" "k = chunk_id_new d b"
    using repD(3) [OF assms(1)] assms(2) by (auto simp: keys_ok_def)
  show ?thesis
  proof (cases "d = ds")
    case True
    then obtain c where "c \<in> set cs" "last_block c = b"
      using rep_get [OF assms(1)] assms(2) k by metis
    then show ?thesis using assms(2) k True by (auto simp: entry_of_def chunk_id_for_def)
  qed (use k in auto)
qed

lemma entry_of_get:
  assumes "rep R t ds cs" and "c \<in> set cs"
  shows "kv_get R t CF_CHUNKS (fst (entry_of R t ds c)) = Some (snd (entry_of R t ds c))"
  using rep_stored [OF assms] by (metis entry_of_def fst_conv option.sel snd_conv)

context kv_store
begin

lemma seek_split:
  assumes rep: "rep R t ds cs"
  obtains rest where "other_keys ds rest"
    "kv_seek R t CF_CHUNKS (chunk_id_new ds b) = map (entry_of R t ds) (filter (\<lambda>c. b \<le> last_block c) cs) @ rest"
proof -
  let ?es = "kv_seek R t CF_CHUNKS (chunk_id_new ds b)"
    and ?mine = "map (entry_of R t ds) (filter (\<lambda>c. b \<le> last_block c) cs)"
  define rest where "rest = filter (\<lambda>e. e \<notin> set ?mine) ?es"
  note d48 = repD(4) [OF rep]
  have other: "\<exists>d b'. sid_ok 48 d \<and> ds < d \<and> fst e = chunk_id_new d b'" if "e \<in> set rest" for e
  proof -
    obtain k v where e: "e = (k, v)" by (cases e)
    with that have kv: "chunk_id_new ds b \<le> k" "kv_get R t CF_CHUNKS k = Some v" "e \<notin> set ?mine"
      by (auto simp: rest_def seek_set)
    have "\<not> (\<exists>c\<in>set cs. (k, v) = entry_of R t ds c)"
      using kv e d48 by (auto simp: entry_of_def chunk_id_for_def)
    then obtain d b' where "sid_ok 48 d" "d \<noteq> ds" "k = chunk_id_new d b'"
      using entry_mem [OF rep kv(2)] by auto
    then show ?thesis using kv(1) e d48 by (auto simp: sid_okD)
  qed
  have "?es = ?mine @ rest"
  proof (rule sorted_keys_unique [of fst])
    have "fst a < fst e" if "a \<in> set ?mine" "e \<in> set rest" for a e
      using other [OF that(2)] that(1) d48 by (auto simp: entry_of_def chunk_id_for_def sid_okD)
    moreover have "sorted_wrt (<) (map fst rest)"
      using seek_sorted unfolding rest_def sorted_wrt_map by (rule sorted_wrt_filter)
    ultimately show "sorted_wrt (<) (map fst (?mine @ rest))"
      using chunk_keys_sorted [OF rep refl, of "\<lambda>c. b \<le> last_block c"]
      by (auto simp: sorted_wrt_append)
    have "set ?mine \<subseteq> set ?es"
      using d48 entry_of_get [OF rep]
      by (auto simp: seek_set entry_of_def chunk_id_for_def)
    then show "set ?es = set (?mine @ rest)" by (auto simp: rest_def)
  qed (rule seek_sorted)
  moreover have "other_keys ds rest" using other by (fastforce simp: other_keys_def)
  ultimately show thesis by (rule that [rotated])
qed

lemma seek_prev_split:
  assumes rep: "rep R t ds cs"
  obtains rest where "other_keys ds rest"
    "kv_seek_prev R t CF_CHUNKS (chunk_id_new ds b) =
       map (entry_of R t ds) (rev (filter (\<lambda>c. last_block c \<le> b) cs)) @ rest"
proof -
  let ?es = "kv_seek_prev R t CF_CHUNKS (chunk_id_new ds b)"
    and ?mine = "map (entry_of R t ds) (rev (filter (\<lambda>c. last_block c \<le> b) cs))"
  define rest where "rest = filter (\<lambda>e. e \<notin> set ?mine) ?es"
  note d48 = repD(4) [OF rep]
  have other: "\<exists>d b'. sid_ok 48 d \<and> d < ds \<and> fst e = chunk_id_new d b'" if "e \<in> set rest" for e
  proof -
    obtain k v where e: "e = (k, v)" by (cases e)
    with that have kv: "k \<le> chunk_id_new ds b" "kv_get R t CF_CHUNKS k = Some v" "e \<notin> set ?mine"
      by (auto simp: rest_def seek_prev_set)
    have "\<not> (\<exists>c\<in>set cs. (k, v) = entry_of R t ds c)"
      using kv e d48 by (auto simp: entry_of_def chunk_id_for_def)
    then obtain d b' where "sid_ok 48 d" "d \<noteq> ds" "k = chunk_id_new d b'"
      using entry_mem [OF rep kv(2)] by auto
    then show ?thesis using kv(1) e d48 by (auto simp: sid_okD)
  qed
  have "?es = ?mine @ rest"
  proof (rule sorted_keys_unique_rev [of fst])
    have "fst e < fst a" if "a \<in> set ?mine" "e \<in> set rest" for a e
      using other [OF that(2)] that(1) d48 by (auto simp: entry_of_def chunk_id_for_def sid_okD)
    moreover have "sorted_wrt (>) (map fst rest)"
      using seek_prev_sorted unfolding rest_def sorted_wrt_map by (rule sorted_wrt_filter)
    moreover have "sorted_wrt (>) (map fst ?mine)"
      using chunk_keys_sorted [OF rep refl, of "\<lambda>c. last_block c \<le> b"]
      by (simp add: rev_map [symmetric] sorted_wrt_rev)
    ultimately show "sorted_wrt (>) (map fst (?mine @ rest))"
      by (simp add: sorted_wrt_append)
    have "set ?mine \<subseteq> set ?es"
      using d48 entry_of_get [OF rep]
      by (auto simp: seek_prev_set entry_of_def chunk_id_for_def)
    then show "set ?es = set (?mine @ rest)" by (auto simp: rest_def)
  qed (rule seek_prev_sorted)
  moreover have "other_keys ds rest" using other by (fastforce simp: other_keys_def)
  ultimately show thesis by (rule that [rotated])
qed

text \<open>Forward iteration yields the chunks that meet the range, ascending.\<close>

lemma list_chunks_rep:
  assumes rep: "rep R t ds cs"
  shows "list_chunks R t ds from_block to_block =
    map Inr (filter (\<lambda>c. from_block \<le> last_block c \<and>
      (case to_block of None \<Rightarrow> True | Some e \<Rightarrow> first_block c \<le> e)) cs)"
proof -
  let ?to = "\<lambda>c. case to_block of None \<Rightarrow> True | Some e \<Rightarrow> first_block c \<le> e"
  obtain rest where rest: "other_keys ds rest"
    "kv_seek R t CF_CHUNKS (chunk_id_new ds from_block) =
       map (entry_of R t ds) (filter (\<lambda>c. from_block \<le> last_block c) cs) @ rest"
    using seek_split [OF rep] .
  have "list_chunks R t ds from_block to_block =
      map Inr (takeWhile (\<lambda>c. from_block \<le> last_block c \<and> ?to c) (filter (\<lambda>c. from_block \<le> last_block c) cs))"
    unfolding list_chunks_def rest(2) by (rule chunk_iter_entries [OF rep _ rest(1)]) auto
  also have "takeWhile (\<lambda>c. from_block \<le> last_block c \<and> ?to c) (filter (\<lambda>c. from_block \<le> last_block c) cs) =
      filter (\<lambda>c. from_block \<le> last_block c \<and> ?to c) cs"
    using repD(2) [OF rep]
  proof (induction cs)
    case (Cons c cs)
    have "filter (\<lambda>c. from_block \<le> last_block c \<and> ?to c) cs = []" if "\<not> ?to c"
      using that Cons.prems by (auto simp: filter_empty_conv split: option.splits)
    then show ?case using Cons by auto
  qed simp
  finally show ?thesis .
qed

text \<open>Reverse iteration yields the chunks that end inside the range, descending.\<close>

lemma list_chunks_rev_rep:
  assumes rep: "rep R t ds cs"
  shows "list_chunks_rev R t ds from_block to_block =
    map Inr (rev (filter (\<lambda>c. from_block \<le> last_block c \<and>
      (case to_block of None \<Rightarrow> True | Some e \<Rightarrow> last_block c \<le> e)) cs))"
proof -
  let ?to = "\<lambda>c. case to_block of None \<Rightarrow> True | Some e \<Rightarrow> first_block c \<le> e"
    and ?b = "case to_block of Some b \<Rightarrow> b | None \<Rightarrow> - 1"
  obtain rest where rest: "other_keys ds rest"
    "kv_seek_prev R t CF_CHUNKS (chunk_id_new ds ?b) =
       map (entry_of R t ds) (rev (filter (\<lambda>c. last_block c \<le> ?b) cs)) @ rest"
    using seek_prev_split [OF rep] .
  have *: "last_block c \<le> ?b \<longleftrightarrow> (case to_block of None \<Rightarrow> True | Some e \<Rightarrow> last_block c \<le> e)" for c
    by (auto split: option.splits)
  have "list_chunks_rev R t ds from_block to_block =
      map Inr (takeWhile (\<lambda>c. from_block \<le> last_block c \<and> ?to c) (rev (filter (\<lambda>c. last_block c \<le> ?b) cs)))"
    unfolding list_chunks_rev_def rest(2) by (rule chunk_iter_entries [OF rep _ rest(1)]) auto
  also have "takeWhile (\<lambda>c. from_block \<le> last_block c \<and> ?to c) (rev (filter (\<lambda>c. last_block c \<le> ?b) cs)) =
      rev (filter (\<lambda>c. from_block \<le> last_block c \<and> last_block c \<le> ?b) cs)"
    using repD(2) [OF rep]
  proof (induction cs rule: rev_induct)
    case (snoc c cs)
    have "?to c" if "last_block c \<le> ?b"
      using that snoc.prems by (auto simp: chunks_sorted_append split: option.splits)
    moreover have "filter (\<lambda>c. from_block \<le> last_block c \<and> last_block c \<le> ?b) cs = []"
      if "\<not> from_block \<le> last_block c"
      using that snoc.prems by (auto simp: chunks_sorted_append filter_empty_conv not_le)
    ultimately show ?case using snoc by (auto simp: chunks_sorted_append)
  qed simp
  finally show ?thesis unfolding * .
qed

lemma rep_put:
  assumes rep: "rep R t ds cs" and sorted: "chunks_sorted cs'"
    and set: "set cs' = insert c {x \<in> set cs. last_block x \<noteq> last_block c}"
  shows "rep R (kv_put R t CF_CHUNKS (chunk_id_for ds c) (enc_chunk R c)) ds cs'"
proof -
  note r = repD [OF rep]
  have m: "map_of (map (\<lambda>c. (last_block c, c)) cs') b =
      (if b = last_block c then Some c else map_of (map (\<lambda>c. (last_block c, c)) cs) b)" for b
    by (rule option_eqI) (use chunks_sorted_map_of [OF sorted] chunks_sorted_map_of [OF r(2)] set in auto)
  have "keys_ok R (kv_put R t CF_CHUNKS (chunk_id_for ds c) (enc_chunk R c))"
    using r by (auto simp: keys_ok_def get_put chunk_id_for_def)
  then show ?thesis
    using r sorted rep_lookup [OF rep]
    by (simp add: rep_def m get_put chunk_id_for_def dec_enc_chunk)
qed

lemma rep_delete:
  assumes rep: "rep R t ds cs" and sorted: "chunks_sorted cs'"
    and set: "set cs' = {x \<in> set cs. last_block x \<noteq> b}"
  shows "rep R (kv_delete R t CF_CHUNKS (chunk_id_new ds b)) ds cs'"
proof -
  note r = repD [OF rep]
  have m: "map_of (map (\<lambda>c. (last_block c, c)) cs') b' =
      (if b' = b then None else map_of (map (\<lambda>c. (last_block c, c)) cs) b')" for b'
    by (rule option_eqI) (use chunks_sorted_map_of [OF sorted] chunks_sorted_map_of [OF r(2)] set in auto)
  have "keys_ok R (kv_delete R t CF_CHUNKS (chunk_id_new ds b))"
    using r by (auto simp: keys_ok_def get_delete)
  then show ?thesis
    using r sorted rep_lookup [OF rep] by (simp add: rep_def m get_delete)
qed

end

lemma rep_cong:
  "(\<And>k. kv_get R t' CF_CHUNKS k = kv_get R t CF_CHUNKS k) \<Longrightarrow> rep R t' ds cs \<longleftrightarrow> rep R t ds cs"
  by (simp add: rep_def keys_ok_def)

section \<open>An in-memory engine\<close>

datatype val = VChunk chunk | VLabel dataset_label | VRaw bytes

type_synonym mem = "((cf \<times> bytes) \<times> val) list"

definition mem_keys :: "mem \<Rightarrow> cf \<Rightarrow> bytes list" where
  "mem_keys t c = sort (remdups (map snd (filter (\<lambda>k. fst k = c) (map fst t))))"

definition mem_entries :: "mem \<Rightarrow> cf \<Rightarrow> bytes list \<Rightarrow> (bytes \<times> val) list" where
  "mem_entries t c ks = map (\<lambda>k. (k, the (map_of t (c, k)))) ks"

definition mem_kv :: "(mem, val) kv" where
  "mem_kv = \<lparr>
     kv_get = \<lambda>t c k. map_of t (c, k),
     kv_put = \<lambda>t c k v. ((c, k), v) # t,
     kv_delete = \<lambda>t c k. filter (\<lambda>e. fst e \<noteq> (c, k)) t,
     kv_seek = \<lambda>t c k. mem_entries t c (filter (\<lambda>k'. k \<le> k') (mem_keys t c)),
     kv_seek_prev = \<lambda>t c k. mem_entries t c (rev (filter (\<lambda>k'. k' \<le> k) (mem_keys t c))),
     enc_chunk = VChunk,
     dec_chunk = \<lambda>v. case v of VChunk c \<Rightarrow> Some c | _ \<Rightarrow> None,
     enc_label = VLabel,
     dec_label = \<lambda>v. case v of VLabel l \<Rightarrow> Some l | _ \<Rightarrow> None,
     enc_raw = VRaw,
     dec_raw = \<lambda>v. case v of VRaw b \<Rightarrow> b | _ \<Rightarrow> []\<rparr>"

lemma mem_keys_set: "k \<in> set (mem_keys t c) \<longleftrightarrow> map_of t (c, k) \<noteq> None"
  by (force simp: mem_keys_def map_of_eq_None_iff)

lemma mem_keys_sorted: "sorted_wrt (<) (mem_keys t c)"
  by (simp add: mem_keys_def strict_sorted_iff)

lemma map_of_filter_key: "map_of (filter (\<lambda>e. fst e \<noteq> k) t) k' = (if k' = k then None else map_of t k')"
  by (induction t) auto

lemma mem_entries_fst: "map fst (mem_entries t c ks) = ks"
  by (simp add: mem_entries_def comp_def)

lemma mem_entries_set:
  "(k, v) \<in> set (mem_entries t c ks) \<longleftrightarrow> k \<in> set ks \<and> v = the (map_of t (c, k))"
  by (auto simp: mem_entries_def)

interpretation mem: kv_store mem_kv
proof unfold_locales
  fix t :: mem and c :: cf and k k' :: bytes and v :: val
  show "sorted_wrt (<) (map fst (kv_seek mem_kv t c k))"
    using mem_keys_sorted by (simp add: mem_kv_def mem_entries_fst sorted_wrt_filter)
  show "sorted_wrt (>) (map fst (kv_seek_prev mem_kv t c k))"
    using mem_keys_sorted by (simp add: mem_kv_def mem_entries_fst sorted_wrt_filter sorted_wrt_rev)
  show "(k', v) \<in> set (kv_seek mem_kv t c k) \<longleftrightarrow> k \<le> k' \<and> kv_get mem_kv t c k' = Some v"
    by (auto simp: mem_kv_def mem_entries_set mem_keys_set)
  show "(k', v) \<in> set (kv_seek_prev mem_kv t c k) \<longleftrightarrow> k' \<le> k \<and> kv_get mem_kv t c k' = Some v"
    by (auto simp: mem_kv_def mem_entries_set mem_keys_set)
qed (auto simp: mem_kv_def map_of_filter_key)

lemma mem_rep_empty: "sid_ok 48 ds \<Longrightarrow> rep mem_kv [] ds []"
  by (simp add: rep_def keys_ok_def mem_kv_def)

section \<open>Properties\<close>

text \<open>
  C23: iterating over the chunks of a dataset. Forward, the iterator yields exactly the chunks that
  meet the block range, in ascending order, and never an error; reversed, it yields exactly the
  chunks that end inside the range, in descending order. Chunks of other datasets are never seen.
\<close>

theorem list_chunks_spec:
  assumes "kv_store R" and "rep R t ds cs"
  shows "list_chunks R t ds from_block to_block =
      map Inr (filter (\<lambda>c. from_block \<le> last_block c \<and>
        (case to_block of None \<Rightarrow> True | Some e \<Rightarrow> first_block c \<le> e)) cs) \<and>
    list_chunks_rev R t ds from_block to_block =
      map Inr (rev (filter (\<lambda>c. from_block \<le> last_block c \<and>
        (case to_block of None \<Rightarrow> True | Some e \<Rightarrow> last_block c \<le> e)) cs))"
  using kv_store.list_chunks_rep [OF assms] kv_store.list_chunks_rev_rep [OF assms] by simp

theorem list_chunks_spec_witness:
  "list_chunks mem_kv (kv_put mem_kv [] CF_CHUNKS (chunk_id_for (sid_default 48) (V0 3 9 [1] [2] []))
      (enc_chunk mem_kv (V0 3 9 [1] [2] []))) (sid_default 48) 5 (Some 7) = [Inr (V0 3 9 [1] [2] [])] \<and>
   list_chunks_rev mem_kv (kv_put mem_kv [] CF_CHUNKS (chunk_id_for (sid_default 48) (V0 3 9 [1] [2] []))
      (enc_chunk mem_kv (V0 3 9 [1] [2] []))) (sid_default 48) 5 (Some 7) = []"
proof -
  have "sid_ok 48 (sid_default 48)" by code_simp
  then have "rep mem_kv (kv_put mem_kv [] CF_CHUNKS (chunk_id_for (sid_default 48) (V0 3 9 [1] [2] []))
      (enc_chunk mem_kv (V0 3 9 [1] [2] []))) (sid_default 48) [V0 3 9 [1] [2] []]"
    by (intro mem.rep_put [OF mem_rep_empty]) auto
  from list_chunks_spec [OF mem.kv_store_axioms this, of 5 "Some 7"] show ?thesis by simp
qed

end
