(* ===== verification/Tx.thy ===== *)
theory Tx
  imports Store
begin

text \<open>
  The operations of a storage transaction (\<open>storage/src/db/write/tx.rs\<close>) and of a dataset update
  (\<open>storage/src/db/write/dataset_update.rs\<close>): labels, chunk writes and deletes, fork insertion,
  the insertion checks, the hash indexes and the comparison with finalized history. A transaction is
  its staged view of the key-value engine; the readers of committed tables are part of the context
  \<open>tx_ctx\<close>. Index timings are not modelled.
\<close>

section \<open>Context\<close>

record tx_ctx =
  block_hash_index :: bool
  transaction_hash_index :: bool
  table_reader :: "table_id \<Rightarrow> db_err + table"

definition is_indexed_kind :: "sid \<Rightarrow> bool" where
  "is_indexed_kind k \<longleftrightarrow> Inr k = sid_try_from_str 16 [101, 118, 109]"

section \<open>Labels\<close>

definition find_label_for_update :: "('t, 'v) kv \<Rightarrow> 't \<Rightarrow> sid \<Rightarrow> db_err + dataset_label option" where
  "find_label_for_update R t ds =
     (case kv_get R t CF_DATASETS ds of
        None \<Rightarrow> Inr None
      | Some v \<Rightarrow> rbind (ok_or (dec_label R v) BadValue) (\<lambda>l. Inr (Some l)))"

definition get_label_for_update :: "('t, 'v) kv \<Rightarrow> 't \<Rightarrow> sid \<Rightarrow> db_err + dataset_label" where
  "get_label_for_update R t ds =
     rbind (find_label_for_update R t ds) (\<lambda>l. ok_or l DatasetNotFound)"

definition write_label :: "('t, 'v) kv \<Rightarrow> 't \<Rightarrow> sid \<Rightarrow> dataset_label \<Rightarrow> 't" where
  "write_label R t ds l = kv_put R t CF_DATASETS ds (enc_label R l)"

definition delete_label :: "('t, 'v) kv \<Rightarrow> 't \<Rightarrow> sid \<Rightarrow> 't" where
  "delete_label R t ds = kv_delete R t CF_DATASETS ds"

section \<open>Chunks\<close>

definition write_chunk :: "('t, 'v) kv \<Rightarrow> 't \<Rightarrow> sid \<Rightarrow> chunk \<Rightarrow> 't" where
  "write_chunk R t ds c =
     fold (\<lambda>tid t. kv_delete R t CF_DIRTY_TABLES tid) (map snd (tables c))
       (kv_put R t CF_CHUNKS (chunk_id_for ds c) (enc_chunk R c))"

definition delete_table :: "('t, 'v) kv \<Rightarrow> 't \<Rightarrow> table_id \<Rightarrow> 't" where
  "delete_table R t tid = kv_put R t CF_DELETED_TABLES tid (enc_raw R [])"

definition delete_chunk :: "('t, 'v) kv \<Rightarrow> 't \<Rightarrow> sid \<Rightarrow> chunk \<Rightarrow> 't" where
  "delete_chunk R t ds c =
     fold (\<lambda>tid t. delete_table R t tid) (map snd (tables c))
       (kv_delete R t CF_CHUNKS (chunk_id_for ds c))"

section \<open>Hash indexes\<close>

definition encode_transaction_position :: "u64 \<Rightarrow> u32 \<Rightarrow> bytes" where
  "encode_transaction_position block_number transaction_index =
     be_bytes 8 (unat block_number) @ be_bytes 4 (unat transaction_index)"

definition index_block_hashes :: "('t, 'v) kv \<Rightarrow> tx_ctx \<Rightarrow> 't \<Rightarrow> sid \<Rightarrow> chunk \<Rightarrow> db_err + 't" where
  "index_block_hashes R X t ds c =
     (case get_table c ''blocks'' of
        None \<Rightarrow> Inr t
      | Some tid \<Rightarrow>
          rbind (table_reader X tid) (\<lambda>reader.
          rbind (for_each_block_hash reader
              (\<lambda>(number, hash) (key, t).
                 let key = hash_index_set_hash key hash in
                 Inr (key, kv_put R t CF_BLOCK_HASHES key (enc_raw R (be_bytes 8 (unat number)))))
              (hash_index_key ds [], t))
            (\<lambda>(_, t). Inr t)))"

definition index_transaction_hashes :: "('t, 'v) kv \<Rightarrow> tx_ctx \<Rightarrow> 't \<Rightarrow> sid \<Rightarrow> chunk \<Rightarrow> db_err + 't" where
  "index_transaction_hashes R X t ds c =
     (case get_table c ''transactions'' of
        None \<Rightarrow> Inr t
      | Some tid \<Rightarrow>
          rbind (table_reader X tid) (\<lambda>reader.
          rbind (for_each_transaction_hash reader
              (\<lambda>(number, index, hash) (key, t).
                 let key = hash_index_set_hash key hash in
                 Inr (key, kv_put R t CF_TRANSACTION_HASHES key
                   (enc_raw R (encode_transaction_position number index))))
              (hash_index_key ds [], t))
            (\<lambda>(_, t). Inr t)))"

definition index_hashes :: "('t, 'v) kv \<Rightarrow> tx_ctx \<Rightarrow> 't \<Rightarrow> sid \<Rightarrow> chunk \<Rightarrow> db_err + 't" where
  "index_hashes R X t ds c =
     (if \<not> block_hash_index X \<and> \<not> transaction_hash_index X then Inr t
      else
        rbind (find_label_for_update R t ds) (\<lambda>label.
        case label of
          None \<Rightarrow> Inr t
        | Some l \<Rightarrow>
            if \<not> is_indexed_kind (kind l) then Inr t
            else
              rbind (if block_hash_index X then index_block_hashes R X t ds c else Inr t) (\<lambda>t.
              if transaction_hash_index X then index_transaction_hashes R X t ds c else Inr t)))"

definition has_hash_entries :: "('t, 'v) kv \<Rightarrow> 't \<Rightarrow> cf \<Rightarrow> sid \<Rightarrow> bool" where
  "has_hash_entries R t f ds =
     (let (start, end_key) = dataset_range ds in
      takeWhile (\<lambda>e. fst e < end_key) (kv_seek R t f start) \<noteq> [])"

definition unindex_block_hashes :: "('t, 'v) kv \<Rightarrow> tx_ctx \<Rightarrow> 't \<Rightarrow> sid \<Rightarrow> chunk \<Rightarrow> db_err + 't" where
  "unindex_block_hashes R X t ds c =
     (if \<not> has_hash_entries R t CF_BLOCK_HASHES ds then Inr t
      else
        case get_table c ''blocks'' of
          None \<Rightarrow> Inr t
        | Some tid \<Rightarrow>
            rbind (table_reader X tid) (\<lambda>reader.
            rbind (for_each_block_hash reader
                (\<lambda>(number, hash) (key, t).
                   let key = hash_index_set_hash key hash in Inr (key, kv_delete R t CF_BLOCK_HASHES key))
                (hash_index_key ds [], t))
              (\<lambda>(_, t). Inr t)))"

definition unindex_transaction_hashes :: "('t, 'v) kv \<Rightarrow> tx_ctx \<Rightarrow> 't \<Rightarrow> sid \<Rightarrow> chunk \<Rightarrow> db_err + 't" where
  "unindex_transaction_hashes R X t ds c =
     (if \<not> has_hash_entries R t CF_TRANSACTION_HASHES ds then Inr t
      else
        case get_table c ''transactions'' of
          None \<Rightarrow> Inr t
        | Some tid \<Rightarrow>
            rbind (table_reader X tid) (\<lambda>reader.
            rbind (for_each_transaction_hash reader
                (\<lambda>(number, index, hash) (key, t).
                   let key = hash_index_set_hash key hash in
                   Inr (key, kv_delete R t CF_TRANSACTION_HASHES key))
                (hash_index_key ds [], t))
              (\<lambda>(_, t). Inr t)))"

definition unindex_hashes :: "('t, 'v) kv \<Rightarrow> tx_ctx \<Rightarrow> 't \<Rightarrow> sid \<Rightarrow> chunk \<Rightarrow> db_err + 't" where
  "unindex_hashes R X t ds c =
     rbind (unindex_block_hashes R X t ds c) (\<lambda>t. unindex_transaction_hashes R X t ds c)"

section \<open>Insertion\<close>

text \<open>The loop of \<open>insert_fork\<close> over the existing chunks, highest first.\<close>

fun fork_loop ::
  "('t, 'v) kv \<Rightarrow> tx_ctx \<Rightarrow> sid \<Rightarrow> chunk \<Rightarrow> (db_err + chunk) list \<Rightarrow> 't \<Rightarrow> db_err + 't" where
  "fork_loop R X ds c [] t = Inr t"
| "fork_loop R X ds c (head_result # existing) t =
     rbind head_result (\<lambda>head.
     if first_block c \<le> first_block head then
       rbind (unindex_hashes R X t ds head) (\<lambda>t. fork_loop R X ds c existing (delete_chunk R t ds head))
     else if last_block head + 1 = first_block c then
       rbind (ensure (last_block_hash head = parent_block_hash c) ChainBroken) (\<lambda>_. Inr t)
     else if last_block head < first_block c then Inl ChainGap
     else Inl ChunkOverlap)"

definition insert_fork :: "('t, 'v) kv \<Rightarrow> tx_ctx \<Rightarrow> 't \<Rightarrow> sid \<Rightarrow> chunk \<Rightarrow> db_err + 't" where
  "insert_fork R X t ds c =
     rbind (fork_loop R X ds c (list_chunks_rev R t ds 0 None) t) (\<lambda>t.
     index_hashes R X (write_chunk R t ds c) ds c)"

fun check_neighbours :: "chunk \<Rightarrow> (db_err + chunk) list \<Rightarrow> db_err + unit" where
  "check_neighbours c [] = Inr ()"
| "check_neighbours c (chunk_result # existing) =
     rbind chunk_result (\<lambda>n.
     rbind (ensure (min (last_block n) (last_block c) < max (first_block n) (first_block c)) ChunkOverlap) (\<lambda>_.
     rbind (if last_block c + 1 = first_block n
       then ensure (last_block_hash c = parent_block_hash n) ChainBroken else Inr ()) (\<lambda>_.
     rbind (if last_block n + 1 = first_block c
       then ensure (last_block_hash n = parent_block_hash c) ChainBroken else Inr ()) (\<lambda>_.
     check_neighbours c existing))))"

definition validate_chunk_insertion :: "('t, 'v) kv \<Rightarrow> 't \<Rightarrow> sid \<Rightarrow> chunk \<Rightarrow> db_err + unit" where
  "validate_chunk_insertion R t ds c =
     rbind (ensure (first_block c \<le> last_block c) InvalidChunkRange) (\<lambda>_.
     check_neighbours c (take 2 (list_chunks_rev R t ds 0 (Some (last_block c + 1)))))"

section \<open>Block hash checks\<close>

text \<open>The inner \<open>Result<(), String>\<close>: \<open>Inl\<close> the hash that was found.\<close>

definition parent_check :: "bytes \<Rightarrow> bytes \<Rightarrow> bytes + unit" where
  "parent_check found expected = (if found = expected then Inr () else Inl found)"

definition validate_parent_block_hash :: "tx_ctx \<Rightarrow> chunk \<Rightarrow> u64 \<Rightarrow> bytes \<Rightarrow> db_err + (bytes + unit)" where
  "validate_parent_block_hash X c block_number expected_parent_hash =
     (if first_block c = block_number then Inr (parent_check (parent_block_hash c) expected_parent_hash)
      else if last_block c + 1 = block_number then Inr (parent_check (last_block_hash c) expected_parent_hash)
      else
        rbind (ensure (first_block c < block_number \<and> block_number \<le> last_block c) NoParentInfo) (\<lambda>_.
        rbind (ok_or (get_table c ''blocks'') NoBlocksTable) (\<lambda>tid.
        rbind (table_reader X tid) (\<lambda>reader.
        rbind (get_parent_block_hash reader block_number) (\<lambda>parent_hash.
        Inr (parent_check parent_hash expected_parent_hash))))))"

definition find_block_hash_in_chunk :: "tx_ctx \<Rightarrow> chunk \<Rightarrow> u64 \<Rightarrow> db_err + bytes option" where
  "find_block_hash_in_chunk X c block_number =
     rbind (ok_or (get_table c ''blocks'') NoBlocksTable) (\<lambda>tid.
     rbind (table_reader X tid) (\<lambda>reader. find_block_hash reader block_number))"

definition find_stored_block_hash ::
  "('t, 'v) kv \<Rightarrow> tx_ctx \<Rightarrow> 't \<Rightarrow> sid \<Rightarrow> u64 \<Rightarrow> db_err + bytes option" where
  "find_stored_block_hash R X t ds block_number =
     (case list_chunks R t ds block_number (Some block_number) of
        [] \<Rightarrow> Inr None
      | r # _ \<Rightarrow> rbind r (\<lambda>c. find_block_hash_in_chunk X c block_number))"

section \<open>Comparison with finalized history\<close>

datatype divergence =
  NotStored "u64 \<times> bytes"
| Mismatch "u64 \<times> bytes" "u64 \<times> bytes"
| MissingBlock "u64 \<times> bytes"

fun collect_results :: "('e + 'a) list \<Rightarrow> 'e + 'a list" where
  "collect_results [] = Inr []"
| "collect_results (r # rs) = rbind r (\<lambda>x. rbind (collect_results rs) (\<lambda>xs. Inr (x # xs)))"

definition read_block_hashes :: "tx_ctx \<Rightarrow> chunk \<Rightarrow> u64 \<Rightarrow> u64 \<Rightarrow> db_err + (u64 \<times> bytes) list" where
  "read_block_hashes X c from to =
     rbind (ok_or (get_table c ''blocks'') NoBlocksTable) (\<lambda>tid.
     rbind (table_reader X tid) (\<lambda>reader.
     for_each_block_hash reader
       (\<lambda>(number, hash) hashes.
          Inr (if from \<le> number \<and> number \<le> to then hashes @ [(number, hash)] else hashes)) []))"

text \<open>The cursor over stored history: the chunks not read yet, the pairs of the current one and the
  position in them.\<close>

type_synonym cursor = "chunk list \<times> (u64 \<times> bytes) list \<times> nat"

fun seek_stored :: "tx_ctx \<Rightarrow> u64 \<Rightarrow> u64 \<Rightarrow> chunk list \<Rightarrow> (u64 \<times> bytes) list \<Rightarrow> nat \<Rightarrow> db_err + bool \<times> cursor" where
  "seek_stored X from up_to [] stored pos = Inr (pos < length stored, [], stored, pos)"
| "seek_stored X from up_to (c # chunks) stored pos =
     (if pos < length stored then Inr (True, c # chunks, stored, pos)
      else rbind (read_block_hashes X c from up_to) (\<lambda>stored. seek_stored X from up_to chunks stored 0))"

definition prefix_visit ::
  "tx_ctx \<Rightarrow> u64 \<Rightarrow> u64 \<Rightarrow> u64 \<times> bytes \<Rightarrow> divergence option \<times> cursor \<Rightarrow> db_err + divergence option \<times> cursor" where
  "prefix_visit X from up_to row s =
     (case s of (dvg, chunks, stored, pos) \<Rightarrow>
      if dvg \<noteq> None \<or> up_to < fst row then Inr s
      else
        rbind (seek_stored X from up_to chunks stored pos) (\<lambda>(found, chunks, stored, pos).
        if \<not> found then Inr (Some (NotStored row), chunks, stored, pos)
        else if stored ! pos = row then Inr (None, chunks, stored, Suc pos)
        else Inr (Some (Mismatch (stored ! pos) row), chunks, stored, pos)))"

definition validate_finalized_prefix ::
  "('t, 'v) kv \<Rightarrow> tx_ctx \<Rightarrow> 't \<Rightarrow> sid \<Rightarrow> chunk \<Rightarrow> u64 \<Rightarrow> db_err + (divergence + unit)" where
  "validate_finalized_prefix R X t ds c up_to =
     (let from = first_block c in
      rbind (collect_results (list_chunks R t ds from (Some up_to))) (\<lambda>stored_chunks.
      rbind (ok_or (get_table c ''blocks'') NoBlocksTable) (\<lambda>tid.
      rbind (table_reader X tid) (\<lambda>reader.
      rbind (for_each_block_hash reader (prefix_visit X from up_to) (None, stored_chunks, [], 0))
        (\<lambda>(dvg, chunks, stored, pos).
      case dvg of
        Some d \<Rightarrow> Inr (Inl d)
      | None \<Rightarrow>
          rbind (seek_stored X from up_to chunks stored pos) (\<lambda>(found, _, stored, pos).
          if found then Inr (Inl (MissingBlock (stored ! pos))) else Inr (Inr ())))))))"

section \<open>Dataset updates\<close>

record 't dataset_update =
  upd_tx :: 't
  upd_dataset_id :: sid
  upd_label :: dataset_label

definition dataset_update_new :: "('t, 'v) kv \<Rightarrow> 't \<Rightarrow> sid \<Rightarrow> db_err + 't dataset_update" where
  "dataset_update_new R t ds =
     rbind (get_label_for_update R t ds) (\<lambda>label.
     Inr \<lparr>upd_tx = t, upd_dataset_id = ds, upd_label = label\<rparr>)"

definition upd_insert_chunk ::
  "('t, 'v) kv \<Rightarrow> tx_ctx \<Rightarrow> chunk \<Rightarrow> 't dataset_update \<Rightarrow> db_err + 't dataset_update" where
  "upd_insert_chunk R X c u =
     rbind (validate_chunk_insertion R (upd_tx u) (upd_dataset_id u) c) (\<lambda>_.
     rbind (index_hashes R X (write_chunk R (upd_tx u) (upd_dataset_id u) c) (upd_dataset_id u) c) (\<lambda>t.
     Inr (u\<lparr>upd_tx := t\<rparr>)))"

definition upd_insert_fork ::
  "('t, 'v) kv \<Rightarrow> tx_ctx \<Rightarrow> chunk \<Rightarrow> 't dataset_update \<Rightarrow> db_err + 't dataset_update" where
  "upd_insert_fork R X c u =
     rbind (insert_fork R X (upd_tx u) (upd_dataset_id u) c) (\<lambda>t. Inr (u\<lparr>upd_tx := t\<rparr>))"

definition upd_delete_chunk ::
  "('t, 'v) kv \<Rightarrow> tx_ctx \<Rightarrow> chunk \<Rightarrow> 't dataset_update \<Rightarrow> db_err + 't dataset_update" where
  "upd_delete_chunk R X c u =
     rbind (unindex_hashes R X (upd_tx u) (upd_dataset_id u) c) (\<lambda>t.
     Inr (u\<lparr>upd_tx := delete_chunk R t (upd_dataset_id u) c\<rparr>))"

definition upd_set_finalized_head :: "block_ref option \<Rightarrow> 't dataset_update \<Rightarrow> 't dataset_update" where
  "upd_set_finalized_head h u = u\<lparr>upd_label := label_set_finalized_head h (upd_label u)\<rparr>"

definition upd_finish :: "('t, 'v) kv \<Rightarrow> 't dataset_update \<Rightarrow> 't" where
  "upd_finish R u = write_label R (upd_tx u) (upd_dataset_id u) (bump_version (upd_label u))"


text \<open>The blocks table of a chunk is readable and holds \<open>rows\<close>.\<close>

definition readable :: "tx_ctx \<Rightarrow> chunk \<Rightarrow> (u64 \<times> bytes) list \<Rightarrow> bool" where
  "readable X c rows \<longleftrightarrow>
     (\<exists>tid tab. get_table c ''blocks'' = Some tid \<and> table_reader X tid = Inr tab \<and>
        table_ok tab \<and> block_rows tab = Some rows)"

section \<open>Frames\<close>

text \<open>Only hash-index entries of the dataset change.\<close>

definition hash_frame :: "('t, 'v) kv \<Rightarrow> sid \<Rightarrow> 't \<Rightarrow> 't \<Rightarrow> bool" where
  "hash_frame R ds t t' \<longleftrightarrow>
     (\<forall>f k. f \<notin> {CF_BLOCK_HASHES, CF_TRANSACTION_HASHES} \<or> take 48 k \<noteq> ds \<longrightarrow>
        kv_get R t' f k = kv_get R t f k)"

lemma hash_frame_refl [simp]: "hash_frame R ds t t"
  by (simp add: hash_frame_def)

lemma hash_frame_trans: "hash_frame R ds t t' \<Longrightarrow> hash_frame R ds t' t'' \<Longrightarrow> hash_frame R ds t t''"
  by (simp add: hash_frame_def)

lemma hash_frame_get:
  "hash_frame R ds t t' \<Longrightarrow> f \<notin> {CF_BLOCK_HASHES, CF_TRANSACTION_HASHES} \<Longrightarrow> kv_get R t' f k = kv_get R t f k"
  by (simp add: hash_frame_def)

lemma hash_frame_rep: "hash_frame R ds t t' \<Longrightarrow> rep R t' d cs \<longleftrightarrow> rep R t d cs"
  by (rule rep_cong) (simp add: hash_frame_get)

text \<open>Labels of all datasets and the chunks and index entries of other datasets are unchanged.\<close>

definition ds_frame :: "('t, 'v) kv \<Rightarrow> sid \<Rightarrow> 't \<Rightarrow> 't \<Rightarrow> bool" where
  "ds_frame R ds t t' \<longleftrightarrow>
     (\<forall>f k. f = CF_DATASETS \<or> f \<in> {CF_CHUNKS, CF_BLOCK_HASHES, CF_TRANSACTION_HASHES} \<and> take 48 k \<noteq> ds \<longrightarrow>
        kv_get R t' f k = kv_get R t f k)"

lemma ds_frame_refl [simp]: "ds_frame R ds t t"
  by (simp add: ds_frame_def)

lemma ds_frame_trans: "ds_frame R ds t t' \<Longrightarrow> ds_frame R ds t' t'' \<Longrightarrow> ds_frame R ds t t''"
  by (auto simp: ds_frame_def)

lemma ds_frame_rep:
  assumes "ds_frame R ds t t'" and "keys_ok R t'" and "rep R t d cs" and "d \<noteq> ds"
  shows "rep R t' d cs"
proof -
  have "kv_get R t' CF_CHUNKS (chunk_id_new d b) = kv_get R t CF_CHUNKS (chunk_id_new d b)" for b
    using assms(1,4) repD(4) [OF assms(3)] by (simp add: ds_frame_def chunk_id_new_def)
  then show ?thesis using assms(2,3) by (simp add: rep_def)
qed

text \<open>The chunks that a fork at \<open>c\<close> leaves in place.\<close>

definition kept :: "chunk \<Rightarrow> chunk list \<Rightarrow> chunk list" where
  "kept c cs = filter (\<lambda>x. first_block x < first_block c) cs"

lemma linked_below:
  assumes "linked a c" and "first_block a < first_block c"
  shows "last_block a < first_block c"
proof -
  have "last_block a \<noteq> - 1" using assms by (auto simp: linked_def)
  then have "last_block a < last_block a + 1" by simp
  then show ?thesis using assms(1) by (simp add: linked_def)
qed

lemma kept_prefix: "chunks_sorted cs \<Longrightarrow> kept c cs = takeWhile (\<lambda>x. first_block x < first_block c) cs"
proof (induction cs)
  case (Cons x cs)
  have "kept c cs = []" if "\<not> first_block x < first_block c"
    using that Cons.prems by (auto simp: kept_def filter_empty_conv)
  then show ?case using Cons by (auto simp: kept_def)
qed (simp add: kept_def)

lemma chain_take: "chain cs \<Longrightarrow> chain (takeWhile P cs)"
  by (induction cs rule: chain.induct) auto

lemma chain_snoc: "chain (cs @ [c]) \<longleftrightarrow> chain cs \<and> (cs \<noteq> [] \<longrightarrow> linked (last cs) c)"
  by (induction cs rule: chain.induct) auto

lemma kept_below:
  assumes "chunks_sorted (kept c cs)" and "kept c cs \<noteq> [] \<longrightarrow> linked (last (kept c cs)) c"
    and "x \<in> set (kept c cs)"
  shows "last_block x < first_block c"
proof -
  obtain ys y where ys: "kept c cs = ys @ [y]" using assms(3) by (cases "kept c cs" rule: rev_cases) auto
  then have "y \<in> set (kept c cs)" by simp
  then have "first_block y < first_block c" by (simp add: kept_def)
  then have y: "last_block y < first_block c" using assms(2) ys by (intro linked_below) auto
  have "x = y \<or> last_block x < first_block y" using assms(1,3) ys by (auto simp: chunks_sorted_append)
  then show ?thesis using y assms(1) ys by (auto simp: chunks_sorted_append)
qed

text \<open>What the insertion of \<open>c\<close> asks of an existing chunk: no common block, and linked hashes
  when the two are adjacent.\<close>

definition compatible :: "chunk \<Rightarrow> chunk \<Rightarrow> bool" where
  "compatible c n \<longleftrightarrow>
     min (last_block n) (last_block c) < max (first_block n) (first_block c) \<and>
     (last_block c + 1 = first_block n \<longrightarrow> last_block_hash c = parent_block_hash n) \<and>
     (last_block n + 1 = first_block c \<longrightarrow> last_block_hash n = parent_block_hash c)"

lemma chunks_sorted_filter: "chunks_sorted cs \<Longrightarrow> chunks_sorted (filter P cs)"
  by (induction cs) auto

lemma disjoint_iff:
  "first_block c \<le> last_block c \<Longrightarrow> first_block n \<le> last_block n \<Longrightarrow>
    min (last_block n) (last_block c) < max (first_block n) (first_block c) \<longleftrightarrow>
      last_block n < first_block c \<or> last_block c < first_block n"
  by (auto simp: min_less_iff_disj less_max_iff_disj)

lemma compatible_below:
  assumes c: "first_block c \<le> last_block c" and b: "first_block b \<le> last_block b" and x: "first_block x \<le> last_block x"
    and "last_block x < first_block b" and "last_block b \<le> last_block c" and "compatible c b"
    and max: "last_block c \<noteq> - 1"
  shows "compatible c x"
proof -
  have bc: "last_block b < first_block c"
    using assms disjoint_iff [OF c b] by (auto simp: compatible_def)
  then have xc: "last_block x < last_block b" "last_block x < first_block c" using assms by auto
  then have "last_block x + 1 \<le> last_block b" using word_less_not_max by (subst word_succ_le) auto
  then have "last_block x + 1 \<noteq> first_block c" using bc by auto
  moreover have "last_block c + 1 \<noteq> first_block x"
  proof
    assume e: "last_block c + 1 = first_block x"
    have "first_block x < last_block c" using x xc c by auto
    moreover have "last_block c < last_block c + 1" using max by simp
    ultimately show False using e by simp
  qed
  ultimately show ?thesis using xc disjoint_iff [OF c x] by (simp add: compatible_def)
qed

lemma set_hash_prefix: "take 48 key = ds \<Longrightarrow> length ds = 48 \<Longrightarrow> hash_index_set_hash key h = hash_index_key ds h"
  by (simp add: hash_index_set_hash_def hash_index_key_def)

lemma hash_key_prefix: "length ds = 48 \<Longrightarrow> take 48 (hash_index_key ds h) = ds"
  by (simp add: hash_index_key_def)

context kv_store
begin

lemma get_delete_all:
  "kv_get R (fold (\<lambda>k t. kv_delete R t f k) ks t) f' k' =
     (if f' = f \<and> k' \<in> set ks then None else kv_get R t f' k')"
  by (induction ks arbitrary: t) (auto simp: get_delete)

lemma get_put_all:
  "kv_get R (fold (\<lambda>k t. kv_put R t f k v) ks t) f' k' =
     (if f' = f \<and> k' \<in> set ks then Some v else kv_get R t f' k')"
  by (induction ks arbitrary: t) (auto simp: get_put)

lemma get_write_chunk:
  "kv_get R (write_chunk R t ds c) f k =
     (if f = CF_CHUNKS \<and> k = chunk_id_for ds c then Some (enc_chunk R c)
      else if f = CF_DIRTY_TABLES \<and> k \<in> snd ` set (tables c) then None
      else kv_get R t f k)"
  by (simp add: write_chunk_def get_delete_all get_put)

lemma get_delete_chunk:
  "kv_get R (delete_chunk R t ds c) f k =
     (if f = CF_CHUNKS \<and> k = chunk_id_for ds c then None
      else if f = CF_DELETED_TABLES \<and> k \<in> snd ` set (tables c) then Some (enc_raw R [])
      else kv_get R t f k)"
  by (simp add: delete_chunk_def delete_table_def get_put_all get_delete)

lemma hash_frame_put:
  "hash_frame R ds t t' \<Longrightarrow> f \<in> {CF_BLOCK_HASHES, CF_TRANSACTION_HASHES} \<Longrightarrow> length ds = 48 \<Longrightarrow>
    hash_frame R ds t (kv_put R t' f (hash_index_key ds h) v)"
  using hash_key_prefix [of ds h] by (auto simp: hash_frame_def get_put)

lemma hash_frame_delete:
  "hash_frame R ds t t' \<Longrightarrow> f \<in> {CF_BLOCK_HASHES, CF_TRANSACTION_HASHES} \<Longrightarrow> length ds = 48 \<Longrightarrow>
    hash_frame R ds t (kv_delete R t' f (hash_index_key ds h))"
  using hash_key_prefix [of ds h] by (auto simp: hash_frame_def get_delete)

lemma index_block_hashes_frame:
  assumes "index_block_hashes R X t ds c = Inr t'" and "length ds = 48"
  shows "hash_frame R ds t t'"
proof (cases "get_table c ''blocks''")
  case (Some tid)
  then obtain tab key where
    run: "for_each_block_hash tab
      (\<lambda>(number, hash) (key, t).
         let key = hash_index_set_hash key hash in
         Inr (key, kv_put R t CF_BLOCK_HASHES key (enc_raw R (be_bytes 8 (unat number)))))
      (hash_index_key ds [], t) = Inr (key, t')"
    using assms(1) by (auto simp: index_block_hashes_def)
  have "(\<lambda>(key, t'). take 48 key = ds \<and> hash_frame R ds t t') (key, t')"
    by (rule for_each_block_hash_inv [OF run])
      (use assms(2) in \<open>auto simp: Let_def set_hash_prefix hash_key_prefix hash_frame_put\<close>)
  then show ?thesis by simp
qed (use assms in \<open>simp add: index_block_hashes_def\<close>)

lemma index_transaction_hashes_frame:
  assumes "index_transaction_hashes R X t ds c = Inr t'" and "length ds = 48"
  shows "hash_frame R ds t t'"
proof (cases "get_table c ''transactions''")
  case (Some tid)
  then obtain tab key where
    run: "for_each_transaction_hash tab
      (\<lambda>(number, index, hash) (key, t).
         let key = hash_index_set_hash key hash in
         Inr (key, kv_put R t CF_TRANSACTION_HASHES key (enc_raw R (encode_transaction_position number index))))
      (hash_index_key ds [], t) = Inr (key, t')"
    using assms(1) by (auto simp: index_transaction_hashes_def)
  have "(\<lambda>(key, t'). take 48 key = ds \<and> hash_frame R ds t t') (key, t')"
    by (rule for_each_transaction_hash_inv [OF run])
      (use assms(2) in \<open>auto simp: Let_def set_hash_prefix hash_key_prefix hash_frame_put\<close>)
  then show ?thesis by simp
qed (use assms in \<open>simp add: index_transaction_hashes_def\<close>)

lemma index_hashes_frame:
  assumes "index_hashes R X t ds c = Inr t'" and "length ds = 48"
  shows "hash_frame R ds t t'"
  using assms
  by (auto simp: index_hashes_def split: if_splits option.splits
      dest!: index_block_hashes_frame index_transaction_hashes_frame intro: hash_frame_trans)

lemma unindex_block_hashes_frame:
  assumes "unindex_block_hashes R X t ds c = Inr t'" and "length ds = 48"
  shows "hash_frame R ds t t'"
proof (cases "has_hash_entries R t CF_BLOCK_HASHES ds \<and> get_table c ''blocks'' \<noteq> None")
  case True
  then obtain tab key where
    run: "for_each_block_hash tab
      (\<lambda>(number, hash) (key, t).
         let key = hash_index_set_hash key hash in Inr (key, kv_delete R t CF_BLOCK_HASHES key))
      (hash_index_key ds [], t) = Inr (key, t')"
    using assms(1) by (auto simp: unindex_block_hashes_def)
  have "(\<lambda>(key, t'). take 48 key = ds \<and> hash_frame R ds t t') (key, t')"
    by (rule for_each_block_hash_inv [OF run])
      (use assms(2) in \<open>auto simp: Let_def set_hash_prefix hash_key_prefix hash_frame_delete\<close>)
  then show ?thesis by simp
qed (use assms in \<open>auto simp: unindex_block_hashes_def split: if_splits option.splits\<close>)

lemma unindex_transaction_hashes_frame:
  assumes "unindex_transaction_hashes R X t ds c = Inr t'" and "length ds = 48"
  shows "hash_frame R ds t t'"
proof (cases "has_hash_entries R t CF_TRANSACTION_HASHES ds \<and> get_table c ''transactions'' \<noteq> None")
  case True
  then obtain tab key where
    run: "for_each_transaction_hash tab
      (\<lambda>(number, index, hash) (key, t).
         let key = hash_index_set_hash key hash in Inr (key, kv_delete R t CF_TRANSACTION_HASHES key))
      (hash_index_key ds [], t) = Inr (key, t')"
    using assms(1) by (auto simp: unindex_transaction_hashes_def)
  have "(\<lambda>(key, t'). take 48 key = ds \<and> hash_frame R ds t t') (key, t')"
    by (rule for_each_transaction_hash_inv [OF run])
      (use assms(2) in \<open>auto simp: Let_def set_hash_prefix hash_key_prefix hash_frame_delete\<close>)
  then show ?thesis by simp
qed (use assms in \<open>auto simp: unindex_transaction_hashes_def split: if_splits option.splits\<close>)

lemma unindex_hashes_frame:
  assumes "unindex_hashes R X t ds c = Inr t'" and "length ds = 48"
  shows "hash_frame R ds t t'"
  using assms
  by (auto simp: unindex_hashes_def
      dest!: unindex_block_hashes_frame unindex_transaction_hashes_frame intro: hash_frame_trans)

lemma hash_frame_ds: "hash_frame R ds t t' \<Longrightarrow> ds_frame R ds t t'"
  by (auto simp: hash_frame_def ds_frame_def)

lemma write_chunk_ds: "length ds = 48 \<Longrightarrow> ds_frame R ds t (write_chunk R t ds c)"
  by (auto simp: ds_frame_def get_write_chunk chunk_id_for_def chunk_id_new_def)

lemma delete_chunk_ds: "length ds = 48 \<Longrightarrow> ds_frame R ds t (delete_chunk R t ds c)"
  by (auto simp: ds_frame_def get_delete_chunk chunk_id_for_def chunk_id_new_def)

lemma rep_write_chunk:
  assumes "rep R t ds cs" and "chunks_sorted cs'"
    and "set cs' = insert c {x \<in> set cs. last_block x \<noteq> last_block c}"
  shows "rep R (write_chunk R t ds c) ds cs'"
  using rep_put [OF assms]
  by (rule iffD1 [OF rep_cong, rotated]) (simp add: get_write_chunk get_put)

lemma rep_delete_chunk:
  assumes "rep R t ds cs" and "chunks_sorted cs'"
    and "set cs' = {x \<in> set cs. last_block x \<noteq> last_block c}"
  shows "rep R (delete_chunk R t ds c) ds cs'"
  using rep_delete [OF assms]
  by (rule iffD1 [OF rep_cong, rotated]) (simp add: get_delete_chunk get_delete chunk_id_for_def)

lemma fork_loop_rep:
  assumes "rep R t ds cs" and "fork_loop R X ds c (map Inr (rev cs)) t = Inr t'"
  shows "rep R t' ds (kept c cs) \<and> ds_frame R ds t t' \<and> (kept c cs \<noteq> [] \<longrightarrow> linked (last (kept c cs)) c)"
  using assms
proof (induction cs arbitrary: t rule: rev_induct)
  case (snoc h cs)
  note d48 = repD(4) [OF snoc.prems(1)] and sorted = repD(2) [OF snoc.prems(1)]
  have below: "first_block x < first_block h" "last_block x < first_block h" if "x \<in> set cs" for x
    using sorted that by (auto simp: chunks_sorted_append) (meson chunks_sortedD order_le_less_trans)
  have hh: "first_block h \<le> last_block h" using sorted by (simp add: chunks_sorted_append)
  have ne: "last_block x \<noteq> last_block h" if "x \<in> set cs" for x
    using below(2) [OF that] hh by auto
  show ?case
  proof (cases "first_block c \<le> first_block h")
    case True
    then obtain t1 where un: "unindex_hashes R X t ds h = Inr t1"
      and loop: "fork_loop R X ds c (map Inr (rev cs)) (delete_chunk R t1 ds h) = Inr t'"
      using snoc.prems(2) by auto
    have "rep R t1 ds (cs @ [h])"
      using hash_frame_rep [OF unindex_hashes_frame [OF un d48]] snoc.prems(1) by simp
    then have "rep R (delete_chunk R t1 ds h) ds cs"
      using sorted ne by (elim rep_delete_chunk) (auto simp: chunks_sorted_append)
    note IH = snoc.IH [OF this loop]
    moreover have "ds_frame R ds t (delete_chunk R t1 ds h)"
      using hash_frame_ds [OF unindex_hashes_frame [OF un d48]] delete_chunk_ds [OF d48] by (rule ds_frame_trans)
    ultimately show ?thesis using True by (auto simp: kept_def intro: ds_frame_trans)
  next
    case False
    then have "kept c (cs @ [h]) = cs @ [h]"
      using below(1) by (auto simp: kept_def intro!: filter_True) (meson not_le order.strict_trans)
    then show ?thesis using False snoc.prems by (auto simp: linked_def split: if_splits)
  qed
qed (simp add: kept_def)

lemma insert_fork_rep:
  assumes rep: "rep R t ds cs" and c: "first_block c \<le> last_block c"
    and ins: "insert_fork R X t ds c = Inr t'"
  shows "rep R t' ds (kept c cs @ [c])" and "ds_frame R ds t t'"
    and "kept c cs \<noteq> [] \<longrightarrow> linked (last (kept c cs)) c"
proof -
  have "list_chunks_rev R t ds 0 None = map Inr (rev cs)"
    by (simp add: list_chunks_rev_rep [OF rep])
  then obtain t1 where loop: "fork_loop R X ds c (map Inr (rev cs)) t = Inr t1"
    and ix: "index_hashes R X (write_chunk R t1 ds c) ds c = Inr t'"
    using ins by (auto simp: insert_fork_def)
  note l = fork_loop_rep [OF rep loop] and d48 = repD(4) [OF rep]
  then have rep1: "rep R t1 ds (kept c cs)" by simp
  have below: "last_block x < first_block c" if "x \<in> set (kept c cs)" for x
    using l kept_below [OF repD(2) [OF rep1] _ that] by auto
  have "rep R (write_chunk R t1 ds c) ds (kept c cs @ [c])"
    using repD(2) [OF rep1] below c
    by (intro rep_write_chunk [OF rep1]) (force simp: chunks_sorted_append)+
  then show "rep R t' ds (kept c cs @ [c])"
    using hash_frame_rep [OF index_hashes_frame [OF ix d48]] by simp
  show "ds_frame R ds t t'"
    using l write_chunk_ds [OF d48] hash_frame_ds [OF index_hashes_frame [OF ix d48]]
    by (blast intro: ds_frame_trans)
  show "kept c cs \<noteq> [] \<longrightarrow> linked (last (kept c cs)) c" using l by simp
qed

lemma check_neighbours_iff: "check_neighbours c (map Inr xs) = Inr u \<longleftrightarrow> list_all (compatible c) xs"
  by (induction xs) (auto simp: compatible_def)

lemma validate_chunk_insertion_iff:
  assumes rep: "rep R t ds cs" and max: "last_block c \<noteq> - 1"
  shows "validate_chunk_insertion R t ds c = Inr () \<longleftrightarrow>
    first_block c \<le> last_block c \<and> (\<forall>x\<in>set cs. last_block x \<le> last_block c + 1 \<longrightarrow> compatible c x)"
proof -
  define rs where "rs = rev (filter (\<lambda>x. last_block x \<le> last_block c + 1) cs)"
  have "list_chunks_rev R t ds 0 (Some (last_block c + 1)) = map Inr rs"
    by (simp add: list_chunks_rev_rep [OF rep] rs_def)
  then have "validate_chunk_insertion R t ds c = Inr () \<longleftrightarrow>
      first_block c \<le> last_block c \<and> list_all (compatible c) (take 2 rs)"
    by (simp add: validate_chunk_insertion_def take_map check_neighbours_iff)
  moreover have "list_all (compatible c) (take 2 rs) \<longleftrightarrow> list_all (compatible c) rs"
    if c: "first_block c \<le> last_block c"
  proof (cases rs rule: remdups_adj.cases)
    case (3 a b rest)
    have sorted: "chunks_sorted (rev rs)"
      using repD(2) [OF rep] by (simp add: rs_def chunks_sorted_filter)
    then have ab: "last_block b < first_block a" "first_block a \<le> last_block a" "first_block b \<le> last_block b"
      and rest: "\<And>x. x \<in> set rest \<Longrightarrow> last_block x < first_block b \<and> first_block x \<le> last_block x"
      using 3 by (auto simp: chunks_sorted_append dest: chunks_sortedD)
    have "a \<in> set rs" using 3 by simp
    then have "last_block a \<le> last_block c + 1" by (simp add: rs_def)
    then have "last_block b < last_block c + 1" using ab by simp
    then have bc: "last_block b \<le> last_block c" using max by simp
    have "compatible c x" if "compatible c b" "x \<in> set rest" for x
      using rest [OF that(2)] by (intro compatible_below [OF c ab(3) _ _ bc that(1) max]) simp_all
    then show ?thesis using 3 by (auto simp: list_all_iff numeral_2_eq_2)
  qed auto
  moreover have "list_all (compatible c) rs \<longleftrightarrow> (\<forall>x\<in>set cs. last_block x \<le> last_block c + 1 \<longrightarrow> compatible c x)"
    by (auto simp: list_all_iff rs_def)
  ultimately show ?thesis by blast
qed

end


section \<open>Properties\<close>

text \<open>
  C16: inserting a fork. When the operation succeeds, the dataset holds exactly the chunks that start
  below the new one, followed by the new one; the new chunk is linked by number and hash to the
  chunk just below it; a chain of chunks stays a chain; the chunks of every other dataset and all
  labels are as before.
\<close>

theorem insert_fork_spec:
  assumes "kv_store R" and "rep R t ds cs" and "first_block c \<le> last_block c"
    and "insert_fork R X t ds c = Inr t'"
  shows "rep R t' ds (kept c cs @ [c]) \<and>
    (chain cs \<longrightarrow> chain (kept c cs @ [c])) \<and>
    (\<forall>d cs'. d \<noteq> ds \<longrightarrow> rep R t d cs' \<longrightarrow> rep R t' d cs') \<and>
    (\<forall>d. kv_get R t' CF_DATASETS d = kv_get R t CF_DATASETS d)"
proof -
  note ins = kv_store.insert_fork_rep [OF assms]
  have "chain cs \<Longrightarrow> chain (kept c cs)"
    using repD(2) [OF assms(2)] by (simp add: kept_prefix chain_take)
  then have "chain cs \<longrightarrow> chain (kept c cs @ [c])" using ins(3) by (simp add: chain_snoc)
  moreover have "rep R t d cs' \<Longrightarrow> d \<noteq> ds \<Longrightarrow> rep R t' d cs'" for d cs'
    using ds_frame_rep [OF ins(2) repD(3) [OF ins(1)]] .
  ultimately show ?thesis using ins(1,2) by (auto simp: ds_frame_def)
qed

theorem insert_fork_spec_witness:
  "\<exists>t'. insert_fork mem_kv \<lparr>block_hash_index = False, transaction_hash_index = False, table_reader = \<lambda>_. Inl TableNotFound\<rparr>
     (kv_put mem_kv [] CF_CHUNKS (chunk_id_for (sid_default 48) (V0 3 9 [1] [2] []))
       (enc_chunk mem_kv (V0 3 9 [1] [2] []))) (sid_default 48) (V0 10 20 [3] [1] []) = Inr t' \<and>
     rep mem_kv t' (sid_default 48) [V0 3 9 [1] [2] [], V0 10 20 [3] [1] []]"
proof -
  let ?t = "kv_put mem_kv [] CF_CHUNKS (chunk_id_for (sid_default 48) (V0 3 9 [1] [2] []))
       (enc_chunk mem_kv (V0 3 9 [1] [2] []))"
  let ?X = "\<lparr>block_hash_index = False, transaction_hash_index = False, table_reader = \<lambda>_. Inl TableNotFound\<rparr>"
  have "sid_ok 48 (sid_default 48)" by code_simp
  then have rep: "rep mem_kv ?t (sid_default 48) [V0 3 9 [1] [2] []]"
    by (intro mem.rep_put [OF mem_rep_empty]) auto
  have ins: "insert_fork mem_kv ?X ?t (sid_default 48) (V0 10 20 [3] [1] []) =
      Inr (write_chunk mem_kv ?t (sid_default 48) (V0 10 20 [3] [1] []))"
    by (simp add: insert_fork_def mem.list_chunks_rev_rep [OF rep] index_hashes_def)
  have "kept (V0 10 20 [3] [1] []) [V0 3 9 [1] [2] []] = [V0 3 9 [1] [2] []]" by (simp add: kept_def)
  with insert_fork_spec [OF mem.kv_store_axioms rep _ ins] ins show ?thesis by simp
qed

text \<open>
  C24: the check before a plain insertion accepts a chunk exactly when it is not empty and agrees with
  every stored chunk that ends at most one block above it: no common block, and linked hashes where
  the two are adjacent. Looking at the two highest of these chunks is enough.
\<close>

theorem validate_chunk_insertion_spec:
  assumes "kv_store R" and "rep R t ds cs" and "last_block c \<noteq> - 1"
  shows "validate_chunk_insertion R t ds c = Inr () \<longleftrightarrow>
    first_block c \<le> last_block c \<and> (\<forall>x\<in>set cs. last_block x \<le> last_block c + 1 \<longrightarrow> compatible c x)"
  using assms by (rule kv_store.validate_chunk_insertion_iff)

theorem validate_chunk_insertion_spec_witness:
  "validate_chunk_insertion mem_kv
     (kv_put mem_kv [] CF_CHUNKS (chunk_id_for (sid_default 48) (V0 3 9 [1] [2] []))
       (enc_chunk mem_kv (V0 3 9 [1] [2] []))) (sid_default 48) (V0 10 20 [3] [1] []) = Inr ()"
proof -
  have "sid_ok 48 (sid_default 48)" by code_simp
  then have rep: "rep mem_kv (kv_put mem_kv [] CF_CHUNKS (chunk_id_for (sid_default 48) (V0 3 9 [1] [2] []))
       (enc_chunk mem_kv (V0 3 9 [1] [2] []))) (sid_default 48) [V0 3 9 [1] [2] []]"
    by (intro mem.rep_put [OF mem_rep_empty]) auto
  show ?thesis
    by (subst validate_chunk_insertion_spec [OF mem.kv_store_axioms rep]) (simp_all add: compatible_def)
qed

text \<open>
  C25: the same check does not see a stored chunk that ends more than one block above the new one: a
  chunk that lies inside a stored chunk is accepted, although the two share blocks.
\<close>

theorem insertion_check_misses_overlap:
  assumes "kv_store R" and "rep R t ds [x]" and "first_block x \<le> first_block c"
    and "first_block c \<le> last_block c" and "last_block c < last_block c + 1" and "last_block c + 1 < last_block x"
  shows "validate_chunk_insertion R t ds c = Inr () \<and> \<not> compatible c x"
proof -
  have "last_block c \<noteq> - 1" using assms(5) by auto
  moreover have "\<not> compatible c x"
    using assms(3-6) disjoint_iff [OF assms(4), of x] by (auto simp: compatible_def)
  ultimately show ?thesis
    using kv_store.validate_chunk_insertion_iff [OF assms(1,2), of c] assms(4,6) by simp
qed

theorem insertion_check_misses_overlap_witness:
  "validate_chunk_insertion mem_kv
     (kv_put mem_kv [] CF_CHUNKS (chunk_id_for (sid_default 48) (V0 0 100 [1] [2] []))
       (enc_chunk mem_kv (V0 0 100 [1] [2] []))) (sid_default 48) (V0 10 20 [3] [1] []) = Inr () \<and>
   \<not> compatible (V0 10 20 [3] [1] []) (V0 0 100 [1] [2] [])"
proof -
  have "sid_ok 48 (sid_default 48)" by code_simp
  then have rep: "rep mem_kv (kv_put mem_kv [] CF_CHUNKS (chunk_id_for (sid_default 48) (V0 0 100 [1] [2] []))
       (enc_chunk mem_kv (V0 0 100 [1] [2] []))) (sid_default 48) [V0 0 100 [1] [2] []]"
    by (intro mem.rep_put [OF mem_rep_empty]) auto
  from insertion_check_misses_overlap [OF mem.kv_store_axioms this, of "V0 10 20 [3] [1] []"]
  show ?thesis by simp
qed

end
