(* ===== verification/HashIndex.thy ===== *)
theory HashIndex
  imports Tx
begin

text \<open>
  The derived hash indexes: lookups of \<open>storage/src/db/read/snapshot.rs\<close> against the entries that
  \<open>Tx::index_hashes\<close> and \<open>Tx::unindex_hashes\<close> (\<open>storage/src/db/write/tx.rs\<close>) stage.
\<close>

section \<open>Lookups\<close>

record transaction_ref =
  tr_block_number :: u64
  tr_transaction_index :: u32
  tr_hash :: bytes

definition has_dataset :: "('t, 'v) kv \<Rightarrow> 't \<Rightarrow> sid \<Rightarrow> bool" where
  "has_dataset R t ds \<longleftrightarrow> kv_get R t CF_DATASETS ds \<noteq> None"

definition get_label :: "('t, 'v) kv \<Rightarrow> 't \<Rightarrow> sid \<Rightarrow> db_err + dataset_label option" where
  "get_label R t ds =
     (case kv_get R t CF_DATASETS ds of
        None \<Rightarrow> Inr None
      | Some v \<Rightarrow> rbind (ok_or (dec_label R v) BadValue) (\<lambda>l. Inr (Some l)))"

definition first_result :: "('e + 'a) list \<Rightarrow> 'e + 'a option" where
  "first_result rs = (case rs of [] \<Rightarrow> Inr None | r # _ \<Rightarrow> rbind r (\<lambda>x. Inr (Some x)))"

definition get_first_chunk :: "('t, 'v) kv \<Rightarrow> 't \<Rightarrow> sid \<Rightarrow> db_err + chunk option" where
  "get_first_chunk R t ds = first_result (list_chunks R t ds 0 None)"

definition get_last_chunk :: "('t, 'v) kv \<Rightarrow> 't \<Rightarrow> sid \<Rightarrow> db_err + chunk option" where
  "get_last_chunk R t ds = first_result (list_chunks_rev R t ds 0 None)"

definition find_block_by_hash :: "('t, 'v) kv \<Rightarrow> 't \<Rightarrow> sid \<Rightarrow> bytes \<Rightarrow> db_err + block_ref option" where
  "find_block_by_hash R t ds hash =
     (if \<not> has_dataset R t ds then Inr None
      else
        case kv_get R t CF_BLOCK_HASHES (hash_index_key ds hash) of
          None \<Rightarrow> Inr None
        | Some v \<Rightarrow>
            rbind (ensure (length (dec_raw R v) = 8) BadIndexValue) (\<lambda>_.
            Inr (Some \<lparr>br_number = word_of_nat (be_nat (dec_raw R v)), br_hash = hash\<rparr>)))"

definition find_transaction_by_hash :: "('t, 'v) kv \<Rightarrow> 't \<Rightarrow> sid \<Rightarrow> bytes \<Rightarrow> db_err + transaction_ref option" where
  "find_transaction_by_hash R t ds hash =
     (if \<not> has_dataset R t ds then Inr None
      else
        case kv_get R t CF_TRANSACTION_HASHES (hash_index_key ds hash) of
          None \<Rightarrow> Inr None
        | Some v \<Rightarrow>
            rbind (ensure (length (dec_raw R v) = 12) BadIndexValue) (\<lambda>_.
            Inr (Some \<lparr>tr_block_number = word_of_nat (be_nat (take 8 (dec_raw R v))),
              tr_transaction_index = word_of_nat (be_nat (drop 8 (dec_raw R v))), tr_hash = hash\<rparr>)))"

section \<open>Staged entries\<close>

lemma for_each_transaction_hash_total:
  assumes "table_ok t" and "transaction_rows t = Some (map (\<lambda>(n, i, h). (n, Inr i, h)) rows)"
  shows "for_each_transaction_hash t (\<lambda>x s. Inr (g x s)) s = Inr (fold g rows s)"
proof -
  have "foldM (\<lambda>(n, i, h) s. rbind i (\<lambda>i. Inr (g (n, i, h) s))) (map (\<lambda>(n, i, h). (n, Inr i, h)) rows) s =
      (Inr (fold g rows s) :: db_err + 'a)"
    by (induction rows arbitrary: s) auto
  then show ?thesis using assms by (simp add: for_each_transaction_hash_iff)
qed

text \<open>The transactions table of a chunk, read at once.\<close>

definition tx_readable :: "tx_ctx \<Rightarrow> chunk \<Rightarrow> (u64 \<times> u32 \<times> bytes) list \<Rightarrow> bool" where
  "tx_readable X c rows \<longleftrightarrow>
     (\<exists>tid tab. get_table c ''transactions'' = Some tid \<and> table_reader X tid = Inr tab \<and>
        table_ok tab \<and> transaction_rows tab = Some (map (\<lambda>(n, i, h). (n, Inr i, h)) rows))"

text \<open>The row that decides the entry of a hash: the last one with that hash.\<close>

definition last_row :: "('r \<Rightarrow> bytes) \<Rightarrow> 'r list \<Rightarrow> bytes \<Rightarrow> 'r option" where
  "last_row hsh rows h = map_of (rev (map (\<lambda>r. (hsh r, r)) rows)) h"

lemma last_row_snoc: "last_row hsh (rows @ [r]) h = (if h = hsh r then Some r else last_row hsh rows h)"
  by (simp add: last_row_def)

lemma last_row_Nil [simp]: "last_row hsh [] h = None"
  by (simp add: last_row_def)

lemma last_row_None: "last_row hsh rows h = None \<longleftrightarrow> h \<notin> hsh ` set rows"
  by (simp add: last_row_def map_of_eq_None_iff image_image)

lemma hash_index_key_eq: "k = hash_index_key ds h \<longleftrightarrow> take (length ds) k = ds \<and> drop (length ds) k = h"
  by (metis append_eq_conv_conj append_take_drop_id hash_index_key_def)

context kv_store
begin

lemma has_hash_entries_iff:
  assumes "sid_ok 48 ds"
  shows "has_hash_entries R t f ds \<longleftrightarrow> (\<exists>h. kv_get R t f (hash_index_key ds h) \<noteq> None)"
proof -
  obtain s e where se: "dataset_range ds = (s, e)" by (cases "dataset_range ds")
  have "prefix_upper_bound ds \<noteq> []"
    using sid_ok_bytes [OF assms] sid_okD [OF assms] by (intro prefix_upper_bound_nonempty) auto
  then have mem: "s \<le> k \<and> k < e \<longleftrightarrow> take (length ds) k = ds" for k
    using prefix_upper_bound_spec [of ds k] se by (auto simp: dataset_range_def)
  have "has_hash_entries R t f ds \<longleftrightarrow> (\<exists>x\<in>set (kv_seek R t f s). fst x < e)"
  proof (cases "kv_seek R t f s")
    case (Cons x xs)
    have "fst x < e" if "y \<in> set (x # xs)" "fst y < e" for y
      using seek_sorted [of t f s] that Cons by (auto intro: order.strict_trans)
    then show ?thesis using Cons by (auto simp: has_hash_entries_def se)
  qed (simp add: has_hash_entries_def se)
  also have "\<dots> \<longleftrightarrow> (\<exists>k v. take (length ds) k = ds \<and> kv_get R t f k = Some v)"
    unfolding mem [symmetric] Bex_def split_paired_Ex seek_set by auto
  also have "\<dots> \<longleftrightarrow> (\<exists>h. kv_get R t f (hash_index_key ds h) \<noteq> None)"
    by (metis hash_index_key_eq not_None_eq)
  finally show ?thesis .
qed

lemma stage_puts:
  "length ds = 48 \<Longrightarrow> take 48 (fst s) = ds \<Longrightarrow>
    snd (fold (\<lambda>r s. (hash_index_set_hash (fst s) (hsh r), kv_put R (snd s) f (hash_index_set_hash (fst s) (hsh r)) (enc r))) rows s) =
      fold (\<lambda>r t. kv_put R t f (hash_index_key ds (hsh r)) (enc r)) rows (snd s)"
  by (induction rows arbitrary: s) (auto simp: set_hash_prefix hash_key_prefix)

lemma stage_deletes:
  "length ds = 48 \<Longrightarrow> take 48 (fst s) = ds \<Longrightarrow>
    snd (fold (\<lambda>r s. (hash_index_set_hash (fst s) (hsh r), kv_delete R (snd s) f (hash_index_set_hash (fst s) (hsh r)))) rows s) =
      fold (\<lambda>r t. kv_delete R t f (hash_index_key ds (hsh r))) rows (snd s)"
  by (induction rows arbitrary: s) (auto simp: set_hash_prefix hash_key_prefix)

lemma get_stage_puts:
  "kv_get R (fold (\<lambda>r t. kv_put R t f (hash_index_key ds (hsh r)) (enc r)) rows t) f' (hash_index_key ds h) =
     (case last_row hsh rows h of
        Some r \<Rightarrow> if f' = f then Some (enc r) else kv_get R t f' (hash_index_key ds h)
      | None \<Rightarrow> kv_get R t f' (hash_index_key ds h))"
  by (induction rows rule: rev_induct) (auto simp: last_row_snoc get_put hash_index_key_def split: option.splits)

lemma get_stage_deletes:
  "kv_get R (fold (\<lambda>r t. kv_delete R t f (hash_index_key ds (hsh r))) rows t) f' (hash_index_key ds h) =
     (if f' = f \<and> h \<in> hsh ` set rows then None else kv_get R t f' (hash_index_key ds h))"
  by (induction rows rule: rev_induct) (auto simp: get_delete hash_index_key_def)

lemma index_block_hashes_get:
  assumes "readable X c rows" and "length ds = 48"
  shows "\<exists>t'. index_block_hashes R X t ds c = Inr t' \<and>
    (\<forall>f h. kv_get R t' f (hash_index_key ds h) =
       (case last_row snd rows h of
          Some r \<Rightarrow> if f = CF_BLOCK_HASHES then Some (enc_raw R (be_bytes 8 (unat (fst r))))
                    else kv_get R t f (hash_index_key ds h)
        | None \<Rightarrow> kv_get R t f (hash_index_key ds h)))"
proof -
  obtain tid tab where t: "get_table c ''blocks'' = Some tid" "table_reader X tid = Inr tab"
    "table_ok tab" "block_rows tab = Some rows"
    using assms(1) by (auto simp: readable_def)
  let ?g = "\<lambda>r s. (hash_index_set_hash (fst s) (snd r),
      kv_put R (snd s) CF_BLOCK_HASHES (hash_index_set_hash (fst s) (snd r)) (enc_raw R (be_bytes 8 (unat (fst r)))))"
  have "index_block_hashes R X t ds c = Inr (snd (fold ?g rows (hash_index_key ds [], t)))"
    using for_each_block_hash_total [OF t(3,4), of ?g "(hash_index_key ds [], t)"]
    by (simp add: index_block_hashes_def t case_prod_unfold Let_def)
  then show ?thesis
    using assms(2) by (simp add: stage_puts hash_key_prefix get_stage_puts)
qed

lemma unindex_block_hashes_get:
  assumes "readable X c rows" and ds: "sid_ok 48 ds"
  shows "\<exists>t'. unindex_block_hashes R X t ds c = Inr t' \<and>
    (\<forall>f h. kv_get R t' f (hash_index_key ds h) =
       (if f = CF_BLOCK_HASHES \<and> h \<in> snd ` set rows then None else kv_get R t f (hash_index_key ds h)))"
proof (cases "has_hash_entries R t CF_BLOCK_HASHES ds")
  case True
  obtain tid tab where t: "get_table c ''blocks'' = Some tid" "table_reader X tid = Inr tab"
    "table_ok tab" "block_rows tab = Some rows"
    using assms(1) by (auto simp: readable_def)
  let ?g = "\<lambda>r s. (hash_index_set_hash (fst s) (snd r), kv_delete R (snd s) CF_BLOCK_HASHES (hash_index_set_hash (fst s) (snd r)))"
  have "unindex_block_hashes R X t ds c = Inr (snd (fold ?g rows (hash_index_key ds [], t)))"
    using for_each_block_hash_total [OF t(3,4), of ?g "(hash_index_key ds [], t)"] True
    by (simp add: unindex_block_hashes_def t case_prod_unfold Let_def)
  then show ?thesis
    using sid_okD [OF ds] by (simp add: stage_deletes hash_key_prefix get_stage_deletes)
next
  case False
  then have "kv_get R t CF_BLOCK_HASHES (hash_index_key ds h) = None" for h
    using has_hash_entries_iff [OF ds] by blast
  then show ?thesis using False by (simp add: unindex_block_hashes_def)
qed

lemma index_transaction_hashes_get:
  assumes "tx_readable X c rows" and "length ds = 48"
  shows "\<exists>t'. index_transaction_hashes R X t ds c = Inr t' \<and>
    (\<forall>f h. kv_get R t' f (hash_index_key ds h) =
       (case last_row (snd \<circ> snd) rows h of
          Some r \<Rightarrow> if f = CF_TRANSACTION_HASHES
                    then Some (enc_raw R (encode_transaction_position (fst r) (fst (snd r))))
                    else kv_get R t f (hash_index_key ds h)
        | None \<Rightarrow> kv_get R t f (hash_index_key ds h)))"
proof -
  obtain tid tab where t: "get_table c ''transactions'' = Some tid" "table_reader X tid = Inr tab"
    "table_ok tab" "transaction_rows tab = Some (map (\<lambda>(n, i, h). (n, Inr i, h)) rows)"
    using assms(1) by (auto simp: tx_readable_def)
  let ?g = "\<lambda>r s. (hash_index_set_hash (fst s) ((snd \<circ> snd) r),
      kv_put R (snd s) CF_TRANSACTION_HASHES (hash_index_set_hash (fst s) ((snd \<circ> snd) r))
        (enc_raw R (encode_transaction_position (fst r) (fst (snd r)))))"
  have "index_transaction_hashes R X t ds c = Inr (snd (fold ?g rows (hash_index_key ds [], t)))"
    using for_each_transaction_hash_total [OF t(3,4), of ?g "(hash_index_key ds [], t)"]
    by (simp add: index_transaction_hashes_def t case_prod_unfold Let_def)
  then show ?thesis
    using assms(2) by (simp add: stage_puts hash_key_prefix get_stage_puts del: o_apply)
qed

lemma unindex_transaction_hashes_get:
  assumes "tx_readable X c rows" and ds: "sid_ok 48 ds"
  shows "\<exists>t'. unindex_transaction_hashes R X t ds c = Inr t' \<and>
    (\<forall>f h. kv_get R t' f (hash_index_key ds h) =
       (if f = CF_TRANSACTION_HASHES \<and> h \<in> (snd \<circ> snd) ` set rows then None
        else kv_get R t f (hash_index_key ds h)))"
proof (cases "has_hash_entries R t CF_TRANSACTION_HASHES ds")
  case True
  obtain tid tab where t: "get_table c ''transactions'' = Some tid" "table_reader X tid = Inr tab"
    "table_ok tab" "transaction_rows tab = Some (map (\<lambda>(n, i, h). (n, Inr i, h)) rows)"
    using assms(1) by (auto simp: tx_readable_def)
  let ?g = "\<lambda>r s. (hash_index_set_hash (fst s) ((snd \<circ> snd) r),
      kv_delete R (snd s) CF_TRANSACTION_HASHES (hash_index_set_hash (fst s) ((snd \<circ> snd) r)))"
  have "unindex_transaction_hashes R X t ds c = Inr (snd (fold ?g rows (hash_index_key ds [], t)))"
    using for_each_transaction_hash_total [OF t(3,4), of ?g "(hash_index_key ds [], t)"] True
    by (simp add: unindex_transaction_hashes_def t case_prod_unfold Let_def)
  then show ?thesis
    using sid_okD [OF ds] by (simp add: stage_deletes hash_key_prefix get_stage_deletes del: o_apply)
next
  case False
  then have "kv_get R t CF_TRANSACTION_HASHES (hash_index_key ds h) = None" for h
    using has_hash_entries_iff [OF ds] by blast
  then show ?thesis using False by (simp add: unindex_transaction_hashes_def)
qed

lemma find_block_by_hash_raw:
  "has_dataset R t ds \<Longrightarrow> kv_get R t CF_BLOCK_HASHES (hash_index_key ds h) = Some (enc_raw R (be_bytes 8 (unat n))) \<Longrightarrow>
    find_block_by_hash R t ds h = Inr (Some \<lparr>br_number = n, br_hash = h\<rparr>)"
  using be_nat_bytes [OF unat_u64_less, of n] by (simp add: find_block_by_hash_def dec_enc_raw)

lemma find_transaction_by_hash_raw:
  "has_dataset R t ds \<Longrightarrow>
    kv_get R t CF_TRANSACTION_HASHES (hash_index_key ds h) = Some (enc_raw R (encode_transaction_position n i)) \<Longrightarrow>
    find_transaction_by_hash R t ds h =
      Inr (Some \<lparr>tr_block_number = n, tr_transaction_index = i, tr_hash = h\<rparr>)"
  using be_nat_bytes [OF unat_u64_less, of n] be_nat_bytes [OF unat_u32_less, of i]
  by (simp add: find_transaction_by_hash_def dec_enc_raw encode_transaction_position_def)

lemma index_hashes_lookups:
  assumes ds: "sid_ok 48 ds"
    and label: "find_label_for_update R t ds = Inr (Some l)" and kind: "is_indexed_kind (kind l)"
    and flags: "block_hash_index X" "transaction_hash_index X"
    and rows: "readable X c rows" "tx_readable X c trows"
  obtains t' where "index_hashes R X t ds c = Inr t'"
    "\<And>h. find_block_by_hash R t' ds h =
       (case last_row snd rows h of
          Some r \<Rightarrow> Inr (Some \<lparr>br_number = fst r, br_hash = h\<rparr>)
        | None \<Rightarrow> find_block_by_hash R t ds h)"
    "\<And>h. find_transaction_by_hash R t' ds h =
       (case last_row (snd \<circ> snd) trows h of
          Some r \<Rightarrow> Inr (Some \<lparr>tr_block_number = fst r, tr_transaction_index = fst (snd r), tr_hash = h\<rparr>)
        | None \<Rightarrow> find_transaction_by_hash R t ds h)"
proof -
  note d48 = sid_okD [OF ds]
  obtain t1 where t1: "index_block_hashes R X t ds c = Inr t1"
    and g1: "\<And>f h. kv_get R t1 f (hash_index_key ds h) =
       (case last_row snd rows h of
          Some r \<Rightarrow> if f = CF_BLOCK_HASHES then Some (enc_raw R (be_bytes 8 (unat (fst r))))
                    else kv_get R t f (hash_index_key ds h)
        | None \<Rightarrow> kv_get R t f (hash_index_key ds h))"
    using index_block_hashes_get [OF rows(1) d48] by blast
  obtain t2 where t2: "index_transaction_hashes R X t1 ds c = Inr t2"
    and g2: "\<And>f h. kv_get R t2 f (hash_index_key ds h) =
       (case last_row (snd \<circ> snd) trows h of
          Some r \<Rightarrow> if f = CF_TRANSACTION_HASHES
                    then Some (enc_raw R (encode_transaction_position (fst r) (fst (snd r))))
                    else kv_get R t1 f (hash_index_key ds h)
        | None \<Rightarrow> kv_get R t1 f (hash_index_key ds h))"
    using index_transaction_hashes_get [OF rows(2) d48] by blast
  have run: "index_hashes R X t ds c = Inr t2"
    using label kind flags t1 t2 by (simp add: index_hashes_def)
  have has: "has_dataset R t ds"
    using label by (auto simp: find_label_for_update_def has_dataset_def split: option.splits)
  then have has': "has_dataset R t2 ds"
    using hash_frame_get [OF index_hashes_frame [OF run d48], of CF_DATASETS] by (simp add: has_dataset_def)
  show thesis
  proof (rule that [OF run])
    fix h
    show "find_block_by_hash R t2 ds h =
       (case last_row snd rows h of
          Some r \<Rightarrow> Inr (Some \<lparr>br_number = fst r, br_hash = h\<rparr>)
        | None \<Rightarrow> find_block_by_hash R t ds h)"
    proof (cases "last_row snd rows h")
      case None
      then have "kv_get R t2 CF_BLOCK_HASHES (hash_index_key ds h) = kv_get R t CF_BLOCK_HASHES (hash_index_key ds h)"
        by (simp add: g1 g2 split: option.splits)
      then show ?thesis using None has has' by (simp add: find_block_by_hash_def)
    next
      case (Some r)
      then have "kv_get R t2 CF_BLOCK_HASHES (hash_index_key ds h) = Some (enc_raw R (be_bytes 8 (unat (fst r))))"
        by (simp add: g1 g2 split: option.splits)
      from find_block_by_hash_raw [OF has' this] Some show ?thesis by simp
    qed
    show "find_transaction_by_hash R t2 ds h =
       (case last_row (snd \<circ> snd) trows h of
          Some r \<Rightarrow> Inr (Some \<lparr>tr_block_number = fst r, tr_transaction_index = fst (snd r), tr_hash = h\<rparr>)
        | None \<Rightarrow> find_transaction_by_hash R t ds h)"
    proof (cases "last_row (snd \<circ> snd) trows h")
      case None
      then have "kv_get R t2 CF_TRANSACTION_HASHES (hash_index_key ds h) =
          kv_get R t CF_TRANSACTION_HASHES (hash_index_key ds h)"
        by (simp add: g1 g2 split: option.splits)
      then show ?thesis using None has has' by (simp add: find_transaction_by_hash_def)
    next
      case (Some r)
      then have "kv_get R t2 CF_TRANSACTION_HASHES (hash_index_key ds h) =
          Some (enc_raw R (encode_transaction_position (fst r) (fst (snd r))))"
        by (simp add: g2)
      from find_transaction_by_hash_raw [OF has' this] Some show ?thesis by simp
    qed
  qed
qed

end


section \<open>Properties\<close>

text \<open>
  C20: after the hashes of a chunk are indexed, with both indexes enabled on an indexed dataset, every
  block hash of the chunk resolves to its block number and every transaction hash to its block number
  and index (the last row wins when a hash repeats); all other hashes resolve as before.
\<close>

theorem index_hashes_spec:
  assumes "kv_store R" and "sid_ok 48 ds"
    and "find_label_for_update R t ds = Inr (Some l)" and "is_indexed_kind (kind l)"
    and "block_hash_index X" and "transaction_hash_index X"
    and "readable X c rows" and "tx_readable X c trows"
  shows "\<exists>t'. index_hashes R X t ds c = Inr t' \<and>
    (\<forall>h. find_block_by_hash R t' ds h =
       (case last_row snd rows h of
          Some r \<Rightarrow> Inr (Some \<lparr>br_number = fst r, br_hash = h\<rparr>)
        | None \<Rightarrow> find_block_by_hash R t ds h)) \<and>
    (\<forall>h. find_transaction_by_hash R t' ds h =
       (case last_row (snd \<circ> snd) trows h of
          Some r \<Rightarrow> Inr (Some \<lparr>tr_block_number = fst r, tr_transaction_index = fst (snd r), tr_hash = h\<rparr>)
        | None \<Rightarrow> find_transaction_by_hash R t ds h))"
  by (rule kv_store.index_hashes_lookups [OF assms], intro exI conjI allI; assumption?)

definition index_reader :: "table_id \<Rightarrow> db_err + table" where
  "index_reader tid =
     (if tid = [1] then Inr \<lparr>num_rows = 1, columns = [(''number'', UInt64 [(4, True)]), (''hash'', Utf8 [([8], True)])]\<rparr>
      else Inr \<lparr>num_rows = 1, columns = [(''block_number'', UInt64 [(4, True)]),
        (''transaction_index'', UInt16 [(2, True)]), (''hash'', Utf8 [([9], True)])]\<rparr>)"

definition index_ctx :: tx_ctx where
  "index_ctx = \<lparr>block_hash_index = True, transaction_hash_index = True, table_reader = index_reader\<rparr>"

definition index_chunk :: chunk where
  "index_chunk = V0 4 4 [8] [7] [(''blocks'', [1]), (''transactions'', [2])]"

definition index_label :: dataset_label where
  "index_label = LabelV0 (sid_pad 16 [101, 118, 109]) 0 None"

lemma index_example:
  "readable index_ctx index_chunk [(4, [8])]" "tx_readable index_ctx index_chunk [(4, 2, [9])]"
  "is_indexed_kind (kind index_label)"
  "find_label_for_update mem_kv (write_label mem_kv [] (sid_default 48) index_label) (sid_default 48) = Inr (Some index_label)"
proof -
  show "readable index_ctx index_chunk [(4, [8])]"
    by (simp add: readable_def index_ctx_def index_chunk_def get_table_def index_reader_def
        table_ok_def block_rows_def ensure_number_type_def ensure_utf8_type_def)
  show "tx_readable index_ctx index_chunk [(4, 2, [9])]"
    by (simp add: tx_readable_def index_ctx_def index_chunk_def get_table_def index_reader_def
        table_ok_def transaction_rows_def ensure_number_type_def ensure_index_type_def ensure_utf8_type_def)
  show "is_indexed_kind (kind index_label)"
    by (simp add: is_indexed_kind_def index_label_def sid_try_from_str_def is_valid_byte_def)
  show "find_label_for_update mem_kv (write_label mem_kv [] (sid_default 48) index_label) (sid_default 48) =
      Inr (Some index_label)"
    by (simp add: find_label_for_update_def write_label_def mem.get_put mem.dec_enc_label)
qed

theorem index_hashes_spec_witness:
  "\<exists>t'. index_hashes mem_kv index_ctx (write_label mem_kv [] (sid_default 48) index_label) (sid_default 48) index_chunk = Inr t' \<and>
     find_block_by_hash mem_kv t' (sid_default 48) [8] = Inr (Some \<lparr>br_number = 4, br_hash = [8]\<rparr>) \<and>
     find_transaction_by_hash mem_kv t' (sid_default 48) [9] =
       Inr (Some \<lparr>tr_block_number = 4, tr_transaction_index = 2, tr_hash = [9]\<rparr>)"
proof -
  have "sid_ok 48 (sid_default 48)" by code_simp
  moreover have "block_hash_index index_ctx" "transaction_hash_index index_ctx" by (simp_all add: index_ctx_def)
  moreover have "last_row snd [(4 :: u64, [8])] [8] = Some (4, [8])"
    "last_row (snd \<circ> snd) [(4 :: u64, 2 :: u32, [9])] [9] = Some (4, 2, [9])"
    by (simp_all add: last_row_def)
  ultimately show ?thesis
    using index_hashes_spec [OF mem.kv_store_axioms _ index_example(4,3) _ _ index_example(1,2)] by fastforce
qed

text \<open>
  C21: after the hashes of a chunk are removed from the indexes, none of its block and transaction
  hashes resolves any more and all other hashes of the dataset resolve as before, whether or not the
  indexes are enabled and whether or not the chunk was ever indexed.
\<close>

theorem unindex_hashes_spec:
  assumes "kv_store R" and "sid_ok 48 ds" and "readable X c rows" and "tx_readable X c trows"
  shows "\<exists>t'. unindex_hashes R X t ds c = Inr t' \<and>
    (\<forall>h. find_block_by_hash R t' ds h =
       (if h \<in> snd ` set rows then Inr None else find_block_by_hash R t ds h)) \<and>
    (\<forall>h. find_transaction_by_hash R t' ds h =
       (if h \<in> (snd \<circ> snd) ` set trows then Inr None else find_transaction_by_hash R t ds h))"
proof -
  obtain t1 where t1: "unindex_block_hashes R X t ds c = Inr t1"
    and g1: "\<And>f h. kv_get R t1 f (hash_index_key ds h) =
       (if f = CF_BLOCK_HASHES \<and> h \<in> snd ` set rows then None else kv_get R t f (hash_index_key ds h))"
    using kv_store.unindex_block_hashes_get [OF assms(1,3,2)] by blast
  obtain t2 where t2: "unindex_transaction_hashes R X t1 ds c = Inr t2"
    and g2: "\<And>f h. kv_get R t2 f (hash_index_key ds h) =
       (if f = CF_TRANSACTION_HASHES \<and> h \<in> (snd \<circ> snd) ` set trows then None else kv_get R t1 f (hash_index_key ds h))"
    using kv_store.unindex_transaction_hashes_get [OF assms(1,4,2)] by blast
  have run: "unindex_hashes R X t ds c = Inr t2" by (simp add: unindex_hashes_def t1 t2)
  then have "has_dataset R t2 ds = has_dataset R t ds"
    using hash_frame_get [OF kv_store.unindex_hashes_frame [OF assms(1) run sid_okD [OF assms(2)]], of CF_DATASETS]
    by (simp add: has_dataset_def)
  then show ?thesis
    using run by (auto simp: find_block_by_hash_def find_transaction_by_hash_def g1 g2 simp del: o_apply)
qed

theorem unindex_hashes_spec_witness:
  "\<exists>t'. unindex_hashes mem_kv index_ctx (write_label mem_kv [] (sid_default 48) index_label) (sid_default 48) index_chunk = Inr t' \<and>
     find_block_by_hash mem_kv t' (sid_default 48) [8] = Inr None"
proof -
  have "sid_ok 48 (sid_default 48)" by code_simp
  then show ?thesis
    using unindex_hashes_spec [OF mem.kv_store_axioms _ index_example(1,2)] by fastforce
qed

end
