(* ===== verification/TxRun.thy ===== *)
theory TxRun
  imports Store
begin

unbundle bit_operations_syntax

text \<open>
  The optimistic commit loop of a storage transaction and its retry policy
  (\<open>RetryPolicy\<close>, \<open>jitter\<close> and \<open>Tx::run\<close> in \<open>storage/src/db/write/tx.rs\<close>). Durations
  are nanoseconds. What each attempt meets (the commits of other writers before it, the outcome of
  its commit, the clock and the jitter state) is the record \<open>attempt\<close>, given for every attempt
  number. The telemetry counters are not modelled.
\<close>

section \<open>Backoff\<close>

definition jitter_next :: "u64 \<Rightarrow> u64" where
  "jitter_next state =
     (if state = 0 then 0x9E3779B97F4A7C15
      else
        let x = state XOR drop_bit 12 state;
            x = x XOR push_bit 25 x;
            x = x XOR drop_bit 27 x
        in x * 0x2545F4914F6CDD1D)"

text \<open>One draw: the duration and the new generator state.\<close>

definition jitter :: "nat \<Rightarrow> u64 \<Rightarrow> nat \<times> u64" where
  "jitter bound state =
     (let nxt = jitter_next state;
          bound_ns = min bound (2 ^ 64 - 1)
      in (if bound_ns = 0 then 0 else unat nxt mod bound_ns, nxt))"

record retry_policy =
  max_attempts :: nat
  deadline :: nat
  base_backoff :: nat
  max_backoff :: nat

definition default_policy :: retry_policy where
  "default_policy = \<lparr>max_attempts = 8, deadline = 30000000000, base_backoff = 10000000, max_backoff = 1000000000\<rparr>"

definition with_max_attempts :: "nat \<Rightarrow> retry_policy \<Rightarrow> retry_policy" where
  "with_max_attempts n p = p\<lparr>max_attempts := max n 1\<rparr>"

text \<open>\<open>Duration::MAX\<close>, at which \<open>saturating_mul\<close> stops.\<close>

definition DURATION_MAX :: nat where
  "DURATION_MAX = (2 ^ 64 - 1) * 1000000000 + 999999999"

definition backoff_cap :: "retry_policy \<Rightarrow> nat \<Rightarrow> nat" where
  "backoff_cap p retry =
     (let factor = (if retry < 32 then 2 ^ retry else 2 ^ 32 - 1);
          e = min (base_backoff p * factor) DURATION_MAX
      in min e (max_backoff p))"

definition backoff :: "retry_policy \<Rightarrow> nat \<Rightarrow> u64 \<Rightarrow> nat \<times> u64" where
  "backoff p retry state = jitter (backoff_cap p retry) state"

section \<open>The commit loop\<close>

datatype commit_outcome = Committed | Conflict | CommitErr

record 't attempt =
  interfere :: "'t \<Rightarrow> 't"
  outcome :: commit_outcome
  at_commit :: nat
  at_backoff :: nat
  after_sleep :: "nat \<Rightarrow> nat"
  jitter_state :: u64

function run_loop ::
  "retry_policy \<Rightarrow> (nat \<Rightarrow> 't attempt) \<Rightarrow> ('t \<Rightarrow> db_err + 'r \<times> 't) \<Rightarrow> nat \<Rightarrow> 't \<Rightarrow> (db_err + 'r) \<times> 't" where
  "run_loop p env cb n db =
     (let attempt = Suc n;
          a = env attempt;
          db = interfere a db
      in case cb db of
           Inl e \<Rightarrow> (Inl e, db)
         | Inr (r, staged) \<Rightarrow>
             (case outcome a of
                Committed \<Rightarrow> (Inr r, staged)
              | CommitErr \<Rightarrow> (Inl CommitFailed, db)
              | Conflict \<Rightarrow>
                  let deadline_hit = deadline p \<le> at_commit a;
                      budget_left = attempt < max_attempts p \<and> \<not> deadline_hit
                  in if \<not> budget_left
                     then (Inl (RetryExhausted attempt (if deadline_hit then DeadlineBeforeBackoff else AttemptsExhausted)), db)
                     else
                       let sleep = min (fst (backoff p (attempt - 1) (jitter_state a))) (deadline p - at_backoff a)
                       in if deadline p \<le> after_sleep a sleep
                          then (Inl (RetryExhausted attempt DeadlineAfterBackoff), db)
                          else run_loop p env cb attempt db))"
  by pat_completeness auto
termination
  by (relation "measure (\<lambda>(p, env, cb, n, db). max_attempts p - n)") auto

declare run_loop.simps [simp del]

definition tx_run ::
  "retry_policy \<Rightarrow> (nat \<Rightarrow> 't attempt) \<Rightarrow> ('t \<Rightarrow> db_err + 'r \<times> 't) \<Rightarrow> 't \<Rightarrow> (db_err + 'r) \<times> 't" where
  "tx_run p env cb db = run_loop p env cb 0 db"

text \<open>The committed state that attempt \<open>k\<close> starts from: only other writers have changed it.\<close>

primrec seen_by :: "(nat \<Rightarrow> 't attempt) \<Rightarrow> nat \<Rightarrow> 't \<Rightarrow> 't" where
  "seen_by env 0 db = db"
| "seen_by env (Suc k) db = interfere (env (Suc k)) (seen_by env k db)"

text \<open>Attempt \<open>k\<close> is the last one and accounts for the result.\<close>

definition run_post where
  "run_post p env cb db k res \<longleftrightarrow>
     (case fst res of
        Inr r \<Rightarrow> outcome (env k) = Committed \<and> cb (seen_by env k db) = Inr (r, snd res)
      | Inl e \<Rightarrow>
          snd res = seen_by env k db \<and>
          (cb (seen_by env k db) = Inl e \<or>
           outcome (env k) = CommitErr \<and> e = CommitFailed \<or>
           outcome (env k) = Conflict \<and>
             (k \<ge> max_attempts p \<and> e = RetryExhausted k AttemptsExhausted \<or>
              deadline p \<le> at_commit (env k) \<and> e = RetryExhausted k DeadlineBeforeBackoff \<or>
              (\<exists>s. s \<le> max_backoff p \<and> deadline p \<le> after_sleep (env k) s) \<and> e = RetryExhausted k DeadlineAfterBackoff)))"

section \<open>Lemmas\<close>

lemma xor_drop_bit_eq_0:
  assumes "0 < n" and "x XOR drop_bit n x = 0"
  shows "x = (0 :: u64)"
proof -
  have step: "bit x i \<longleftrightarrow> bit x (n + i)" if "i < 64" for i
    using that assms(2) by (auto simp: bit_eq_iff bit_xor_iff bit_drop_bit_eq)
  have "\<not> bit x i" for i
  proof (induction "64 - i" arbitrary: i rule: less_induct)
    case less
    show ?case
    proof (cases "i < 64")
      case True
      then show ?thesis using less [of "n + i"] step [OF True] assms(1) by simp
    next
      case False
      then show ?thesis by (auto dest: bit_imp_le_length)
    qed
  qed
  then show ?thesis by (simp add: bit_eq_iff)
qed

lemma xor_push_bit_eq_0:
  assumes "0 < n" and "x XOR push_bit n x = 0"
  shows "x = (0 :: u64)"
proof -
  have step: "bit x i \<longleftrightarrow> n \<le> i \<and> bit x (i - n)" if "i < 64" for i
  proof -
    have "\<not> bit (x XOR push_bit n x) i" using assms(2) by simp
    then show ?thesis using that by (simp add: bit_simps)
  qed
  have "\<not> bit x i" for i
  proof (induction i rule: less_induct)
    case (less i)
    show ?case
    proof (cases "i < 64 \<and> n \<le> i")
      case True
      then show ?thesis using less [of "i - n"] step [of i] assms(1) by simp
    next
      case False
      then show ?thesis using step [of i] bit_imp_le_length [of x i] by auto
    qed
  qed
  then show ?thesis by (simp add: bit_eq_iff)
qed

lemma jitter_next_nonzero: "jitter_next state \<noteq> 0"
proof (cases "state = 0")
  case False
  define a where "a = state XOR drop_bit 12 state"
  define b where "b = a XOR push_bit 25 a"
  define c where "c = b XOR drop_bit 27 b"
  have "c \<noteq> 0"
    using False xor_drop_bit_eq_0 [of 12 state] xor_push_bit_eq_0 [of 25 a] xor_drop_bit_eq_0 [of 27 b]
    by (auto simp: a_def b_def c_def)
  moreover have inv: "(0x2545F4914F6CDD1D :: u64) * 6415128727920758069 = 1" by code_simp
  have "c * 0x2545F4914F6CDD1D * 6415128727920758069 = c" by (simp only: mult.assoc inv mult_1_right)
  ultimately have "c * 0x2545F4914F6CDD1D \<noteq> 0" by (metis mult_zero_left)
  then show ?thesis using False by (simp add: jitter_next_def Let_def a_def b_def c_def)
qed (simp add: jitter_next_def)

lemma jitter_le: "fst (jitter bound state) \<le> bound"
proof -
  define b :: nat where "b = min bound (2 ^ 64 - 1)"
  have "fst (jitter bound state) = (if b = 0 then 0 else unat (jitter_next state) mod b)"
    unfolding jitter_def Let_def b_def [symmetric] by simp
  also have "\<dots> \<le> b" by (simp add: less_imp_le_nat)
  also have "\<dots> \<le> bound" by (simp add: b_def)
  finally show ?thesis .
qed

lemma backoff_le: "fst (backoff p retry state) \<le> max_backoff p"
  unfolding backoff_def using jitter_le [of "backoff_cap p retry" state] by (simp add: backoff_cap_def Let_def)

lemma run_loop_post:
  "\<exists>k. n < k \<and> k \<le> max (Suc n) (max_attempts p) \<and> (\<forall>j\<in>{Suc n..<k}. outcome (env j) = Conflict) \<and>
     run_post p env cb db k (run_loop p env cb n (seen_by env n db))"
proof (induction "max_attempts p - n" arbitrary: n rule: less_induct)
  case less
  let ?k = "Suc n" and ?a = "env (Suc n)" and ?db = "seen_by env (Suc n) db"
  show ?case
  proof (cases "\<exists>r staged. cb ?db = Inr (r, staged) \<and> outcome ?a = Conflict \<and> ?k < max_attempts p \<and>
      \<not> deadline p \<le> at_commit ?a \<and>
      \<not> deadline p \<le> after_sleep ?a (min (fst (backoff p n (jitter_state ?a))) (deadline p - at_backoff ?a))")
    case True
    then have eq: "run_loop p env cb n (seen_by env n db) = run_loop p env cb ?k ?db"
      by (subst run_loop.simps) (auto simp: Let_def)
    have "max_attempts p - ?k < max_attempts p - n" using True by auto
    from less [OF this] obtain k where k: "?k < k" "k \<le> max (Suc ?k) (max_attempts p)"
      "\<forall>j\<in>{Suc ?k..<k}. outcome (env j) = Conflict" "run_post p env cb db k (run_loop p env cb ?k ?db)" by blast
    moreover have "outcome (env j) = Conflict" if "j \<in> {?k..<k}" for j
      using that k(3) True by (cases "j = ?k") auto
    ultimately show ?thesis using True unfolding eq by (intro exI [of _ k]) auto
  next
    case False
    have "min (fst (backoff p n (jitter_state ?a))) (deadline p - at_backoff ?a) \<le> max_backoff p"
      using backoff_le by (meson min.cobounded1 order_trans)
    then have "run_post p env cb db ?k (run_loop p env cb n (seen_by env n db))"
      using False
      by (subst run_loop.simps) (auto simp: Let_def run_post_def split: sum.splits commit_outcome.splits)
    then show ?thesis by (intro exI [of _ ?k]) auto
  qed
qed


lemma tx_run_committed:
  assumes "tx_run p env cb db = (Inr r, db')"
  obtains k where "1 \<le> k" "cb (seen_by env k db) = Inr (r, db')"
  using run_loop_post [of 0 p env cb db] assms by (auto simp: tx_run_def run_post_def Suc_le_eq)

lemma tx_run_failed:
  assumes "tx_run p env cb db = (Inl e, db')"
  obtains k where "1 \<le> k" "db' = seen_by env k db"
  using run_loop_post [of 0 p env cb db] assms by (auto simp: tx_run_def run_post_def Suc_le_eq)

section \<open>Properties\<close>

text \<open>
  C19: a transaction run ends after at most \<open>max_attempts\<close> attempts (at least one). Every
  attempt but the last met a commit conflict. It reports success only when its last attempt
  committed, with the callback's result on the state that attempt started from; otherwise it leaves
  exactly what other writers committed, and reports the callback's error, the commit error, or an
  exhausted budget with the bound that was hit.
\<close>

theorem tx_run_spec:
  "\<exists>k. 1 \<le> k \<and> k \<le> max 1 (max_attempts p) \<and> (\<forall>j\<in>{1..<k}. outcome (env j) = Conflict) \<and>
     run_post p env cb db k (tx_run p env cb db)"
  using run_loop_post [of 0 p env cb db] by (auto simp: tx_run_def Suc_le_eq)

definition example_env :: "nat \<Rightarrow> nat attempt" where
  "example_env k =
     \<lparr>interfere = (\<lambda>n. n + 1), outcome = (if k = 1 then Conflict else Committed), at_commit = k, at_backoff = k,
      after_sleep = (\<lambda>s. 100), jitter_state = 1\<rparr>"

theorem tx_run_spec_witness:
  "tx_run default_policy example_env (\<lambda>n. Inr (n, 10 * n)) 5 = (Inr 7, 70) \<and>
   (\<exists>k. 1 \<le> k \<and> k \<le> 8 \<and> (\<forall>j\<in>{1..<k}. outcome (example_env j) = Conflict) \<and>
      run_post default_policy example_env (\<lambda>n. Inr (n, 10 * n)) 5 k (Inr 7, 70))"
proof -
  have "tx_run default_policy example_env (\<lambda>n. Inr (n, 10 * n)) 5 = (Inr 7, 70)"
    unfolding tx_run_def
    by (subst run_loop.simps, simp add: example_env_def default_policy_def Let_def)
      (subst run_loop.simps, simp add: example_env_def default_policy_def Let_def)
  with tx_run_spec [of default_policy example_env "\<lambda>n. Inr (n, 10 * n)" 5]
  show ?thesis by (simp add: default_policy_def)
qed

text \<open>
  The sleep before a retry never exceeds the policy's cap, and the jitter generator never reaches
  zero, from which it could not leave.
\<close>

theorem backoff_bounded:
  "fst (backoff p retry state) \<le> max_backoff p \<and> snd (backoff p retry state) \<noteq> 0"
  using backoff_le jitter_next_nonzero by (simp add: backoff_def jitter_def Let_def)

end
