(* ===== verification/Database.thy ===== *)
theory Database
  imports HashIndex TxRun
begin

text \<open>
  The database operations (\<open>storage/src/db/db.rs\<close>) and the maintenance passes
  (\<open>storage/src/db/write/ops.rs\<close>): dataset creation and removal, dataset updates, the purge of
  hash indexes and of deleted tables, crash recovery and the bounds of disk reclaim. The state is the
  committed state of the key-value engine; every transaction goes through \<open>tx_run\<close>.
\<close>

section \<open>Purges\<close>

definition write_deletes :: "('t, 'v) kv \<Rightarrow> cf \<Rightarrow> bytes list \<Rightarrow> 't \<Rightarrow> 't" where
  "write_deletes R f ks t = fold (\<lambda>k t. kv_delete R t f k) ks t"

definition PURGE_BATCH_SIZE :: nat where
  "PURGE_BATCH_SIZE = 10000"

fun purge_loop :: "('t, 'v) kv \<Rightarrow> cf \<Rightarrow> bytes list \<Rightarrow> bytes list \<Rightarrow> 't \<Rightarrow> 't" where
  "purge_loop R f batch [] t = (if batch \<noteq> [] then write_deletes R f batch t else t)"
| "purge_loop R f batch (k # ks) t =
     (let batch = batch @ [k] in
      if PURGE_BATCH_SIZE \<le> length batch then purge_loop R f [] ks (write_deletes R f batch t)
      else purge_loop R f batch ks t)"

text \<open>The keys that a cursor yields between a start key and an upper bound.\<close>

definition keys_between :: "('t, 'v) kv \<Rightarrow> 't \<Rightarrow> cf \<Rightarrow> bytes \<Rightarrow> bytes \<Rightarrow> bytes list" where
  "keys_between R t f start end_key = takeWhile (\<lambda>k. k < end_key) (map fst (kv_seek R t f start))"

definition purge_hash_index :: "('t, 'v) kv \<Rightarrow> cf \<Rightarrow> sid \<Rightarrow> 't \<Rightarrow> 't" where
  "purge_hash_index R f ds t =
     (let (start, end_key) = dataset_range ds in
      purge_loop R f [] (keys_between R t f start end_key) t)"

definition purge_hash_indexes :: "('t, 'v) kv \<Rightarrow> sid \<Rightarrow> 't \<Rightarrow> 't" where
  "purge_hash_indexes R ds t =
     purge_hash_index R CF_TRANSACTION_HASHES ds (purge_hash_index R CF_BLOCK_HASHES ds t)"

definition purge_stale_hash_indexes_if_dataset_absent :: "('t, 'v) kv \<Rightarrow> sid \<Rightarrow> 't \<Rightarrow> 't" where
  "purge_stale_hash_indexes_if_dataset_absent R ds t =
     (if \<not> has_dataset R t ds then purge_hash_indexes R ds t else t)"

section \<open>Table maintenance\<close>

definition scan_table_ids :: "('t, 'v) kv \<Rightarrow> 't \<Rightarrow> cf \<Rightarrow> table_id list \<times> bytes list" where
  "scan_table_ids R t f =
     (let ks = map fst (kv_seek R t f [])
      in (List.map_filter table_id_try_from_key ks, filter (\<lambda>k. table_id_try_from_key k = None) ks))"

definition drop_malformed_keys :: "('t, 'v) kv \<Rightarrow> cf \<Rightarrow> bytes list \<Rightarrow> 't \<Rightarrow> 't" where
  "drop_malformed_keys R f ks t = (if ks = [] then t else write_deletes R f ks t)"

definition purge_table :: "('t, 'v) kv \<Rightarrow> table_id \<Rightarrow> 't \<Rightarrow> 't" where
  "purge_table R tid t =
     (let ks = keys_between R t CF_TABLES (table_key_start tid) (table_key_end tid);
          t = write_deletes R CF_TABLES ks t;
          t = kv_delete R t CF_DELETED_TABLES tid
      in kv_delete R t CF_DIRTY_TABLES tid)"

definition logical_cleanup :: "('t, 'v) kv \<Rightarrow> 't \<Rightarrow> nat \<times> 't" where
  "logical_cleanup R t =
     (let (pending, malformed) = scan_table_ids R t CF_DELETED_TABLES;
          t = drop_malformed_keys R CF_DELETED_TABLES malformed t
      in (length pending, fold (purge_table R) pending t))"

definition purge_orphan_dirty_tables :: "('t, 'v) kv \<Rightarrow> 't \<Rightarrow> nat \<times> 't" where
  "purge_orphan_dirty_tables R t =
     (let (orphans, malformed) = scan_table_ids R t CF_DIRTY_TABLES;
          t = drop_malformed_keys R CF_DIRTY_TABLES malformed t
      in (length orphans, fold (purge_table R) orphans t))"

fun min_live_loop :: "('t, 'v) kv \<Rightarrow> table_id option \<Rightarrow> 'v list \<Rightarrow> db_err + table_id option" where
  "min_live_loop R m [] = Inr m"
| "min_live_loop R m (v # vs) =
     rbind (ok_or (dec_chunk R v) BadValue) (\<lambda>c.
     min_live_loop R (watermark (case m of None \<Rightarrow> [] | Some w \<Rightarrow> [w]) (map snd (tables c))) vs)"

definition min_live_table_id :: "('t, 'v) kv \<Rightarrow> 't \<Rightarrow> db_err + table_id option" where
  "min_live_table_id R t =
     rbind (min_live_loop R None (map snd (kv_seek R t CF_CHUNKS []))) (\<lambda>m.
     Inr (watermark (case m of None \<Rightarrow> [] | Some w \<Rightarrow> [w]) (fst (scan_table_ids R t CF_DIRTY_TABLES))))"

text \<open>The range that \<open>reclaim_disk_space\<close> passes to \<open>delete_file_in_range_cf\<close>.\<close>

definition reclaim_range :: "('t, 'v) kv \<Rightarrow> 't \<Rightarrow> db_err + bytes \<times> bytes" where
  "reclaim_range R t =
     rbind (min_live_table_id R t) (\<lambda>m. Inr (reclaim_lower_bound, reclaim_upper_bound m))"

section \<open>Dataset lifecycle\<close>

definition create_dataset ::
  "('t, 'v) kv \<Rightarrow> retry_policy \<Rightarrow> (nat \<Rightarrow> 't attempt) \<Rightarrow> sid \<Rightarrow> sid \<Rightarrow> 't \<Rightarrow> (db_err + unit) \<times> 't" where
  "create_dataset R p env ds k db =
     tx_run p env (\<lambda>t.
       rbind (find_label_for_update R t ds) (\<lambda>label.
       rbind (ensure (label = None) DatasetExists) (\<lambda>_.
       Inr ((), write_label R t ds (LabelV0 k 0 None)))))
       (purge_stale_hash_indexes_if_dataset_absent R ds db)"

definition create_dataset_if_not_exists ::
  "('t, 'v) kv \<Rightarrow> retry_policy \<Rightarrow> (nat \<Rightarrow> 't attempt) \<Rightarrow> sid \<Rightarrow> sid \<Rightarrow> 't \<Rightarrow> (db_err + unit) \<times> 't" where
  "create_dataset_if_not_exists R p env ds k db =
     tx_run p env (\<lambda>t.
       rbind (find_label_for_update R t ds) (\<lambda>label.
       case label of
         Some l \<Rightarrow> rbind (ensure (kind l = k) KindMismatch) (\<lambda>_. Inr ((), t))
       | None \<Rightarrow> Inr ((), write_label R t ds (LabelV0 k 0 None))))
       (purge_stale_hash_indexes_if_dataset_absent R ds db)"

definition update_tx ::
  "('t, 'v) kv \<Rightarrow> sid \<Rightarrow> ('t dataset_update \<Rightarrow> db_err + 'r \<times> 't dataset_update) \<Rightarrow> 't \<Rightarrow> db_err + 'r \<times> 't" where
  "update_tx R ds cb t =
     rbind (dataset_update_new R t ds) (\<lambda>upd.
     rbind (cb upd) (\<lambda>(result, upd).
     Inr (result, upd_finish R upd)))"

definition update_dataset where
  "update_dataset R p env ds cb db = tx_run p env (update_tx R ds cb) db"

definition db_insert_chunk where
  "db_insert_chunk R X p env ds c db =
     update_dataset R p env ds (\<lambda>u. rbind (upd_insert_chunk R X c u) (\<lambda>u. Inr ((), u))) db"

definition db_insert_fork where
  "db_insert_fork R X p env ds c db =
     update_dataset R p env ds (\<lambda>u. rbind (upd_insert_fork R X c u) (\<lambda>u. Inr ((), u))) db"

fun delete_all_chunks :: "('t, 'v) kv \<Rightarrow> sid \<Rightarrow> (db_err + chunk) list \<Rightarrow> 't \<Rightarrow> db_err + 't" where
  "delete_all_chunks R ds [] t = Inr t"
| "delete_all_chunks R ds (r # rs) t = rbind r (\<lambda>c. delete_all_chunks R ds rs (delete_chunk R t ds c))"

definition delete_dataset_tx :: "('t, 'v) kv \<Rightarrow> sid \<Rightarrow> 't \<Rightarrow> db_err + unit \<times> 't" where
  "delete_dataset_tx R ds t =
     rbind (find_label_for_update R t ds) (\<lambda>label.
     if label = None then Inr ((), t)
     else
       rbind (delete_all_chunks R ds (list_chunks R t ds 0 None) t) (\<lambda>t.
       Inr ((), delete_label R t ds)))"

definition delete_dataset ::
  "('t, 'v) kv \<Rightarrow> retry_policy \<Rightarrow> (nat \<Rightarrow> 't attempt) \<Rightarrow> sid \<Rightarrow> 't \<Rightarrow> (db_err + unit) \<times> 't" where
  "delete_dataset R p env ds db =
     (case tx_run p env (delete_dataset_tx R ds) db of
        (Inl e, db) \<Rightarrow> (Inl e, db)
      | (Inr _, db) \<Rightarrow> (Inr (), snd (logical_cleanup R (purge_hash_indexes R ds db))))"

definition delete_tables ::
  "('t, 'v) kv \<Rightarrow> retry_policy \<Rightarrow> (nat \<Rightarrow> 't attempt) \<Rightarrow> table_id list \<Rightarrow> 't \<Rightarrow> (db_err + unit) \<times> 't" where
  "delete_tables R p env tids db =
     tx_run p env (\<lambda>t. Inr ((), fold (\<lambda>tid t. delete_table R t tid) tids t)) db"

section \<open>Lemmas\<close>

lemma write_deletes_append: "write_deletes R f (xs @ ys) t = write_deletes R f ys (write_deletes R f xs t)"
  by (simp add: write_deletes_def)

text \<open>Batching does not matter.\<close>

lemma purge_loop_eq: "purge_loop R f batch ks t = write_deletes R f (batch @ ks) t"
proof (induction ks arbitrary: batch t)
  case (Cons k ks)
  then show ?case using write_deletes_append [of R f "batch @ [k]" ks t] by (simp add: Let_def)
qed (simp add: write_deletes_def)

lemma takeWhile_sorted_set:
  "sorted_wrt (<) ks \<Longrightarrow> set (takeWhile (\<lambda>k. k < e) ks) = {k \<in> set ks. k < e}" for e :: "'a::linorder"
  by (induction ks) (auto intro: order.strict_trans)

context kv_store
begin

lemma get_write_deletes:
  "kv_get R (write_deletes R f ks t) f' k = (if f' = f \<and> k \<in> set ks then None else kv_get R t f' k)"
  by (simp add: write_deletes_def get_delete_all)

lemma seek_keys: "k \<in> set (map fst (kv_seek R t f s)) \<longleftrightarrow> s \<le> k \<and> kv_get R t f k \<noteq> None"
proof -
  have "k \<in> set (map fst (kv_seek R t f s)) \<longleftrightarrow> (\<exists>v. (k, v) \<in> set (kv_seek R t f s))" by force
  then show ?thesis by (auto simp: seek_set)
qed

lemma keys_between_set: "k \<in> set (keys_between R t f s e) \<longleftrightarrow> s \<le> k \<and> k < e \<and> kv_get R t f k \<noteq> None"
  using seek_keys [of k t f s]
  by (auto simp: keys_between_def takeWhile_sorted_set [OF seek_sorted] simp del: set_map)

lemma get_purge_hash_index:
  assumes "sid_ok 48 ds"
  shows "kv_get R (purge_hash_index R f ds t) f' k =
    (if f' = f \<and> take 48 k = ds then None else kv_get R t f' k)"
proof -
  obtain s e where se: "dataset_range ds = (s, e)" by (cases "dataset_range ds")
  have "prefix_upper_bound ds \<noteq> []"
    using sid_ok_bytes [OF assms] sid_okD [OF assms] by (intro prefix_upper_bound_nonempty) auto
  then have mem: "s \<le> k \<and> k < e \<longleftrightarrow> take 48 k = ds"
    using prefix_upper_bound_spec [of ds k] se sid_okD [OF assms] by (auto simp: dataset_range_def)
  show ?thesis
    unfolding purge_hash_index_def se purge_loop_eq
    using mem by (auto simp: get_write_deletes keys_between_set)
qed

lemma get_purge_hash_indexes:
  "sid_ok 48 ds \<Longrightarrow> kv_get R (purge_hash_indexes R ds t) f k =
    (if f \<in> {CF_BLOCK_HASHES, CF_TRANSACTION_HASHES} \<and> take 48 k = ds then None else kv_get R t f k)"
  by (simp add: purge_hash_indexes_def get_purge_hash_index)

lemma get_purge_table:
  "kv_get R (purge_table R tid t) f k =
    (if f = CF_TABLES \<and> table_key_start tid \<le> k \<and> k < table_key_end tid \<or> f \<in> {CF_DELETED_TABLES, CF_DIRTY_TABLES} \<and> k = tid
     then None else kv_get R t f k)"
  by (auto simp: purge_table_def Let_def get_delete get_write_deletes keys_between_set)

lemma get_purge_tables:
  "kv_get R (fold (purge_table R) tids t) f k =
    (if f = CF_TABLES \<and> (\<exists>tid\<in>set tids. table_key_start tid \<le> k \<and> k < table_key_end tid) \<or>
        f \<in> {CF_DELETED_TABLES, CF_DIRTY_TABLES} \<and> k \<in> set tids
     then None else kv_get R t f k)"
  by (induction tids arbitrary: t) (auto simp: get_purge_table)

lemma seek_all: "k \<in> set (map fst (kv_seek R t f [])) \<longleftrightarrow> kv_get R t f k \<noteq> None"
  by (simp only: seek_keys) simp

lemma scan_table_ids_set:
  "tid \<in> set (fst (scan_table_ids R t f)) \<longleftrightarrow> length tid = 16 \<and> kv_get R t f tid \<noteq> None"
  "k \<in> set (snd (scan_table_ids R t f)) \<longleftrightarrow> length k \<noteq> 16 \<and> kv_get R t f k \<noteq> None"
  using seek_all [of _ t f]
  by (auto simp: scan_table_ids_def Let_def table_id_try_from_key_def map_filter_def split: if_splits)

lemma get_logical_cleanup:
  "kv_get R (snd (logical_cleanup R t)) f k =
    (if f = CF_DELETED_TABLES \<or>
        f = CF_TABLES \<and> (\<exists>tid. length tid = 16 \<and> kv_get R t CF_DELETED_TABLES tid \<noteq> None \<and>
          table_key_start tid \<le> k \<and> k < table_key_end tid) \<or>
        f = CF_DIRTY_TABLES \<and> length k = 16 \<and> kv_get R t CF_DELETED_TABLES k \<noteq> None
     then None else kv_get R t f k)"
proof -
  obtain ids bad where s: "scan_table_ids R t CF_DELETED_TABLES = (ids, bad)"
    by (cases "scan_table_ids R t CF_DELETED_TABLES")
  have m: "tid \<in> set ids \<longleftrightarrow> length tid = 16 \<and> kv_get R t CF_DELETED_TABLES tid \<noteq> None"
    "k \<in> set bad \<longleftrightarrow> length k \<noteq> 16 \<and> kv_get R t CF_DELETED_TABLES k \<noteq> None" for tid k
    using scan_table_ids_set [of _ t CF_DELETED_TABLES] by (simp_all add: s)
  have d: "kv_get R (drop_malformed_keys R CF_DELETED_TABLES bad t) f k =
      (if f = CF_DELETED_TABLES \<and> k \<in> set bad then None else kv_get R t f k)" for f k
    by (simp add: drop_malformed_keys_def get_write_deletes)
  show ?thesis
    by (auto simp: logical_cleanup_def s get_purge_tables d m)
qed

lemma min_live_loop_below:
  "min_live_loop R m vs = Inr m' \<Longrightarrow>
    (\<forall>tid. watermark_below m tid \<longrightarrow> watermark_below m' tid) \<and>
    (\<forall>v c tid. v \<in> set vs \<longrightarrow> dec_chunk R v = Some c \<longrightarrow> tid \<in> snd ` set (tables c) \<longrightarrow> watermark_below m' tid)"
proof (induction vs arbitrary: m)
  case (Cons v vs)
  then obtain c where c: "dec_chunk R v = Some c"
    and loop: "min_live_loop R (watermark (case m of None \<Rightarrow> [] | Some w \<Rightarrow> [w]) (map snd (tables c))) vs = Inr m'"
    by auto
  let ?m = "watermark (case m of None \<Rightarrow> [] | Some w \<Rightarrow> [w]) (map snd (tables c))"
  have keep: "watermark_below ?m tid" if "watermark_below m tid" for tid
    using that watermark_below_watermark [of "the m" "[the m]" "map snd (tables c)"]
    by (auto simp: watermark_below_def intro: order_trans)
  have new: "watermark_below ?m tid" if "tid \<in> snd ` set (tables c)" for tid
    using that by (intro watermark_below_watermark) auto
  show ?case using Cons.IH [OF loop] keep new c by auto
qed simp

lemma min_live_below:
  assumes "min_live_table_id R t = Inr m"
  shows "kv_get R t CF_CHUNKS k = Some v \<Longrightarrow> dec_chunk R v = Some c \<Longrightarrow> tid \<in> snd ` set (tables c) \<Longrightarrow> watermark_below m tid"
    and "kv_get R t CF_DIRTY_TABLES tid \<noteq> None \<Longrightarrow> length tid = 16 \<Longrightarrow> watermark_below m tid"
proof -
  obtain m1 where m1: "min_live_loop R None (map snd (kv_seek R t CF_CHUNKS [])) = Inr m1"
    and m: "m = watermark (case m1 of None \<Rightarrow> [] | Some w \<Rightarrow> [w]) (fst (scan_table_ids R t CF_DIRTY_TABLES))"
    using assms by (auto simp: min_live_table_id_def)
  have keep: "watermark_below m tid" if "watermark_below m1 tid" for tid
    using that watermark_below_watermark [of "the m1" "[the m1]" "fst (scan_table_ids R t CF_DIRTY_TABLES)"]
    by (auto simp: m watermark_below_def intro: order_trans)
  show "watermark_below m tid"
    if "kv_get R t CF_CHUNKS k = Some v" "dec_chunk R v = Some c" "tid \<in> snd ` set (tables c)"
  proof (rule keep)
    have "(k, v) \<in> set (kv_seek R t CF_CHUNKS [])" using that by (simp add: seek_set)
    then have "v \<in> set (map snd (kv_seek R t CF_CHUNKS []))" by force
    then show "watermark_below m1 tid" using min_live_loop_below [OF m1] that by blast
  qed
  show "watermark_below m tid" if "kv_get R t CF_DIRTY_TABLES tid \<noteq> None" "length tid = 16"
    unfolding m using that by (intro watermark_below_watermark) (simp add: scan_table_ids_set)
qed

lemma delete_all_chunks_rep:
  assumes "rep R t ds cs"
  shows "\<exists>t'. delete_all_chunks R ds (map Inr cs) t = Inr t' \<and> rep R t' ds [] \<and> ds_frame R ds t t' \<and>
    (\<forall>c\<in>set cs. \<forall>tid\<in>snd ` set (tables c). kv_get R t' CF_DELETED_TABLES tid \<noteq> None) \<and>
    (\<forall>tid. kv_get R t CF_DELETED_TABLES tid \<noteq> None \<longrightarrow> kv_get R t' CF_DELETED_TABLES tid \<noteq> None)"
  using assms
proof (induction cs arbitrary: t)
  case (Cons c cs)
  note d48 = repD(4) [OF Cons.prems] and sorted = repD(2) [OF Cons.prems]
  have "last_block x \<noteq> last_block c" if "x \<in> set cs" for x
    using sorted that chunks_sortedD [of cs x] by auto
  then have "rep R (delete_chunk R t ds c) ds cs"
    using sorted by (intro rep_delete_chunk [OF Cons.prems]) auto
  from Cons.IH [OF this] obtain t' where t': "delete_all_chunks R ds (map Inr cs) (delete_chunk R t ds c) = Inr t'"
    "rep R t' ds []" "ds_frame R ds (delete_chunk R t ds c) t'"
    "\<forall>c\<in>set cs. \<forall>tid\<in>snd ` set (tables c). kv_get R t' CF_DELETED_TABLES tid \<noteq> None"
    "\<forall>tid. kv_get R (delete_chunk R t ds c) CF_DELETED_TABLES tid \<noteq> None \<longrightarrow> kv_get R t' CF_DELETED_TABLES tid \<noteq> None"
    by blast
  moreover have "ds_frame R ds t t'"
    using delete_chunk_ds [OF d48] t'(3) by (rule ds_frame_trans)
  ultimately show ?case by (auto simp: get_delete_chunk)
qed simp

lemma get_delete_all_chunks:
  "delete_all_chunks R ds (map Inr cs) t = Inr t' \<Longrightarrow>
    (f \<noteq> CF_CHUNKS \<longrightarrow> f \<noteq> CF_DELETED_TABLES \<longrightarrow> kv_get R t' f k = kv_get R t f k) \<and>
    ((\<forall>c\<in>set cs. k \<notin> snd ` set (tables c)) \<longrightarrow> kv_get R t' CF_DELETED_TABLES k = kv_get R t CF_DELETED_TABLES k)"
  by (induction cs arbitrary: t) (auto simp: get_delete_chunk)

lemma delete_dataset_tx_rep:
  assumes rep: "rep R t ds cs" and label: "find_label_for_update R t ds = Inr (Some l)"
    and run: "delete_dataset_tx R ds t = Inr ((), t1)"
  shows "rep R t1 ds []" "kv_get R t1 CF_DATASETS ds = None"
    "c \<in> set cs \<Longrightarrow> tid \<in> snd ` set (tables c) \<Longrightarrow> kv_get R t1 CF_DELETED_TABLES tid \<noteq> None"
    "d \<noteq> ds \<Longrightarrow> rep R t d cs' \<Longrightarrow> rep R t1 d cs'"
    "f \<noteq> CF_CHUNKS \<Longrightarrow> f \<noteq> CF_DELETED_TABLES \<Longrightarrow> (f = CF_DATASETS \<longrightarrow> key \<noteq> ds) \<Longrightarrow> kv_get R t1 f key = kv_get R t f key"
    "\<forall>c\<in>set cs. tid \<notin> snd ` set (tables c) \<Longrightarrow> kv_get R t1 CF_DELETED_TABLES tid = kv_get R t CF_DELETED_TABLES tid"
proof -
  have "list_chunks R t ds 0 None = map Inr cs" by (simp add: list_chunks_rep [OF rep])
  moreover obtain t' where t': "delete_all_chunks R ds (map Inr cs) t = Inr t'" "rep R t' ds []" "ds_frame R ds t t'"
    "\<forall>c\<in>set cs. \<forall>tid\<in>snd ` set (tables c). kv_get R t' CF_DELETED_TABLES tid \<noteq> None"
    using delete_all_chunks_rep [OF rep] by blast
  ultimately have t1: "t1 = delete_label R t' ds" using run label by (simp add: delete_dataset_tx_def)
  then have g: "kv_get R t1 f k = (if f = CF_DATASETS \<and> k = ds then None else kv_get R t' f k)" for f k
    by (simp add: delete_label_def get_delete)
  have r: "rep R t1 d cs' \<longleftrightarrow> rep R t' d cs'" for d cs' by (rule rep_cong) (simp add: g)
  show "rep R t1 ds []" using t'(2) by (simp add: r)
  show "kv_get R t1 CF_DATASETS ds = None" by (simp add: g)
  show "c \<in> set cs \<Longrightarrow> tid \<in> snd ` set (tables c) \<Longrightarrow> kv_get R t1 CF_DELETED_TABLES tid \<noteq> None"
    using t'(4) by (auto simp: g)
  show "d \<noteq> ds \<Longrightarrow> rep R t d cs' \<Longrightarrow> rep R t1 d cs'"
    using ds_frame_rep [OF t'(3) repD(3) [OF t'(2)]] by (simp add: r)
  show "f \<noteq> CF_CHUNKS \<Longrightarrow> f \<noteq> CF_DELETED_TABLES \<Longrightarrow> (f = CF_DATASETS \<longrightarrow> key \<noteq> ds) \<Longrightarrow> kv_get R t1 f key = kv_get R t f key"
    using get_delete_all_chunks [OF t'(1), of f key] by (auto simp: g)
  show "\<forall>c\<in>set cs. tid \<notin> snd ` set (tables c) \<Longrightarrow> kv_get R t1 CF_DELETED_TABLES tid = kv_get R t CF_DELETED_TABLES tid"
    using get_delete_all_chunks [OF t'(1), of CF_DELETED_TABLES tid] by (simp add: g)
qed

end

section \<open>Properties\<close>

text \<open>
  C27: the cleanup pass empties the list of deleted tables, removes every key of the tables that were
  on it and no key of any other table, and leaves labels and chunks alone.
\<close>

theorem logical_cleanup_spec:
  assumes "kv_store R" and "length tid = 16"
  shows "kv_get R (snd (logical_cleanup R t)) CF_TABLES (table_key_make tid key) =
      (if kv_get R t CF_DELETED_TABLES tid \<noteq> None then None else kv_get R t CF_TABLES (table_key_make tid key)) \<and>
    kv_get R (snd (logical_cleanup R t)) CF_DELETED_TABLES k = None \<and>
    kv_get R (snd (logical_cleanup R t)) CF_DATASETS k = kv_get R t CF_DATASETS k \<and>
    kv_get R (snd (logical_cleanup R t)) CF_CHUNKS k = kv_get R t CF_CHUNKS k"
proof -
  have "(\<exists>tid'. length tid' = 16 \<and> kv_get R t CF_DELETED_TABLES tid' \<noteq> None \<and>
      table_key_start tid' \<le> table_key_make tid key \<and> table_key_make tid key < table_key_end tid') \<longleftrightarrow>
    kv_get R t CF_DELETED_TABLES tid \<noteq> None"
    using table_key_in_range [OF _ assms(2)] assms(2) by blast
  then show ?thesis by (simp add: kv_store.get_logical_cleanup [OF assms(1)])
qed

theorem logical_cleanup_spec_witness:
  "kv_get mem_kv (snd (logical_cleanup mem_kv
      (kv_put mem_kv (kv_put mem_kv [] CF_TABLES (table_key_make (replicate 16 7) Schema) (VRaw [1]))
        CF_DELETED_TABLES (replicate 16 7) (VRaw []))))
     CF_TABLES (table_key_make (replicate 16 7) Schema) = None"
  using logical_cleanup_spec [OF mem.kv_store_axioms, of "replicate 16 7"] by (simp add: mem.get_put)

text \<open>
  C26: the range of a disk reclaim is safe. A file it may drop, with last key \<open>end_key\<close>, holds no
  key of a table that a stored chunk of any dataset names or that is marked as being built.
\<close>

theorem reclaim_range_safe:
  assumes "kv_store R" and "reclaim_range R t = Inr (lo, hi)"
    and "sst_is_unlinkable level (Some end_key) hi"
    and "(\<exists>k v c. kv_get R t CF_CHUNKS k = Some v \<and> dec_chunk R v = Some c \<and> tid \<in> snd ` set (tables c)) \<or>
      kv_get R t CF_DIRTY_TABLES tid \<noteq> None \<and> length tid = 16"
  shows "end_key < table_key_make tid key"
proof -
  obtain m where m: "min_live_table_id R t = Inr m" and hi: "hi = reclaim_upper_bound m"
    using assms(2) by (auto simp: reclaim_range_def)
  have "watermark_below m tid"
    using assms(4) kv_store.min_live_below [OF assms(1) m] by blast
  then show ?thesis using assms(3) hi by (auto intro: unlinkable_below)
qed

theorem reclaim_range_safe_witness:
  "reclaim_range mem_kv (kv_put mem_kv [] CF_DIRTY_TABLES (replicate 16 7) (VRaw [])) =
     Inr (replicate 16 0, replicate 16 7) \<and>
   replicate 16 3 < table_key_make (replicate 16 7) Schema"
proof -
  let ?t = "kv_put mem_kv [] CF_DIRTY_TABLES (replicate 16 7) (VRaw [])"
  have r: "reclaim_range mem_kv ?t = Inr (replicate 16 0, replicate 16 7)" by code_simp
  have u: "sst_is_unlinkable 1 (Some (replicate 16 3)) (replicate 16 7)" by code_simp
  have "replicate 16 3 < table_key_make (replicate 16 7) Schema"
    by (rule reclaim_range_safe [OF mem.kv_store_axioms r u]) (simp add: mem.get_put)
  with r show ?thesis by simp
qed


text \<open>
  C22: dropping a dataset. When the operation reports success, the label is gone, no chunk and no
  hash-index entry of the dataset is left, and the data of all its tables is purged. Of every other
  dataset, the label, the chunks and the hash-index entries are as the transaction found them, and
  so is the data of every table that neither belonged to the dataset nor was on the list of deleted
  tables.
\<close>

theorem delete_dataset_spec:
  assumes "kv_store R" and "\<forall>k. rep R (seen_by env k db) ds (cs k)"
    and "\<forall>k. find_label_for_update R (seen_by env k db) ds = Inr (Some (l k))"
    and "delete_dataset R p env ds db = (Inr (), db')"
  shows "\<exists>k. kv_get R db' CF_DATASETS ds = None \<and> rep R db' ds [] \<and>
    (\<forall>h. kv_get R db' CF_BLOCK_HASHES (hash_index_key ds h) = None \<and>
         kv_get R db' CF_TRANSACTION_HASHES (hash_index_key ds h) = None) \<and>
    (\<forall>c\<in>set (cs k). \<forall>tid\<in>snd ` set (tables c). \<forall>key. length tid = 16 \<longrightarrow>
       kv_get R db' CF_TABLES (table_key_make tid key) = None) \<and>
    (\<forall>d. d \<noteq> ds \<longrightarrow>
       kv_get R db' CF_DATASETS d = kv_get R (seen_by env k db) CF_DATASETS d \<and>
       (\<forall>cs'. rep R (seen_by env k db) d cs' \<longrightarrow> rep R db' d cs') \<and>
       (length d = 48 \<longrightarrow> (\<forall>f\<in>{CF_BLOCK_HASHES, CF_TRANSACTION_HASHES}. \<forall>h.
          kv_get R db' f (hash_index_key d h) = kv_get R (seen_by env k db) f (hash_index_key d h)))) \<and>
    (\<forall>tid key. length tid = 16 \<longrightarrow> (\<forall>c\<in>set (cs k). tid \<notin> snd ` set (tables c)) \<longrightarrow>
       kv_get R (seen_by env k db) CF_DELETED_TABLES tid = None \<longrightarrow>
       kv_get R db' CF_TABLES (table_key_make tid key) = kv_get R (seen_by env k db) CF_TABLES (table_key_make tid key))"
proof -
  obtain db1 where run: "tx_run p env (delete_dataset_tx R ds) db = (Inr (), db1)"
    and db': "db' = snd (logical_cleanup R (purge_hash_indexes R ds db1))"
    using assms(4) by (auto simp: delete_dataset_def split: prod.splits sum.splits)
  obtain k where tx: "delete_dataset_tx R ds (seen_by env k db) = Inr ((), db1)"
    using tx_run_committed [OF run] by blast
  have rep: "rep R (seen_by env k db) ds (cs k)" using assms(2) by blast
  have lab: "find_label_for_update R (seen_by env k db) ds = Inr (Some (l k))" using assms(3) by blast
  note d = kv_store.delete_dataset_tx_rep [OF assms(1) rep lab tx]
  note ds = repD(1) [OF rep]
  note get = kv_store.get_logical_cleanup [OF assms(1)] kv_store.get_purge_hash_indexes [OF assms(1)]
  have g: "kv_get R db' f key = kv_get R db1 f key" if "f = CF_DATASETS \<or> f = CF_CHUNKS" for f key
    using that ds by (auto simp: db' get)
  have r: "rep R db' d cs' \<longleftrightarrow> rep R db1 d cs'" for d cs' by (rule rep_cong) (simp add: g)
  have h: "kv_get R db' f (hash_index_key ds h) = None" if "f = CF_BLOCK_HASHES \<or> f = CF_TRANSACTION_HASHES" for f h
    using that ds hash_key_prefix [OF sid_okD [OF ds]] by (auto simp: db' get)
  have h': "kv_get R db' f (hash_index_key x h) = kv_get R (seen_by env k db) f (hash_index_key x h)"
    if "f \<in> {CF_BLOCK_HASHES, CF_TRANSACTION_HASHES}" "x \<noteq> ds" "length x = 48" for f h x
    using that ds hash_key_prefix [OF that(3)] d(5) [of f "hash_index_key x h"] by (auto simp: db' get)
  have t: "kv_get R db' CF_TABLES (table_key_make tid key) = None"
    if "c \<in> set (cs k)" "tid \<in> snd ` set (tables c)" "length tid = 16" for c tid key
    using d(3) [OF that(1,2)] that(3) ds table_key_in_range [OF that(3,3), of key] by (auto simp: db' get)
  have t': "kv_get R db' CF_TABLES (table_key_make tid key) = kv_get R (seen_by env k db) CF_TABLES (table_key_make tid key)"
    if tid: "length tid = 16" "\<forall>c\<in>set (cs k). tid \<notin> snd ` set (tables c)" "kv_get R (seen_by env k db) CF_DELETED_TABLES tid = None" for tid key
  proof -
    have none: "kv_get R db1 CF_DELETED_TABLES tid = None" using d(6) [OF tid(2)] tid(3) by simp
    have "\<not> (\<exists>u. length u = 16 \<and> kv_get R db1 CF_DELETED_TABLES u \<noteq> None \<and>
        table_key_start u \<le> table_key_make tid key \<and> table_key_make tid key < table_key_end u)"
    proof (intro notI, elim exE conjE)
      fix u
      assume u: "length u = 16" "kv_get R db1 CF_DELETED_TABLES u \<noteq> None"
        "table_key_start u \<le> table_key_make tid key" "table_key_make tid key < table_key_end u"
      have "tid = u" using table_key_in_range [OF u(1) tid(1), of key] u(3,4) by simp
      then show False using u(2) none by simp
    qed
    then show ?thesis using ds d(5) [of CF_TABLES "table_key_make tid key"] by (auto simp: db' get)
  qed
  show ?thesis
    using d(1,2,4,5) by (intro exI [of _ k]) (auto simp: g r h h' t t')
qed

definition quiet_env :: "nat \<Rightarrow> 't attempt" where
  "quiet_env k = \<lparr>interfere = (\<lambda>t. t), outcome = Committed, at_commit = 0, at_backoff = 0,
     after_sleep = (\<lambda>s. s), jitter_state = 1\<rparr>"

lemma quiet_seen_by [simp]: "seen_by quiet_env k db = db"
  by (induction k) (simp_all add: quiet_env_def)

lemma quiet_tx_run:
  "tx_run p quiet_env cb db = (case cb db of Inl e \<Rightarrow> (Inl e, db) | Inr (r, db') \<Rightarrow> (Inr r, db'))"
  by (simp add: tx_run_def, subst run_loop.simps) (simp add: Let_def quiet_env_def split: sum.splits prod.splits)

text \<open>A store with two datasets; the first has one chunk with one table.\<close>

definition drop_chunk :: chunk where
  "drop_chunk = V0 4 4 [8] [7] [(''blocks'', replicate 16 1)]"

definition drop_db :: mem where
  "drop_db =
     write_label mem_kv
       (write_label mem_kv (kv_put mem_kv [] CF_CHUNKS (chunk_id_for (sid_default 48) drop_chunk) (enc_chunk mem_kv drop_chunk))
          (sid_pad 48 [65]) index_label)
       (sid_default 48) index_label"

theorem delete_dataset_spec_witness:
  "\<exists>db'. delete_dataset mem_kv default_policy quiet_env (sid_default 48) drop_db = (Inr (), db') \<and>
     rep mem_kv db' (sid_default 48) [] \<and> kv_get mem_kv db' CF_DATASETS (sid_default 48) = None \<and>
     kv_get mem_kv db' CF_DATASETS (sid_pad 48 [65]) = Some (VLabel index_label)"
proof -
  let ?ds = "sid_default 48"
  have ds: "sid_ok 48 ?ds" by code_simp
  have ne: "sid_pad 48 [65] \<noteq> ?ds" by code_simp
  have rep0: "rep mem_kv (kv_put mem_kv [] CF_CHUNKS (chunk_id_for ?ds drop_chunk) (enc_chunk mem_kv drop_chunk)) ?ds [drop_chunk]"
    using ds by (intro mem.rep_put [OF mem_rep_empty]) (auto simp: drop_chunk_def)
  have rep: "rep mem_kv drop_db ?ds [drop_chunk]"
    using rep0 by (rule iffD1 [OF rep_cong, rotated]) (simp add: drop_db_def write_label_def mem.get_put)
  have lab: "find_label_for_update mem_kv drop_db ?ds = Inr (Some index_label)"
    by (simp add: drop_db_def find_label_for_update_def write_label_def mem.get_put mem.dec_enc_label)
  have "\<exists>db'. delete_dataset mem_kv default_policy quiet_env ?ds drop_db = (Inr (), db')"
    by (simp add: delete_dataset_def quiet_tx_run delete_dataset_tx_def lab mem.list_chunks_rep [OF rep])
  then obtain db' where run: "delete_dataset mem_kv default_policy quiet_env ?ds drop_db = (Inr (), db')" ..
  have r: "\<forall>k. rep mem_kv (seen_by quiet_env k drop_db) ?ds [drop_chunk]" using rep by simp
  have l: "\<forall>k. find_label_for_update mem_kv (seen_by quiet_env k drop_db) ?ds = Inr (Some index_label)"
    using lab by simp
  have other: "kv_get mem_kv drop_db CF_DATASETS (sid_pad 48 [65]) = Some (VLabel index_label)"
    using ne by (simp add: drop_db_def write_label_def mem.get_put) (simp add: mem_kv_def)
  show ?thesis
    using delete_dataset_spec [OF mem.kv_store_axioms r l run] run other ne by auto
qed

text \<open>
  C17: committing a fork. When the database reports success, the dataset holds the chunks below the new
  one and the new one, a chain stays a chain, and the label's version is one higher; when it reports
  an error, the state is what other writers left.
\<close>

theorem db_insert_fork_spec:
  assumes "kv_store R" and "\<forall>k. rep R (seen_by env k db) ds (cs k)"
    and "\<forall>k. find_label_for_update R (seen_by env k db) ds = Inr (Some (l k))"
    and "first_block c \<le> last_block c" and "db_insert_fork R X p env ds c db = (res, db')"
  shows "\<exists>k. case res of
      Inr _ \<Rightarrow> rep R db' ds (kept c (cs k) @ [c]) \<and> (chain (cs k) \<longrightarrow> chain (kept c (cs k) @ [c])) \<and>
        find_label_for_update R db' ds = Inr (Some (bump_version (l k)))
    | Inl _ \<Rightarrow> db' = seen_by env k db"
proof (cases res)
  case (Inl e)
  then show ?thesis
    using tx_run_failed [OF assms(5) [unfolded db_insert_fork_def update_dataset_def Inl]] by auto
next
  case (Inr r)
  obtain k where "update_tx R ds (\<lambda>u. rbind (upd_insert_fork R X c u) (\<lambda>u. Inr ((), u))) (seen_by env k db) = Inr (r, db')"
    using tx_run_committed [OF assms(5) [unfolded db_insert_fork_def update_dataset_def Inr]] by blast
  then obtain t' where ins: "insert_fork R X (seen_by env k db) ds c = Inr t'"
    and db': "db' = write_label R t' ds (bump_version (l k))"
    using assms(3) by (auto simp: update_tx_def dataset_update_new_def get_label_for_update_def upd_insert_fork_def upd_finish_def)
  have rep: "rep R (seen_by env k db) ds (cs k)" using assms(2) by blast
  note i = kv_store.insert_fork_rep [OF assms(1) rep assms(4) ins]
  have "rep R db' ds (kept c (cs k) @ [c])"
    using i(1) by (rule iffD1 [OF rep_cong, rotated]) (simp add: db' write_label_def kv_store.get_put [OF assms(1)])
  moreover have "chain (cs k) \<Longrightarrow> chain (kept c (cs k) @ [c])"
    using i(3) by (simp add: chain_snoc kept_prefix [OF repD(2) [OF rep]] chain_take)
  moreover have "find_label_for_update R db' ds = Inr (Some (bump_version (l k)))"
    by (simp add: find_label_for_update_def db' write_label_def kv_store.get_put [OF assms(1)]
        kv_store.dec_enc_label [OF assms(1)])
  ultimately show ?thesis using Inr by auto
qed

theorem db_insert_fork_spec_witness:
  "\<exists>db'. db_insert_fork mem_kv (index_ctx\<lparr>block_hash_index := False, transaction_hash_index := False\<rparr>)
       default_policy quiet_env (sid_default 48) index_chunk
       (write_label mem_kv [] (sid_default 48) index_label) = (Inr (), db') \<and>
     rep mem_kv db' (sid_default 48) [index_chunk]"
proof -
  let ?db = "write_label mem_kv [] (sid_default 48) index_label"
  let ?X = "index_ctx\<lparr>block_hash_index := False, transaction_hash_index := False\<rparr>"
  have ds: "sid_ok 48 (sid_default 48)" by code_simp
  have rep: "rep mem_kv ?db (sid_default 48) []"
    using mem_rep_empty [OF ds] by (rule iffD1 [OF rep_cong, rotated]) (simp add: write_label_def mem.get_put)
  have "\<exists>db'. db_insert_fork mem_kv ?X default_policy quiet_env (sid_default 48) index_chunk ?db = (Inr (), db')"
    by (simp add: db_insert_fork_def update_dataset_def quiet_tx_run update_tx_def dataset_update_new_def
        get_label_for_update_def index_example(4) upd_insert_fork_def insert_fork_def mem.list_chunks_rev_rep [OF rep]
        index_hashes_def)
  then obtain db' where run: "db_insert_fork mem_kv ?X default_policy quiet_env (sid_default 48) index_chunk ?db = (Inr (), db')" ..
  have r: "\<forall>k. rep mem_kv (seen_by quiet_env k ?db) (sid_default 48) []" using rep by simp
  have l: "\<forall>k. find_label_for_update mem_kv (seen_by quiet_env k ?db) (sid_default 48) = Inr (Some index_label)"
    by (simp add: index_example(4))
  have c: "first_block index_chunk \<le> last_block index_chunk" by (simp add: index_chunk_def)
  show ?thesis
    using db_insert_fork_spec [OF mem.kv_store_axioms r l c run] run by (auto simp: kept_def)
qed

end
