(* ===== verification/FinalizedPrefix.thy ===== *)
theory FinalizedPrefix
  imports Tx
begin

text \<open>
  Comparison of a replacement chunk with finalized history (\<open>Tx::validate_finalized_prefix\<close> in
  \<open>storage/src/db/write/tx.rs\<close>): the streaming cursor over the stored chunks decides equality of
  two lists of blocks.
\<close>

section \<open>Streaming comparison\<close>

definition within :: "u64 \<Rightarrow> u64 \<Rightarrow> (u64 \<times> bytes) list \<Rightarrow> (u64 \<times> bytes) list" where
  "within from to = filter (\<lambda>r. from \<le> fst r \<and> fst r \<le> to)"

lemma read_block_hashes_readable:
  assumes "readable X c rows"
  shows "read_block_hashes X c from to = Inr (within from to rows)"
proof -
  obtain tid tab where t: "get_table c ''blocks'' = Some tid" "table_reader X tid = Inr tab"
    "table_ok tab" "block_rows tab = Some rows"
    using assms by (auto simp: readable_def)
  have "fold (\<lambda>(n, h) hs. if from \<le> n \<and> n \<le> to then hs @ [(n, h)] else hs) rows acc = acc @ within from to rows" for acc
    by (induction rows arbitrary: acc) (auto simp: within_def)
  then show ?thesis
    using for_each_block_hash_total [OF t(3,4), of "\<lambda>(n, h) hs. if from \<le> n \<and> n \<le> to then hs @ [(n, h)] else hs" "[]"]
    by (simp add: read_block_hashes_def t case_prod_unfold)
qed

text \<open>The pairs a cursor has still to deliver.\<close>

definition remaining :: "(chunk \<Rightarrow> (u64 \<times> bytes) list) \<Rightarrow> u64 \<Rightarrow> u64 \<Rightarrow> cursor \<Rightarrow> (u64 \<times> bytes) list" where
  "remaining rows from to = (\<lambda>(chunks, stored, pos).
     drop pos stored @ concat (map (\<lambda>c. within from to (rows c)) chunks))"

lemma seek_stored_spec:
  assumes "\<forall>c\<in>set chunks. readable X c (rows c)"
  obtains chunks' stored' pos' where
    "seek_stored X from to chunks stored pos = Inr (remaining rows from to (chunks, stored, pos) \<noteq> [], chunks', stored', pos')"
    "remaining rows from to (chunks', stored', pos') = remaining rows from to (chunks, stored, pos)"
    "set chunks' \<subseteq> set chunks"
    "remaining rows from to (chunks, stored, pos) \<noteq> [] \<longrightarrow> pos' < length stored'"
  using assms
proof (induction chunks arbitrary: stored pos thesis)
  case Nil
  then show ?case by (force simp: remaining_def)
next
  case (Cons c chunks)
  show ?case
  proof (cases "pos < length stored")
    case True
    then show ?thesis using Cons.prems(1) by (force simp: remaining_def)
  next
    case False
    have r: "read_block_hashes X c from to = Inr (within from to (rows c))"
      using Cons.prems(2) by (simp add: read_block_hashes_readable)
    have rem: "remaining rows from to (c # chunks, stored, pos) = remaining rows from to (chunks, within from to (rows c), 0)"
      using False by (simp add: remaining_def)
    show ?thesis
      by (rule Cons.IH [of "within from to (rows c)" 0])
        (use Cons.prems False r rem in \<open>auto intro: Cons.prems(1)\<close>)
  qed
qed

lemma prefix_visit_done: "dvg \<noteq> None \<Longrightarrow> foldM (prefix_visit X from to) rs (dvg, cur) = Inr (dvg, cur)"
  by (induction rs) (auto simp: prefix_visit_def split: prod.splits)

text \<open>The result of comparing the rows \<open>rs\<close> with the pairs of a cursor: no divergence exactly when
  the rows up to \<open>to\<close> are the next pairs, which are then consumed.\<close>

definition visit_post where
  "visit_post rows from to rs cur res \<longleftrightarrow>
     (case res of
        Inl e \<Rightarrow> False
      | Inr (dvg, cur') \<Rightarrow>
          set (fst cur') \<subseteq> set (fst cur) \<and>
          (case dvg of
             None \<Rightarrow> remaining rows from to cur = filter (\<lambda>r. fst r \<le> to) rs @ remaining rows from to cur'
           | Some d \<Rightarrow> \<nexists>zs. remaining rows from to cur = filter (\<lambda>r. fst r \<le> to) rs @ zs))"

lemma prefix_visit_fold:
  assumes "\<forall>c\<in>set (fst cur). readable X c (rows c)"
  shows "visit_post rows from to rs cur (foldM (prefix_visit X from to) rs (None, cur))"
  using assms
proof (induction rs arbitrary: cur)
  case Nil
  then show ?case by (simp add: visit_post_def)
next
  case (Cons r rs)
  obtain chunks stored pos where cur: "cur = (chunks, stored, pos)" by (cases cur)
  let ?rem = "remaining rows from to cur"
  show ?case
  proof (cases "fst r \<le> to")
    case False
    then have "prefix_visit X from to r (None, cur) = Inr (None, cur)"
      by (simp add: prefix_visit_def not_le cur)
    then have "foldM (prefix_visit X from to) (r # rs) (None, cur) = foldM (prefix_visit X from to) rs (None, cur)"
      by simp
    moreover have f: "filter (\<lambda>r. fst r \<le> to) (r # rs) = filter (\<lambda>r. fst r \<le> to) rs" using False by simp
    ultimately show ?thesis using Cons.IH [OF Cons.prems] unfolding visit_post_def f by simp
  next
    case True
    have "\<forall>c\<in>set chunks. readable X c (rows c)" using Cons.prems cur by simp
    then obtain chunks1 stored1 pos1 where
      sk: "seek_stored X from to chunks stored pos = Inr (?rem \<noteq> [], chunks1, stored1, pos1)"
        "remaining rows from to (chunks1, stored1, pos1) = ?rem" "set chunks1 \<subseteq> set chunks"
        "?rem \<noteq> [] \<longrightarrow> pos1 < length stored1"
      unfolding cur by (rule seek_stored_spec)
    let ?next = "(chunks1, stored1, Suc pos1)"
    have head: "?rem = stored1 ! pos1 # remaining rows from to ?next" if "?rem \<noteq> []"
      using sk(2,4) that by (auto simp: remaining_def Cons_nth_drop_Suc [symmetric])
    have visit: "prefix_visit X from to r (None, cur) =
        (if ?rem = [] then Inr (Some (NotStored r), chunks1, stored1, pos1)
         else if stored1 ! pos1 = r then Inr (None, ?next)
         else Inr (Some (Mismatch (stored1 ! pos1) r), chunks1, stored1, pos1))"
      using leD [OF True] sk(1) by (simp add: prefix_visit_def cur)
    show ?thesis
    proof (cases "?rem \<noteq> [] \<and> stored1 ! pos1 = r")
      case eq: True
      have "\<forall>c\<in>set (fst ?next). readable X c (rows c)" using sk(3) Cons.prems cur by auto
      from Cons.IH [OF this] eq visit head sk(3) True cur show ?thesis
        by (auto simp: visit_post_def split: sum.splits option.splits prod.splits)
    next
      case ne: False
      then obtain dvg where d: "prefix_visit X from to r (None, cur) = Inr (Some dvg, chunks1, stored1, pos1)"
        using visit by (auto split: if_splits)
      have "\<nexists>zs. ?rem = filter (\<lambda>r. fst r \<le> to) (r # rs) @ zs"
        using ne head True by auto
      then show ?thesis using d sk(3) cur by (simp add: visit_post_def prefix_visit_done)
    qed
  qed
qed

lemma collect_results_Inr: "collect_results (map Inr xs) = Inr xs"
  by (induction xs) auto

context kv_store
begin

lemma validate_finalized_prefix_result:
  assumes rep: "rep R t ds cs" and cs: "\<forall>x\<in>set cs. readable X x (rows x)" and c: "readable X c (rows c)"
  shows "\<exists>r. validate_finalized_prefix R X t ds c up_to = Inr r \<and>
    (r = Inr () \<longleftrightarrow>
       filter (\<lambda>r. fst r \<le> up_to) (rows c) =
       concat (map (\<lambda>x. within (first_block c) up_to (rows x))
         (filter (\<lambda>x. first_block c \<le> last_block x \<and> first_block x \<le> up_to) cs)))"
proof -
  let ?from = "first_block c"
  let ?chunks = "filter (\<lambda>x. ?from \<le> last_block x \<and> first_block x \<le> up_to) cs"
  let ?cur = "(?chunks, [], 0) :: cursor"
  let ?stored = "concat (map (\<lambda>x. within ?from up_to (rows x)) ?chunks)"
  obtain tid tab where t: "get_table c ''blocks'' = Some tid" "table_reader X tid = Inr tab"
    "table_ok tab" "block_rows tab = Some (rows c)"
    using c by (auto simp: readable_def)
  have lc: "list_chunks R t ds ?from (Some up_to) = map Inr ?chunks"
    by (simp add: list_chunks_rep [OF rep])
  have rem: "remaining rows ?from up_to ?cur = ?stored" by (simp add: remaining_def)
  have "visit_post rows ?from up_to (rows c) ?cur
      (foldM (prefix_visit X ?from up_to) (rows c) (None, ?cur))"
    using cs by (intro prefix_visit_fold) auto
  then obtain dvg chunks stored pos where
    fold: "foldM (prefix_visit X ?from up_to) (rows c) (None, ?cur) = Inr (dvg, chunks, stored, pos)"
    and sub: "set chunks \<subseteq> set ?chunks"
    and none: "dvg = None \<Longrightarrow> ?stored = filter (\<lambda>r. fst r \<le> up_to) (rows c) @ remaining rows ?from up_to (chunks, stored, pos)"
    and some: "dvg \<noteq> None \<Longrightarrow> \<nexists>zs. ?stored = filter (\<lambda>r. fst r \<le> up_to) (rows c) @ zs"
    unfolding visit_post_def rem by (auto split: sum.splits option.splits prod.splits)
  have run: "for_each_block_hash tab (prefix_visit X ?from up_to) (None, ?cur) = Inr (dvg, chunks, stored, pos)"
    using fold by (simp add: for_each_block_hash_iff [OF t(3)] t(4))
  show ?thesis
  proof (cases dvg)
    case None
    have "\<forall>x\<in>set chunks. readable X x (rows x)" using sub cs by auto
    then obtain chunks' stored' pos' where
      "seek_stored X ?from up_to chunks stored pos =
         Inr (remaining rows ?from up_to (chunks, stored, pos) \<noteq> [], chunks', stored', pos')"
      by (rule seek_stored_spec)
    then show ?thesis
      using None none by (auto simp: validate_finalized_prefix_def lc collect_results_Inr t run)
  next
    case (Some d)
    then show ?thesis
      using some by (auto simp: validate_finalized_prefix_def lc collect_results_Inr t run)
  qed
qed

end

section \<open>Properties\<close>

text \<open>
  C18: a replacement chunk agrees with finalized history exactly when its blocks up to the finalized
  head are, number by number and hash by hash, the stored blocks of that range: none is missing,
  added or changed. With readable tables the comparison never fails with an error.
\<close>

theorem validate_finalized_prefix_spec:
  assumes "kv_store R" and "rep R t ds cs" and "\<forall>x\<in>set cs. readable X x (rows x)" and "readable X c (rows c)"
  shows "\<exists>r. validate_finalized_prefix R X t ds c up_to = Inr r \<and>
    (r = Inr () \<longleftrightarrow>
       filter (\<lambda>r. fst r \<le> up_to) (rows c) =
       concat (map (\<lambda>x. within (first_block c) up_to (rows x))
         (filter (\<lambda>x. first_block c \<le> last_block x \<and> first_block x \<le> up_to) cs)))"
  using assms by (rule kv_store.validate_finalized_prefix_result)

definition example_reader :: "table_id \<Rightarrow> db_err + table" where
  "example_reader tid =
     (if tid = [1] then Inr \<lparr>num_rows = 2, columns = [(''number'', UInt64 [(3, True), (4, True)]), (''hash'', Utf8 [([7], True), ([8], True)])]\<rparr>
      else Inr \<lparr>num_rows = 1, columns = [(''number'', UInt64 [(4, True)]), (''hash'', Utf8 [([8], True)])]\<rparr>)"

theorem validate_finalized_prefix_spec_witness:
  "validate_finalized_prefix mem_kv
     \<lparr>block_hash_index = False, transaction_hash_index = False, table_reader = example_reader\<rparr>
     (kv_put mem_kv [] CF_CHUNKS (chunk_id_for (sid_default 48) (V0 3 4 [8] [6] [(''blocks'', [1])]))
       (enc_chunk mem_kv (V0 3 4 [8] [6] [(''blocks'', [1])]))) (sid_default 48)
     (V0 4 4 [8] [7] [(''blocks'', [2])]) 4 = Inr (Inr ())"
proof -
  let ?a = "V0 3 4 [8] [6] [(''blocks'', [1])]" and ?c = "V0 4 4 [8] [7] [(''blocks'', [2])]"
  let ?X = "\<lparr>block_hash_index = False, transaction_hash_index = False, table_reader = example_reader\<rparr>"
  let ?rows = "\<lambda>x. if x = ?c then [(4, [8])] else [(3, [7]), (4, [8])] :: (u64 \<times> bytes) list"
  have "sid_ok 48 (sid_default 48)" by code_simp
  then have rep: "rep mem_kv (kv_put mem_kv [] CF_CHUNKS (chunk_id_for (sid_default 48) ?a)
       (enc_chunk mem_kv ?a)) (sid_default 48) [?a]"
    by (intro mem.rep_put [OF mem_rep_empty]) auto
  have "readable ?X ?a (?rows ?a)" "readable ?X ?c (?rows ?c)"
    by (simp_all add: readable_def get_table_def example_reader_def table_ok_def block_rows_def
        ensure_number_type_def ensure_utf8_type_def)
  with validate_finalized_prefix_spec [OF mem.kv_store_axioms rep, of ?X ?rows ?c 4]
  show ?thesis by (auto simp: within_def)
qed

end
