(* ===== verification/WriteController.thy ===== *)
theory WriteController
  imports Database FinalizedPrefix
begin

text \<open>
  The writer of a dataset (\<open>hotblocks/src/dataset_controller/write_controller.rs\<close>): fork
  resolution, retention, finality and the commit of new chunks. The controller is the record
  \<open>wc\<close>; its two watch channels are the last published pair and the list of all pairs that
  subscribers could observe. Every database call goes through \<open>update_dataset\<close>; the argument
  \<open>E\<close> gives the environment of the i-th call. Metrics and logging are not modelled.
\<close>

section \<open>State\<close>

type_synonym watermark_pair = "block_ref option \<times> block_ref option"

record 't wc =
  wc_db :: 't
  wc_dataset_id :: sid
  wc_first_block :: u64
  wc_parent_block_hash :: "bytes option"
  wc_first_chunk_head :: "block_ref option"
  wc_head :: "block_ref option"
  wc_finalized_head :: "block_ref option"
  wc_watch :: watermark_pair
  wc_observed :: "watermark_pair list"

definition get_chunk_head :: "chunk \<Rightarrow> block_ref" where
  "get_chunk_head c = \<lparr>br_number = last_block c, br_hash = last_block_hash c\<rparr>"

text \<open>\<open>publish\<close>: a subscriber sees a new pair only when the value changes.\<close>

definition publish :: "watermark_pair \<Rightarrow> 't wc \<Rightarrow> 't wc" where
  "publish v w = (if wc_watch w = v then w else w\<lparr>wc_watch := v, wc_observed := wc_observed w @ [v]\<rparr>)"

definition publish_head :: "'t wc \<Rightarrow> 't wc" where
  "publish_head w = publish (wc_head w, snd (wc_watch w)) w"

definition publish_finalized_head :: "'t wc \<Rightarrow> 't wc" where
  "publish_finalized_head w = publish (fst (wc_watch w), wc_finalized_head w) w"

definition set_head :: "block_ref option \<Rightarrow> 't wc \<Rightarrow> 't wc" where
  "set_head h w = publish_head (w\<lparr>wc_head := h\<rparr>)"

definition set_finalized_head :: "block_ref option \<Rightarrow> 't wc \<Rightarrow> 't wc" where
  "set_finalized_head h w = publish_finalized_head (w\<lparr>wc_finalized_head := h\<rparr>)"

definition clear_heads :: "'t wc \<Rightarrow> 't wc" where
  "clear_heads w = (set_finalized_head None (set_head None w))\<lparr>wc_first_chunk_head := None\<rparr>"

definition wc_next_block :: "'t wc \<Rightarrow> u64" where
  "wc_next_block w = (case wc_head w of None \<Rightarrow> wc_first_block w | Some h \<Rightarrow> br_number h + 1)"

definition head_hash :: "'t wc \<Rightarrow> bytes option" where
  "head_hash w = (case wc_head w of Some h \<Rightarrow> Some (br_hash h) | None \<Rightarrow> wc_parent_block_hash w)"

definition starts_at :: "'t wc \<Rightarrow> u64 \<Rightarrow> bytes option \<Rightarrow> bool" where
  "starts_at w block_number parent_hash \<longleftrightarrow>
     wc_first_block w = block_number \<and> wc_parent_block_hash w = parent_hash"

section \<open>Opening\<close>

definition wc_new ::
  "('t, 'v) kv \<Rightarrow> retry_policy \<Rightarrow> (nat \<Rightarrow> 't attempt) \<Rightarrow> sid \<Rightarrow> sid \<Rightarrow> watermark_pair \<Rightarrow> 't \<Rightarrow> (db_err + 't wc) \<times> 't" where
  "wc_new R p env ds k watch db =
     (case create_dataset_if_not_exists R p env ds k db of
        (Inl e, db) \<Rightarrow> (Inl e, db)
      | (Inr _, db) \<Rightarrow>
          (rbind (get_label R db ds) (\<lambda>label.
           rbind (get_first_chunk R db ds) (\<lambda>first_chunk.
           rbind (get_last_chunk R db ds) (\<lambda>last_chunk.
           let w = \<lparr>wc_db = db, wc_dataset_id = ds,
                     wc_first_block = (case first_chunk of None \<Rightarrow> 0 | Some c \<Rightarrow> first_block c),
                     wc_parent_block_hash = map_option parent_block_hash first_chunk,
                     wc_first_chunk_head = map_option get_chunk_head first_chunk,
                     wc_head = map_option get_chunk_head last_chunk,
                     wc_finalized_head = Option.bind label finalized_head,
                     wc_watch = watch, wc_observed = []\<rparr>
           in Inr (publish_finalized_head (publish_head w))))), db))"

section \<open>Fork resolution\<close>

record rollback =
  resume_from :: u64
  expected_parent_hash :: "bytes option"
  reach_at_least :: "u64 option"

fun ascending :: "block_ref list \<Rightarrow> bool" where
  "ascending (a # b # bs) \<longleftrightarrow> br_number a < br_number b \<and> ascending (b # bs)"
| "ascending _ \<longleftrightarrow> True"

text \<open>The loop over the existing chunks, highest first, against the previous blocks, highest first.\<close>

fun resume_scan :: "(db_err + chunk) list \<Rightarrow> block_ref list \<Rightarrow> db_err + (u64 \<times> bytes option) option" where
  "resume_scan [] prev_blocks = Inr None"
| "resume_scan (chunk_result # existing) prev_blocks =
     rbind chunk_result (\<lambda>head.
     if (case prev_blocks of b # _ \<Rightarrow> br_number b < last_block head | [] \<Rightarrow> False)
     then resume_scan existing prev_blocks
     else
       let prev_blocks = dropWhile (\<lambda>b. br_number b > last_block head) prev_blocks in
       case prev_blocks of
         b # _ \<Rightarrow>
           if br_number b = last_block head \<and> br_hash b = last_block_hash head
           then Inr (Some (br_number b + 1, Some (br_hash b)))
           else resume_scan existing prev_blocks
       | [] \<Rightarrow> Inr (Some (last_block head + 1, Some (last_block_hash head))))"

text \<open>The hints that count: those at or above the finalized head.\<close>

definition finality_filter :: "block_ref option \<Rightarrow> block_ref list \<Rightarrow> db_err + block_ref list" where
  "finality_filter fin prev =
     (case fin of
        None \<Rightarrow> Inr prev
      | Some f \<Rightarrow>
          (case dropWhile (\<lambda>b. br_number b < br_number f) prev of
             [] \<Rightarrow> Inl (UnapplicableFork HintsBelowFinalizedHead)
           | b # bs \<Rightarrow>
               if br_number b = br_number f \<and> br_hash b \<noteq> br_hash f
               then Inl (UnapplicableFork HintConflictsWithFinalizedHead)
               else Inr (b # bs)))"

definition compute_rollback :: "('t, 'v) kv \<Rightarrow> block_ref list \<Rightarrow> 't wc \<Rightarrow> db_err + rollback" where
  "compute_rollback R prev w =
     rbind (ensure (prev \<noteq> []) NoPrevBlocks) (\<lambda>_.
     rbind (ensure (ascending prev) PrevNotAscending) (\<lambda>_.
     rbind (get_label R (wc_db w) (wc_dataset_id w)) (\<lambda>label.
     rbind (ok_or label DatasetNotFound) (\<lambda>label.
     rbind (finality_filter (finalized_head label) prev) (\<lambda>prev.
     rbind (resume_scan (list_chunks_rev R (wc_db w) (wc_dataset_id w) 0 (Some (br_number (last prev)))) (rev prev)) (\<lambda>found.
     rbind (case found of
         Some r \<Rightarrow> Inr r
       | None \<Rightarrow>
           rbind (get_first_chunk R (wc_db w) (wc_dataset_id w)) (\<lambda>first_chunk.
           Inr (case first_chunk of
             Some c \<Rightarrow> (first_block c, Some (parent_block_hash c))
           | None \<Rightarrow> (wc_first_block w, wc_parent_block_hash w)))) (\<lambda>(from, hash).
     Inr \<lparr>resume_from = from, expected_parent_hash = hash,
       reach_at_least = (case finalized_head label of
         Some f \<Rightarrow> if from \<le> br_number f then Some (br_number f) else None
       | None \<Rightarrow> None)\<rparr>)))))))"

section \<open>Retention\<close>

datatype retain_status =
  RetainedRange chunk chunk "block_ref option"
| HashMismatch
| Gap u64
| Clear

fun retain_loop ::
  "('t, 'v) kv \<Rightarrow> tx_ctx \<Rightarrow> u64 \<Rightarrow> bytes option \<Rightarrow> bool \<Rightarrow> (db_err + chunk) list \<Rightarrow> 't dataset_update \<Rightarrow>
   retain_status \<Rightarrow> db_err + retain_status \<times> 't dataset_update" where
  "retain_loop R X from ph del [] u status = Inr (status, upd_set_finalized_head None u)"
| "retain_loop R X from ph del (chunk_result # chunks) u status =
     rbind chunk_result (\<lambda>c.
     if last_block c < from then
       rbind (upd_delete_chunk R X c u) (\<lambda>u. retain_loop R X from ph del chunks u status)
     else if from < first_block c then
       if del then
         rbind (upd_delete_chunk R X c u) (\<lambda>u.
         retain_loop R X from ph del chunks u (if status = Clear then Gap (first_block c) else status))
       else Inl RetentionGap
     else
       rbind (case ph of Some h \<Rightarrow> validate_parent_block_hash X c from h | None \<Rightarrow> Inr (Inr ())) (\<lambda>check.
       case check of
         Inl actual \<Rightarrow>
           if del then
             rbind (upd_delete_chunk R X c u) (\<lambda>u. retain_loop R X from ph del chunks u HashMismatch)
           else Inl RetentionHashMismatch
       | Inr _ \<Rightarrow>
           rbind (case list_chunks_rev R (upd_tx u) (upd_dataset_id u) 0 None of
               r # _ \<Rightarrow> r | [] \<Rightarrow> Inl MissingHeadPanic) (\<lambda>head.
           let fin = (case finalized_head (upd_label u) of
                        Some h \<Rightarrow> if first_block c \<le> br_number h then Some h else None
                      | None \<Rightarrow> None);
               u = (if fin = None then upd_set_finalized_head None u else u)
           in Inr (RetainedRange c head fin, u))))"

definition retain_tx where
  "retain_tx R X from ph del u =
     retain_loop R X from ph del (list_chunks R (upd_tx u) (upd_dataset_id u) 0 None) u Clear"

definition apply_retain_status :: "retain_status \<Rightarrow> 't wc \<Rightarrow> bool \<times> 't wc" where
  "apply_retain_status status w =
     (case status of
        RetainedRange first_chunk head fin \<Rightarrow>
          (True, (set_finalized_head fin (set_head (Some (get_chunk_head head)) w))
                   \<lparr>wc_first_chunk_head := Some (get_chunk_head first_chunk)\<rparr>)
      | _ \<Rightarrow> (False, clear_heads w))"

definition retain_with ::
  "('t, 'v) kv \<Rightarrow> tx_ctx \<Rightarrow> retry_policy \<Rightarrow> (nat \<Rightarrow> 't attempt) \<Rightarrow> u64 \<Rightarrow> bytes option \<Rightarrow> bool \<Rightarrow> 't wc \<Rightarrow>
   (db_err + bool) \<times> 't wc" where
  "retain_with R X p env from ph del w =
     (if starts_at w from ph then (Inr True, w)
      else
        case update_dataset R p env (wc_dataset_id w) (retain_tx R X from ph del) (wc_db w) of
          (Inl e, db) \<Rightarrow> (Inl e, w\<lparr>wc_db := db\<rparr>)
        | (Inr status, db) \<Rightarrow>
            let (kept, w) = apply_retain_status status (w\<lparr>wc_db := db\<rparr>)
            in (Inr kept, w\<lparr>wc_first_block := from, wc_parent_block_hash := ph\<rparr>))"

definition retain where
  "retain R X p env from ph w = retain_with R X p env from ph True w"

definition init_retention where
  "init_retention R X p env from ph w = retain_with R X p env from ph False w"

section \<open>Finality\<close>

datatype ignore_reason = Regressive | AlreadyFinalized | BelowWindow | NoBlockAtHeight

datatype finality_decision =
  Applied block_ref
| Ignored ignore_reason
| IntegrityFault fork_reason

definition resolve_stored ::
  "('t, 'v) kv \<Rightarrow> tx_ctx \<Rightarrow> 't dataset_update \<Rightarrow> block_ref \<Rightarrow> db_err + finality_decision" where
  "resolve_stored R X u report =
     rbind (find_stored_block_hash R X (upd_tx u) (upd_dataset_id u) (br_number report)) (\<lambda>stored.
     Inr (case stored of
       Some h \<Rightarrow> if h = br_hash report then Applied report else IntegrityFault FinalityContradictsStoredBlock
     | None \<Rightarrow> Ignored NoBlockAtHeight))"

definition resolve_finality ::
  "('t, 'v) kv \<Rightarrow> tx_ctx \<Rightarrow> 't dataset_update \<Rightarrow> block_ref option \<Rightarrow> chunk option \<Rightarrow> u64 \<Rightarrow> block_ref \<Rightarrow>
   db_err + finality_decision" where
  "resolve_finality R X u cur replacement logical_floor report =
     rbind (case replacement of
         Some c \<Rightarrow> Inr (get_chunk_head c)
       | None \<Rightarrow>
           rbind (first_result (list_chunks_rev R (upd_tx u) (upd_dataset_id u) 0 None)) (\<lambda>head.
           rbind (ok_or head EmptyDataset) (\<lambda>head. Inr (get_chunk_head head)))) (\<lambda>post_head.
     let clamped = br_number report > br_number post_head;
         effective = (if clamped then post_head else report)
     in
     if br_number effective < logical_floor then Inr (Ignored BelowWindow)
     else if (case cur of Some c \<Rightarrow> br_number effective < br_number c | None \<Rightarrow> False) then Inr (Ignored Regressive)
     else if (case cur of Some c \<Rightarrow> br_number effective = br_number c \<and> br_hash effective \<noteq> br_hash c | None \<Rightarrow> False)
     then Inr (IntegrityFault FinalityHashChanged)
     else if (case cur of Some c \<Rightarrow> br_number effective = br_number c | None \<Rightarrow> False)
     then Inr (Ignored AlreadyFinalized)
     else if clamped then Inr (Applied effective)
     else
       case replacement of
         Some c \<Rightarrow>
           if first_block c \<le> br_number report \<and> br_number report \<le> last_block c then
             rbind (find_block_hash_in_chunk X c (br_number report)) (\<lambda>found.
             case found of
               Some h \<Rightarrow>
                 Inr (if h = br_hash report then Applied report else IntegrityFault FinalityContradictsChunk)
             | None \<Rightarrow>
                 rbind (find_stored_block_hash R X (upd_tx u) (upd_dataset_id u) (br_number report)) (\<lambda>stored.
                 Inr (case stored of
                   Some h \<Rightarrow> IntegrityFault FinalityEvictsFinalizedBlock
                 | None \<Rightarrow> Ignored NoBlockAtHeight)))
           else resolve_stored R X u report
       | None \<Rightarrow> resolve_stored R X u report)"


definition finalize_tx ::
  "('t, 'v) kv \<Rightarrow> tx_ctx \<Rightarrow> 't wc \<Rightarrow> block_ref \<Rightarrow> block_ref \<Rightarrow> 't dataset_update \<Rightarrow>
   db_err + block_ref option \<times> 't dataset_update" where
  "finalize_tx R X w head report u =
     rbind (ensure (finalized_head (upd_label u) = wc_finalized_head w) MultipleProcesses) (\<lambda>_.
     rbind (first_result (list_chunks_rev R (upd_tx u) (upd_dataset_id u) 0 None)) (\<lambda>maybe_head_chunk.
     rbind (ensure (case maybe_head_chunk of Some c \<Rightarrow> last_block_hash c = br_hash head | None \<Rightarrow> False)
       MultipleProcesses) (\<lambda>_.
     rbind (resolve_finality R X u (finalized_head (upd_label u)) None (wc_first_block w) report) (\<lambda>decision.
     case decision of
       Applied new_head \<Rightarrow> Inr (Some new_head, upd_set_finalized_head (Some new_head) u)
     | Ignored reason \<Rightarrow> Inr (None, u)
     | IntegrityFault reason \<Rightarrow> Inl (UnapplicableFork reason)))))"

definition finalize ::
  "('t, 'v) kv \<Rightarrow> tx_ctx \<Rightarrow> retry_policy \<Rightarrow> (nat \<Rightarrow> 't attempt) \<Rightarrow> block_ref \<Rightarrow> 't wc \<Rightarrow> (db_err + unit) \<times> 't wc" where
  "finalize R X p env report w =
     (case wc_head w of
        None \<Rightarrow> (Inr (), w)
      | Some head \<Rightarrow>
          (case update_dataset R p env (wc_dataset_id w) (finalize_tx R X w head report) (wc_db w) of
             (Inl e, db) \<Rightarrow> (Inl e, w\<lparr>wc_db := db\<rparr>)
           | (Inr None, db) \<Rightarrow> (Inr (), w\<lparr>wc_db := db\<rparr>)
           | (Inr (Some new_head), db) \<Rightarrow> (Inr (), set_finalized_head (Some new_head) (w\<lparr>wc_db := db\<rparr>))))"

section \<open>New chunks\<close>

text \<open>The guards of \<open>new_chunk\<close>, in the order of the code.\<close>

definition window_guard :: "('t, 'v) kv \<Rightarrow> u64 \<Rightarrow> chunk \<Rightarrow> 't dataset_update \<Rightarrow> db_err + unit" where
  "window_guard R logical_floor c u =
     rbind (first_result (list_chunks R (upd_tx u) (upd_dataset_id u) 0 None)) (\<lambda>first_chunk.
     let window_start = (case first_chunk of Some x \<Rightarrow> first_block x | None \<Rightarrow> logical_floor)
     in ensure (window_start \<le> first_block c) (UnapplicableFork BelowRetainedWindow))"

definition boundary_guard :: "('t, 'v) kv \<Rightarrow> chunk \<Rightarrow> 't dataset_update \<Rightarrow> db_err + unit" where
  "boundary_guard R c u =
     rbind (first_result (list_chunks R (upd_tx u) (upd_dataset_id u) (first_block c) (Some (first_block c)))) (\<lambda>owner.
     ensure (case owner of
         Some x \<Rightarrow> \<not> (first_block x < first_block c \<and> first_block c \<le> last_block x)
       | None \<Rightarrow> True) (UnapplicableFork StaleRollbackBoundary))"

definition finalized_guard :: "('t, 'v) kv \<Rightarrow> tx_ctx \<Rightarrow> chunk \<Rightarrow> 't dataset_update \<Rightarrow> db_err + unit" where
  "finalized_guard R X c u =
     (case finalized_head (upd_label u) of
        Some cur \<Rightarrow>
          if first_block c \<le> br_number cur then
            rbind (ensure (br_number cur \<le> last_block c) (UnapplicableFork DropsFinalizedBlock)) (\<lambda>_.
            rbind (validate_finalized_prefix R X (upd_tx u) (upd_dataset_id u) c (br_number cur)) (\<lambda>verdict.
            ensure (verdict = Inr ()) (UnapplicableFork RewritesFinalizedHistory)))
          else Inr ()
      | None \<Rightarrow> Inr ())"

definition compose_finality ::
  "('t, 'v) kv \<Rightarrow> tx_ctx \<Rightarrow> u64 \<Rightarrow> block_ref option \<Rightarrow> chunk \<Rightarrow> 't dataset_update \<Rightarrow> db_err + block_ref option" where
  "compose_finality R X logical_floor report c u =
     (let cur = finalized_head (upd_label u) in
      case report of
        None \<Rightarrow> Inr cur
      | Some r \<Rightarrow>
          rbind (resolve_finality R X u cur (Some c) logical_floor r) (\<lambda>decision.
          case decision of
            Applied new_head \<Rightarrow> Inr (Some new_head)
          | Ignored reason \<Rightarrow> Inr cur
          | IntegrityFault reason \<Rightarrow> Inl (UnapplicableFork reason)))"

definition new_chunk_tx ::
  "('t, 'v) kv \<Rightarrow> tx_ctx \<Rightarrow> u64 \<Rightarrow> block_ref option \<Rightarrow> chunk \<Rightarrow> 't dataset_update \<Rightarrow>
   db_err + block_ref option \<times> 't dataset_update" where
  "new_chunk_tx R X logical_floor report c u =
     rbind (window_guard R logical_floor c u) (\<lambda>_.
     rbind (boundary_guard R c u) (\<lambda>_.
     rbind (finalized_guard R X c u) (\<lambda>_.
     rbind (compose_finality R X logical_floor report c u) (\<lambda>fin.
     rbind (upd_insert_fork R X c (upd_set_finalized_head fin u)) (\<lambda>u.
     Inr (fin, u))))))"

definition abandon_tables ::
  "('t, 'v) kv \<Rightarrow> retry_policy \<Rightarrow> (nat \<Rightarrow> 't attempt) \<Rightarrow> chunk \<Rightarrow> 't wc \<Rightarrow> 't wc" where
  "abandon_tables R p env c w =
     w\<lparr>wc_db := snd (delete_tables R p env (map snd (tables c)) (wc_db w))\<rparr>"

definition new_chunk ::
  "('t, 'v) kv \<Rightarrow> tx_ctx \<Rightarrow> retry_policy \<Rightarrow> (nat \<Rightarrow> nat \<Rightarrow> 't attempt) \<Rightarrow> block_ref option \<Rightarrow> chunk \<Rightarrow> 't wc \<Rightarrow>
   (db_err + unit) \<times> 't wc" where
  "new_chunk R X p E report c w =
     (case update_dataset R p (E 0) (wc_dataset_id w) (new_chunk_tx R X (wc_first_block w) report c) (wc_db w) of
        (Inl e, db) \<Rightarrow> (Inl e, abandon_tables R p (E 1) c (w\<lparr>wc_db := db\<rparr>))
      | (Inr fin, db) \<Rightarrow>
          let w = set_finalized_head fin (set_head (Some (get_chunk_head c)) (w\<lparr>wc_db := db\<rparr>))
          in (Inr (),
              if (case wc_first_chunk_head w of None \<Rightarrow> True | Some h \<Rightarrow> first_block c \<le> br_number h)
              then w\<lparr>wc_first_chunk_head := wc_head w\<rparr> else w))"

definition trim_floor :: "u64 option \<Rightarrow> u64 \<Rightarrow> u64 \<Rightarrow> u64 option" where
  "trim_floor first_chunk_head nxt max_blocks =
     Option.bind first_chunk_head (\<lambda>h.
     if nxt - h > max_blocks then Some (nxt - max_blocks) else None)"

section \<open>Messages\<close>

text \<open>A prepared chunk; building its tables is an argument of \<open>write_new_chunk\<close>.\<close>

record new_chunk_msg =
  nc_finalized_head :: "block_ref option"
  nc_parent_block_hash :: bytes
  nc_first_block :: u64
  nc_last_block :: u64
  nc_last_block_hash :: bytes
  nc_first_block_time :: "int option"
  nc_last_block_time :: "int option"

definition write_new_chunk where
  "write_new_chunk R X p E build m w =
     (case build (wc_db w) of
        (Inl e, db) \<Rightarrow> (Inl e, w\<lparr>wc_db := db\<rparr>)
      | (Inr tabs, db) \<Rightarrow>
          new_chunk R X p E (nc_finalized_head m)
            (V1 (nc_first_block m) (nc_last_block m) (nc_last_block_hash m) (nc_parent_block_hash m)
               (nc_first_block_time m) (nc_last_block_time m) tabs)
            (w\<lparr>wc_db := db\<rparr>))"

datatype ingest_message =
  FinalizedHead block_ref
| NewChunk new_chunk_msg
| Fork "block_ref list" bool

datatype flush_floor_update = Unchanged | SetFloor "u64 option"

text \<open>The flag of \<open>Fork\<close> tells whether the receiver of the rollback is still there.\<close>

definition handle_ingest_msg where
  "handle_ingest_msg R X p E build msg retain_from_head w =
     (case msg of
        FinalizedHead h \<Rightarrow>
          (case finalize R X p (E 0) h w of
             (Inl e, w) \<Rightarrow> (Inl e, w)
           | (Inr _, w) \<Rightarrow> (Inr Unchanged, w))
      | NewChunk m \<Rightarrow>
          (case write_new_chunk R X p E build m w of
             (Inl e, w) \<Rightarrow> (Inl e, w)
           | (Inr _, w) \<Rightarrow>
               (case Option.bind retain_from_head
                    (trim_floor (map_option br_number (wc_first_chunk_head w)) (wc_next_block w)) of
                  None \<Rightarrow> (Inr (SetFloor None), w)
                | Some new_floor \<Rightarrow>
                    (case retain R X p (E 2) new_floor None w of
                       (Inl e, w) \<Rightarrow> (Inl e, w)
                     | (Inr _, w) \<Rightarrow> (Inr (SetFloor None), w))))
      | Fork prev_blocks receiver_alive \<Rightarrow>
          (case compute_rollback R prev_blocks w of
             Inl e \<Rightarrow> (Inl e, w)
           | Inr r \<Rightarrow> (Inr (SetFloor (if receiver_alive then reach_at_least r else None)), w)))"

end
