(* ===== verification/WriteSafety.thy ===== *)
theory WriteSafety
  imports WriteController
begin

text \<open>
  Safety of the dataset writer: what a committed chunk does to stored history, to the finalized head
  and to the published watermarks, and the invariant of the writer over its operations.
\<close>

section \<open>Guards\<close>

lemma first_result_map: "first_result (map Inr xs) = Inr (case xs of [] \<Rightarrow> None | x # _ \<Rightarrow> Some x)"
  by (cases xs) (simp_all add: first_result_def)

context kv_store
begin

lemma window_guard_iff:
  assumes "rep R (upd_tx u) (upd_dataset_id u) cs"
  shows "window_guard R logical_floor c u = Inr () \<longleftrightarrow>
    (case cs of x # _ \<Rightarrow> first_block x | [] \<Rightarrow> logical_floor) \<le> first_block c"
  by (cases cs) (simp_all add: window_guard_def list_chunks_rep [OF assms] first_result_def)

lemma boundary_guard_iff:
  assumes rep: "rep R (upd_tx u) (upd_dataset_id u) cs"
  shows "boundary_guard R c u = Inr () \<longleftrightarrow>
    (\<forall>x\<in>set cs. \<not> (first_block x < first_block c \<and> first_block c \<le> last_block x))"
proof -
  define ys where "ys = filter (\<lambda>x. first_block c \<le> last_block x \<and> first_block x \<le> first_block c) cs"
  have l: "list_chunks R (upd_tx u) (upd_dataset_id u) (first_block c) (Some (first_block c)) = map Inr ys"
    by (simp add: list_chunks_rep [OF rep] ys_def)
  have sorted: "chunks_sorted ys" using repD(2) [OF rep] by (simp add: ys_def chunks_sorted_filter)
  have mem: "x \<in> set ys \<longleftrightarrow> x \<in> set cs \<and> first_block c \<le> last_block x \<and> first_block x \<le> first_block c" for x
    by (auto simp: ys_def)
  show ?thesis
  proof (cases ys)
    case Nil
    then have "\<not> (first_block x < first_block c \<and> first_block c \<le> last_block x)" if "x \<in> set cs" for x
      using mem [of x] that by auto
    then show ?thesis using Nil by (simp add: boundary_guard_def l first_result_def)
  next
    case (Cons y zs)
    have "zs = []"
    proof (rule ccontr)
      assume "zs \<noteq> []"
      then obtain z where z: "z \<in> set zs" by (cases zs) auto
      have "last_block y < first_block z" using sorted Cons z by simp
      then show False using mem [of y] mem [of z] Cons z by auto
    qed
    then have uniq: "x \<in> set cs \<Longrightarrow> first_block x < first_block c \<and> first_block c \<le> last_block x \<Longrightarrow> x = y" for x
      using mem [of x] Cons by auto
    have y: "y \<in> set cs" using mem [of y] Cons by simp
    have "boundary_guard R c u = Inr () \<longleftrightarrow> \<not> (first_block y < first_block c \<and> first_block c \<le> last_block y)"
      by (simp add: boundary_guard_def l Cons first_result_def)
    then show ?thesis using uniq y by blast
  qed
qed

lemma finalized_guard_reach:
  assumes "finalized_guard R X c u = Inr ()" and "finalized_head (upd_label u) = Some f"
    and "first_block c \<le> last_block c"
  shows "br_number f \<le> last_block c"
proof (cases "first_block c \<le> br_number f")
  case True
  then show ?thesis using assms by (auto simp: finalized_guard_def)
next
  case False
  then show ?thesis using assms(3) by auto
qed

lemma covering_chunk:
  assumes "rep R t ds cs" and "find_stored_block_hash R X t ds n = Inr (Some h)"
  obtains x where "x \<in> set cs" "first_block x \<le> n" "n \<le> last_block x"
    "find_block_hash_in_chunk X x n = Inr (Some h)"
proof -
  let ?ys = "filter (\<lambda>x. n \<le> last_block x \<and> first_block x \<le> n) cs"
  have l: "list_chunks R t ds n (Some n) = map Inr ?ys" by (simp add: list_chunks_rep [OF assms(1)])
  show thesis
  proof (cases ?ys)
    case Nil
    then show ?thesis using assms(2) l by (simp add: find_stored_block_hash_def)
  next
    case (Cons y zs)
    then have "y \<in> set ?ys" by simp
    moreover have "find_block_hash_in_chunk X y n = Inr (Some h)"
      using assms(2) l Cons by (simp add: find_stored_block_hash_def)
    ultimately show ?thesis using that by auto
  qed
qed

text \<open>A report that is applied: not below the current finalized head, inside the resulting window and
  backed by the head or by a block of its owner.\<close>

lemma resolve_applied:
  assumes rep: "rep R (upd_tx u) (upd_dataset_id u) cs"
    and res: "resolve_finality R X u cur replacement logical_floor report = Inr (Applied f)"
    and ph: "post = (case replacement of Some c \<Rightarrow> c | None \<Rightarrow> last cs)"
  shows "br_number f \<le> last_block post" and "logical_floor \<le> br_number f"
    and "\<forall>g. cur = Some g \<longrightarrow> br_number g < br_number f"
    and "replacement = None \<longrightarrow> cs \<noteq> []"
    and "f = get_chunk_head post \<or>
      (\<exists>x. (replacement = Some x \<or> x \<in> set cs \<and> (\<forall>c. replacement = Some c \<longrightarrow> br_number f < first_block c)) \<and>
         first_block x \<le> br_number f \<and> br_number f \<le> last_block x \<and>
         find_block_hash_in_chunk X x (br_number f) = Inr (Some (br_hash f)))"
proof -
  let ?ph = "get_chunk_head post" and ?clamped = "br_number report > last_block post"
  let ?eff = "if ?clamped then ?ph else report"
  have n: "br_number ?ph = last_block post" by (simp add: get_chunk_head_def)
  have head: "(case replacement of
         Some c \<Rightarrow> Inr (get_chunk_head c)
       | None \<Rightarrow>
           rbind (first_result (list_chunks_rev R (upd_tx u) (upd_dataset_id u) 0 None)) (\<lambda>head.
           rbind (ok_or head EmptyDataset) (\<lambda>head. Inr (get_chunk_head head)))) = Inr ?ph \<and> (replacement = None \<longrightarrow> cs \<noteq> [])"
  proof (cases replacement)
    case None
    have "list_chunks_rev R (upd_tx u) (upd_dataset_id u) 0 None = map Inr (rev cs)"
      by (simp add: list_chunks_rev_rep [OF rep])
    then show ?thesis
      using None res ph
      by (cases cs rule: rev_cases) (simp_all add: resolve_finality_def first_result_def)
  qed (use ph in simp)
  then show "replacement = None \<longrightarrow> cs \<noteq> []" by simp
  note r = res [unfolded resolve_finality_def head [THEN conjunct1] rbind_simps Let_def n]
  have eff: "f = ?eff" and fl: "logical_floor \<le> br_number ?eff"
    and cur: "\<forall>g. cur = Some g \<longrightarrow> br_number g < br_number ?eff"
    using r by (auto simp: resolve_stored_def not_less split: if_splits option.splits)
  show "br_number f \<le> last_block post" using eff n by auto
  show "logical_floor \<le> br_number f" "\<forall>g. cur = Some g \<longrightarrow> br_number g < br_number f"
    using fl cur eff by simp_all
  show "f = get_chunk_head post \<or>
      (\<exists>x. (replacement = Some x \<or> x \<in> set cs \<and> (\<forall>c. replacement = Some c \<longrightarrow> br_number f < first_block c)) \<and>
         first_block x \<le> br_number f \<and> br_number f \<le> last_block x \<and>
         find_block_hash_in_chunk X x (br_number f) = Inr (Some (br_hash f)))"
  proof (cases ?clamped)
    case False
    then have f: "f = report" using eff by simp
    show ?thesis
    proof (cases "\<exists>c. replacement = Some c \<and> first_block c \<le> br_number report \<and> br_number report \<le> last_block c")
      case True
      then show ?thesis using r False f by (auto split: if_splits option.splits)
    next
      case out: False
      then have "resolve_stored R X u report = Inr (Applied report)"
        using r False f by (auto split: if_splits option.splits)
      then have "find_stored_block_hash R X (upd_tx u) (upd_dataset_id u) (br_number report) = Inr (Some (br_hash report))"
        by (auto simp: resolve_stored_def split: option.splits if_splits)
      then obtain x where "x \<in> set cs" "first_block x \<le> br_number report" "br_number report \<le> last_block x"
        "find_block_hash_in_chunk X x (br_number report) = Inr (Some (br_hash report))"
        by (rule covering_chunk [OF rep])
      moreover have "br_number report < first_block c" if "replacement = Some c" for c
        using out that False ph by auto
      ultimately show ?thesis using f by blast
    qed
  qed (use eff in simp)
qed

lemma new_chunk_tx_result:
  assumes rep: "rep R (upd_tx u) (upd_dataset_id u) cs" and c: "first_block c \<le> last_block c"
    and tx: "new_chunk_tx R X logical_floor report c u = Inr (fin, u')"
  shows "rep R (upd_tx u') (upd_dataset_id u) (kept c cs @ [c])"
    and "upd_dataset_id u' = upd_dataset_id u"
    and "upd_label u' = label_set_finalized_head fin (upd_label u)"
    and "kept c cs \<noteq> [] \<longrightarrow> linked (last (kept c cs)) c"
    and "(case cs of x # _ \<Rightarrow> first_block x | [] \<Rightarrow> logical_floor) \<le> first_block c"
    and "finalized_guard R X c u = Inr ()"
    and "compose_finality R X logical_floor report c u = Inr fin"
proof -
  have g: "window_guard R logical_floor c u = Inr ()" "finalized_guard R X c u = Inr ()"
    "compose_finality R X logical_floor report c u = Inr fin"
    and ins: "upd_insert_fork R X c (upd_set_finalized_head fin u) = Inr u'"
    using tx by (auto simp: new_chunk_tx_def)
  obtain t' where t': "insert_fork R X (upd_tx u) (upd_dataset_id u) c = Inr t'"
    and u': "u' = (upd_set_finalized_head fin u)\<lparr>upd_tx := t'\<rparr>"
    using ins by (auto simp: upd_insert_fork_def upd_set_finalized_head_def)
  note i = insert_fork_rep [OF rep c t']
  show "rep R (upd_tx u') (upd_dataset_id u) (kept c cs @ [c])" using i u' by simp
  show "upd_dataset_id u' = upd_dataset_id u" "upd_label u' = label_set_finalized_head fin (upd_label u)"
    using u' by (simp_all add: upd_set_finalized_head_def)
  show "kept c cs \<noteq> [] \<longrightarrow> linked (last (kept c cs)) c" using i by simp
  show "(case cs of x # _ \<Rightarrow> first_block x | [] \<Rightarrow> logical_floor) \<le> first_block c"
    using g(1) by (simp add: window_guard_iff [OF rep])
  show "finalized_guard R X c u = Inr ()" "compose_finality R X logical_floor report c u = Inr fin"
    using g by simp_all
qed

end

section \<open>Finalized history\<close>

text \<open>All blocks of a list of chunks, by the rows of their tables.\<close>

definition blocks_of :: "(chunk \<Rightarrow> (u64 \<times> bytes) list) \<Rightarrow> chunk list \<Rightarrow> (u64 \<times> bytes) list" where
  "blocks_of rows cs = concat (map rows cs)"

definition up_to :: "u64 \<Rightarrow> (u64 \<times> bytes) list \<Rightarrow> (u64 \<times> bytes) list" where
  "up_to n = filter (\<lambda>r. fst r \<le> n)"

text \<open>The blocks table of a chunk is readable, holds only blocks of the chunk's range, and holds its last block.\<close>

definition tables_ok :: "tx_ctx \<Rightarrow> (chunk \<Rightarrow> (u64 \<times> bytes) list) \<Rightarrow> chunk \<Rightarrow> bool" where
  "tables_ok X rows x \<longleftrightarrow>
     readable X x (rows x) \<and> (\<forall>r\<in>set (rows x). first_block x \<le> fst r \<and> fst r \<le> last_block x) \<and>
     (last_block x, last_block_hash x) \<in> set (rows x)"

lemma tables_ok_find:
  assumes "tables_ok X rows x" and "find_block_hash_in_chunk X x n = Inr (Some h)"
  shows "(n, h) \<in> set (rows x)"
proof -
  obtain tid tab where t: "get_table x ''blocks'' = Some tid" "table_reader X tid = Inr tab" "table_ok tab"
    "block_rows tab = Some (rows x)" using assms(1) by (auto simp: tables_ok_def readable_def)
  then have "map_of (rows x) n = Some h"
    using assms(2) find_block_hash_rows [OF t(3,4), of n] by (simp add: find_block_hash_in_chunk_def)
  then show ?thesis by (rule map_of_SomeD)
qed

lemma concat_filter_empty:
  assumes "\<And>x. x \<in> set xs \<Longrightarrow> \<not> P x \<Longrightarrow> f x = []"
  shows "concat (map f (filter P xs)) = concat (map f xs)"
  using assms by (induction xs) auto

lemma up_to_append: "up_to n (xs @ ys) = up_to n xs @ up_to n ys"
  by (simp add: up_to_def)

lemma up_to_blocks_of: "up_to n (blocks_of rows cs) = concat (map (\<lambda>x. up_to n (rows x)) cs)"
  by (simp add: up_to_def blocks_of_def filter_concat comp_def)

text \<open>The chunks that the fork drops.\<close>

lemma kept_dropped:
  assumes "chunks_sorted cs"
  shows "cs = kept c cs @ filter (\<lambda>x. first_block c \<le> first_block x) cs"
proof -
  have "kept c cs = takeWhile (\<lambda>x. first_block x < first_block c) cs" by (rule kept_prefix [OF assms])
  moreover have "filter (\<lambda>x. first_block c \<le> first_block x) cs = dropWhile (\<lambda>x. first_block x < first_block c) cs"
    using assms
  proof (induction cs)
    case (Cons x cs)
    have "filter (\<lambda>y. first_block c \<le> first_block y) cs = cs" if "\<not> first_block x < first_block c"
      using that Cons.prems by (intro filter_True) auto
    then show ?case using Cons by auto
  qed simp
  ultimately show ?thesis by simp
qed

lemma finalized_kept:
  assumes sorted: "chunks_sorted cs" and keep: "kept c cs \<noteq> [] \<longrightarrow> linked (last (kept c cs)) c"
    and ok: "\<forall>x\<in>set cs. tables_ok X rows x" "tables_ok X rows c"
    and agree: "first_block c \<le> n \<longrightarrow> up_to n (rows c) =
      concat (map (\<lambda>x. within (first_block c) n (rows x))
        (filter (\<lambda>x. first_block c \<le> last_block x \<and> first_block x \<le> n) cs))"
  shows "up_to n (blocks_of rows (kept c cs @ [c])) = up_to n (blocks_of rows cs)"
proof -
  let ?drop = "filter (\<lambda>x. first_block c \<le> first_block x) cs"
  have "up_to n (blocks_of rows cs) = up_to n (blocks_of rows (kept c cs)) @ up_to n (blocks_of rows ?drop)"
    using kept_dropped [OF sorted, of c] by (metis blocks_of_def concat_append map_append up_to_append)
  moreover have "up_to n (rows c) = up_to n (blocks_of rows ?drop)"
  proof (cases "first_block c \<le> n")
    case True
    have below: "last_block x < first_block c" if "x \<in> set (kept c cs)" for x
      using kept_below [OF _ keep that] sorted by (simp add: kept_def chunks_sorted_filter)
    have "filter (\<lambda>x. first_block c \<le> last_block x \<and> first_block x \<le> n) cs = filter (\<lambda>x. first_block x \<le> n) ?drop"
    proof -
      have "first_block c \<le> last_block x \<longleftrightarrow> first_block c \<le> first_block x" if "x \<in> set cs" for x
        using below [of x] that chunks_sortedD [OF sorted that]
        by (cases "first_block x < first_block c") (auto simp: kept_def)
      then show ?thesis by (auto intro: filter_cong)
    qed
    then have "up_to n (rows c) = concat (map (\<lambda>x. within (first_block c) n (rows x)) (filter (\<lambda>x. first_block x \<le> n) ?drop))"
      using agree True by simp
    also have "\<dots> = concat (map (\<lambda>x. up_to n (rows x)) (filter (\<lambda>x. first_block x \<le> n) ?drop))"
    proof -
      have "within (first_block c) n (rows x) = up_to n (rows x)" if "x \<in> set ?drop" for x
        using ok(1) that by (force simp: within_def up_to_def tables_ok_def intro!: filter_cong)
      then show ?thesis by (auto intro!: arg_cong [where f = concat])
    qed
    also have "\<dots> = concat (map (\<lambda>x. up_to n (rows x)) ?drop)"
    proof (rule concat_filter_empty)
      show "up_to n (rows x) = []" if "x \<in> set ?drop" "\<not> first_block x \<le> n" for x
        using ok(1) that by (force simp: up_to_def tables_ok_def filter_empty_conv)
    qed
    finally show ?thesis by (simp add: up_to_blocks_of)
  next
    case False
    have "up_to n (rows x) = []" if "x \<in> set ?drop \<union> {c}" for x
      using False ok that by (force simp: up_to_def tables_ok_def filter_empty_conv)
    then show ?thesis by (simp add: up_to_blocks_of)
  qed
  ultimately show ?thesis by (simp add: blocks_of_def up_to_append)
qed


section \<open>Retention\<close>

definition fin_above :: "u64 \<Rightarrow> block_ref option \<Rightarrow> block_ref option" where
  "fin_above n fin = (case fin of Some h \<Rightarrow> if n \<le> br_number h then Some h else None | None \<Rightarrow> None)"

definition retain_post where
  "retain_post R u cs from st u' \<longleftrightarrow>
     upd_dataset_id u' = upd_dataset_id u \<and>
     (case st of
        RetainedRange c h fin \<Rightarrow>
          \<exists>pre post. cs = pre @ c # post \<and> (\<forall>x\<in>set pre. last_block x < from) \<and>
            first_block c \<le> from \<and> from \<le> last_block c \<and>
            rep R (upd_tx u') (upd_dataset_id u) (c # post) \<and> h = last (c # post) \<and>
            fin = fin_above (first_block c) (finalized_head (upd_label u)) \<and>
            upd_label u' = label_set_finalized_head fin (upd_label u)
      | _ \<Rightarrow> rep R (upd_tx u') (upd_dataset_id u) [] \<and> upd_label u' = label_set_finalized_head None (upd_label u))"

lemma label_set_same [simp]: "label_set_finalized_head (finalized_head l) l = l"
  by (simp add: label_set_finalized_head_def)

lemma label_set_simps [simp]:
  "finalized_head (label_set_finalized_head h l) = h" "kind (label_set_finalized_head h l) = kind l"
  "version (label_set_finalized_head h l) = version l"
  by (simp_all add: label_set_finalized_head_def)

context kv_store
begin

lemma upd_delete_chunk_rep:
  assumes rep: "rep R (upd_tx u) (upd_dataset_id u) (c # cs)" and del: "upd_delete_chunk R X c u = Inr u'"
  shows "rep R (upd_tx u') (upd_dataset_id u) cs" "upd_dataset_id u' = upd_dataset_id u" "upd_label u' = upd_label u"
proof -
  obtain t1 where t1: "unindex_hashes R X (upd_tx u) (upd_dataset_id u) c = Inr t1"
    and u': "u' = u\<lparr>upd_tx := delete_chunk R t1 (upd_dataset_id u) c\<rparr>"
    using del by (auto simp: upd_delete_chunk_def)
  have rep1: "rep R t1 (upd_dataset_id u) (c # cs)"
    using hash_frame_rep [OF unindex_hashes_frame [OF t1 repD(4) [OF rep]]] rep by simp
  have sorted: "chunks_sorted (c # cs)" by (rule repD(2) [OF rep])
  have "last_block x \<noteq> last_block c" if "x \<in> set cs" for x
    using sorted that chunks_sortedD [of cs x] by auto
  then have "rep R (delete_chunk R t1 (upd_dataset_id u) c) (upd_dataset_id u) cs"
    using sorted by (intro rep_delete_chunk [OF rep1]) auto
  then show "rep R (upd_tx u') (upd_dataset_id u) cs" by (simp add: u')
  show "upd_dataset_id u' = upd_dataset_id u" "upd_label u' = upd_label u" by (simp_all add: u')
qed

lemma retain_loop_post:
  assumes "rep R (upd_tx u) (upd_dataset_id u) cs"
    and "retain_loop R X from ph del (map Inr cs) u st0 = Inr (st, u')" and "\<forall>c h fin. st0 \<noteq> RetainedRange c h fin"
  shows "retain_post R u cs from st u'"
  using assms
proof (induction cs arbitrary: u st0)
  case Nil
  then show ?case
    by (cases st) (auto simp: retain_post_def upd_set_finalized_head_def)
next
  case (Cons c cs)
  note rep = Cons.prems(1) and sorted = repD(2) [OF Cons.prems(1)]
  have step: "retain_post R u (c # cs) from st u'"
    if d: "upd_delete_chunk R X c u = Inr u1" and loop: "retain_loop R X from ph del (map Inr cs) u1 st1 = Inr (st, u')"
      and st1: "\<forall>c h fin. st1 \<noteq> RetainedRange c h fin" and out: "last_block c < from \<or> from < first_block c \<or> first_block c \<le> from"
    for u1 st1
  proof -
    note u1 = upd_delete_chunk_rep [OF rep d]
    have post: "retain_post R u1 cs from st u'"
      using Cons.IH [OF _ loop st1] u1 by simp
    show ?thesis
    proof (cases st)
      case (RetainedRange x h fin)
      then obtain pre rest where pr: "cs = pre @ x # rest" "\<forall>y\<in>set pre. last_block y < from"
        "first_block x \<le> from" "from \<le> last_block x" "rep R (upd_tx u') (upd_dataset_id u1) (x # rest)" "h = last (x # rest)"
        "fin = fin_above (first_block x) (finalized_head (upd_label u1))"
        "upd_label u' = label_set_finalized_head fin (upd_label u1)" "upd_dataset_id u' = upd_dataset_id u1"
        using post unfolding retain_post_def by auto
      have "last_block c < first_block x" using sorted pr(1) by auto
      then have "last_block c < from" using pr(3) by auto
      then have "c # cs = (c # pre) @ x # rest \<and> (\<forall>y\<in>set (c # pre). last_block y < from)" using pr by simp
      then show ?thesis
        unfolding retain_post_def RetainedRange retain_status.case using pr(3-) u1(2,3) by metis
    qed (use post u1 in \<open>auto simp: retain_post_def\<close>)
  qed
  show ?case
  proof (cases "last_block c < from \<or> from < first_block c")
    case True
    then show ?thesis using Cons.prems(2,3) step by (auto split: if_splits)
  next
    case False
    then have in_c: "first_block c \<le> from" "from \<le> last_block c" by auto
    obtain check where check: "(case ph of Some h \<Rightarrow> validate_parent_block_hash X c from h | None \<Rightarrow> Inr (Inr ())) = Inr check"
      using Cons.prems(2) False by (auto split: option.splits)
    show ?thesis
    proof (cases check)
      case (Inl actual)
      then show ?thesis
        using Cons.prems(2) False check step in_c by (auto split: if_splits option.splits)
    next
      case (Inr v)
      have "list_chunks_rev R (upd_tx u) (upd_dataset_id u) 0 None = map Inr (rev (c # cs))"
        by (simp add: list_chunks_rev_rep [OF rep])
      moreover obtain ys where "rev (c # cs) = last (c # cs) # ys"
        by (metis append_butlast_last_id list.simps(3) rev.simps(2) rev_append rev_rev_ident append_Cons append_Nil)
      ultimately have h: "(case list_chunks_rev R (upd_tx u) (upd_dataset_id u) 0 None of r # _ \<Rightarrow> r | [] \<Rightarrow> Inl MissingHeadPanic) =
          Inr (last (c # cs))" by (metis list.simps(5) list.simps(9))
      let ?fin = "fin_above (first_block c) (finalized_head (upd_label u))"
      have eq: "st = RetainedRange c (last (c # cs)) ?fin \<and>
          u' = (if ?fin = None then upd_set_finalized_head None u else u)"
        using Cons.prems(2) False check Inr h by (auto simp: Let_def fin_above_def)
      have lab: "?fin \<noteq> None \<Longrightarrow> ?fin = finalized_head (upd_label u)"
        by (auto simp: fin_above_def split: option.splits if_splits)
      then have "upd_label u' = label_set_finalized_head ?fin (upd_label u)"
        using eq by (cases "?fin = None") (auto simp: upd_set_finalized_head_def)
      moreover have "upd_tx u' = upd_tx u" "upd_dataset_id u' = upd_dataset_id u"
        using eq by (simp_all add: upd_set_finalized_head_def)
      ultimately have "c # cs = [] @ c # cs \<and> (\<forall>x\<in>set []. last_block x < from) \<and> first_block c \<le> from \<and>
          from \<le> last_block c \<and> rep R (upd_tx u') (upd_dataset_id u) (c # cs) \<and> last (c # cs) = last (c # cs) \<and>
          ?fin = ?fin \<and> upd_label u' = label_set_finalized_head ?fin (upd_label u) \<and> upd_dataset_id u' = upd_dataset_id u"
        using in_c rep by simp
      then show ?thesis
        unfolding retain_post_def eq [THEN conjunct1] retain_status.case by blast
    qed
  qed
qed

end

end
