(* ===== verification/WriterInvariant.thy ===== *)
theory WriterInvariant
  imports WriteSafety
begin

text \<open>
  The invariant of the dataset writer. \<open>view\<close> is what a dataset's writer and its readers see of the
  stored state: a linked chain of chunks and a finalized head. Other parties may rewrite the same
  history into other chunks while a transaction retries (\<open>maintained\<close>); every operation of the writer
  keeps \<open>wc_inv\<close> under such an environment.
\<close>

section \<open>Views of a dataset\<close>

definition view :: "('t, 'v) kv \<Rightarrow> 't \<Rightarrow> sid \<Rightarrow> chunk list \<Rightarrow> block_ref option \<Rightarrow> bool" where
  "view R t ds cs fin \<longleftrightarrow>
     rep R t ds cs \<and> chain cs \<and> (\<exists>l. find_label_for_update R t ds = Inr (Some l) \<and> finalized_head l = fin)"

definition history :: "tx_ctx \<Rightarrow> (chunk \<Rightarrow> (u64 \<times> bytes) list) \<Rightarrow> chunk list \<Rightarrow> bool" where
  "history X rows cs \<longleftrightarrow> (\<forall>x\<in>set cs. tables_ok X rows x)"

text \<open>The same window: same start, anchor and head, and a first chunk that did not shrink.\<close>

definition same_span :: "chunk list \<Rightarrow> chunk list \<Rightarrow> bool" where
  "same_span cs cs' \<longleftrightarrow> (cs' = [] \<longleftrightarrow> cs = []) \<and>
     (cs \<noteq> [] \<longrightarrow> first_block (hd cs') = first_block (hd cs) \<and> parent_block_hash (hd cs') = parent_block_hash (hd cs) \<and>
        get_chunk_head (last cs') = get_chunk_head (last cs) \<and> last_block (hd cs) \<le> last_block (hd cs'))"

definition maintained :: "('t, 'v) kv \<Rightarrow> tx_ctx \<Rightarrow> (chunk \<Rightarrow> (u64 \<times> bytes) list) \<Rightarrow> sid \<Rightarrow> 't \<Rightarrow> 't \<Rightarrow> bool" where
  "maintained R X rows ds t t' \<longleftrightarrow>
     (\<forall>cs fin. view R t ds cs fin \<and> history X rows cs \<longrightarrow>
        (\<exists>cs'. view R t' ds cs' fin \<and> history X rows cs' \<and> same_span cs cs' \<and> blocks_of rows cs' = blocks_of rows cs))"

definition maintaining :: "('t, 'v) kv \<Rightarrow> tx_ctx \<Rightarrow> (chunk \<Rightarrow> (u64 \<times> bytes) list) \<Rightarrow> sid \<Rightarrow> (nat \<Rightarrow> 't attempt) \<Rightarrow> bool" where
  "maintaining R X rows ds env \<longleftrightarrow> (\<forall>k t. maintained R X rows ds t (interfere (env k) t))"

lemma same_span_refl [simp]: "same_span cs cs"
  by (simp add: same_span_def)

lemma same_span_trans: "same_span a b \<Longrightarrow> same_span b c \<Longrightarrow> same_span a c"
  unfolding same_span_def by (cases "a = []"; cases "b = []"; cases "c = []") (simp_all, meson order_trans)

lemma maintained_refl [simp]: "maintained R X rows ds t t"
  unfolding maintained_def by (intro allI impI exI conjI) auto

lemma maintainedE:
  assumes "maintained R X rows ds t t'" and "view R t ds cs fin" and "history X rows cs"
  obtains cs' where "view R t' ds cs' fin" "history X rows cs'" "same_span cs cs'" "blocks_of rows cs' = blocks_of rows cs"
  using assms unfolding maintained_def by blast

lemma maintained_trans:
  assumes ab: "maintained R X rows ds a b" and bc: "maintained R X rows ds b c"
  shows "maintained R X rows ds a c"
  unfolding maintained_def
proof (intro allI impI, elim conjE)
  fix cs fin
  assume a: "view R a ds cs fin" "history X rows cs"
  obtain cs1 where 1: "view R b ds cs1 fin" "history X rows cs1" "same_span cs cs1" "blocks_of rows cs1 = blocks_of rows cs"
    by (rule maintainedE [OF ab a])
  obtain cs2 where 2: "view R c ds cs2 fin" "history X rows cs2" "same_span cs1 cs2" "blocks_of rows cs2 = blocks_of rows cs1"
    by (rule maintainedE [OF bc 1(1,2)])
  show "\<exists>cs'. view R c ds cs' fin \<and> history X rows cs' \<and> same_span cs cs' \<and> blocks_of rows cs' = blocks_of rows cs"
    using 2 1(4) same_span_trans [OF 1(3) 2(3)] by (intro exI [of _ cs2]) simp
qed

lemma maintained_seen_by: "maintaining R X rows ds env \<Longrightarrow> maintained R X rows ds t (seen_by env k t)"
  by (induction k) (auto simp: maintaining_def intro: maintained_trans)

lemma maintained_cong:
  assumes "\<And>f key. f = CF_CHUNKS \<or> f = CF_DATASETS \<Longrightarrow> kv_get R t' f key = kv_get R t f key"
  shows "maintained R X rows ds t t'"
proof -
  have "rep R t' ds cs \<longleftrightarrow> rep R t ds cs" for cs by (rule rep_cong) (simp add: assms)
  moreover have "find_label_for_update R t' ds = find_label_for_update R t ds"
    by (simp add: find_label_for_update_def assms)
  ultimately have "view R t' ds cs fin \<longleftrightarrow> view R t ds cs fin" for cs fin by (simp add: view_def)
  then show ?thesis unfolding maintained_def by (intro allI impI exI conjI) auto
qed

lemma quiet_maintaining [simp]: "maintaining R X rows ds quiet_env"
  by (simp add: maintaining_def quiet_env_def)

section \<open>Committed updates\<close>

text \<open>What a dataset update starts from and what it commits.\<close>

lemma update_dataset_committed:
  assumes "update_dataset R p env ds cb db = (Inr r, db')" and "maintaining R X rows ds env"
    and "view R db ds cs0 fin" and "history X rows cs0"
  obtains cs u u' where "view R (upd_tx u) ds cs fin" "history X rows cs" "same_span cs0 cs" "blocks_of rows cs = blocks_of rows cs0"
    "upd_dataset_id u = ds" "finalized_head (upd_label u) = fin" "cb u = Inr (r, u')" "db' = upd_finish R u'"
proof -
  obtain k where tx: "update_tx R ds cb (seen_by env k db) = Inr (r, db')"
    using tx_run_committed assms(1) by (metis update_dataset_def)
  obtain cs where cs: "view R (seen_by env k db) ds cs fin" "history X rows cs" "same_span cs0 cs" "blocks_of rows cs = blocks_of rows cs0"
    using maintainedE [OF maintained_seen_by [OF assms(2)] assms(3,4)] by blast
  then obtain l where l: "find_label_for_update R (seen_by env k db) ds = Inr (Some l)" "finalized_head l = fin"
    by (auto simp: view_def)
  then show thesis
    using tx cs that [of "\<lparr>upd_tx = seen_by env k db, upd_dataset_id = ds, upd_label = l\<rparr>" cs]
    by (auto simp: update_tx_def dataset_update_new_def get_label_for_update_def split: prod.splits)
qed

lemma update_dataset_failed:
  assumes "update_dataset R p env ds cb db = (Inl e, db')" and "maintaining R X rows ds env"
  shows "maintained R X rows ds db db'"
  using tx_run_failed assms maintained_seen_by by (metis update_dataset_def)

context kv_store
begin

lemma view_finish:
  assumes "rep R (upd_tx u) ds cs" "chain cs" "upd_dataset_id u = ds" "finalized_head (upd_label u) = fin"
  shows "view R (upd_finish R u) ds cs fin"
proof -
  have "rep R (upd_finish R u) ds cs"
    using assms(1) by (rule iffD1 [OF rep_cong, rotated]) (simp add: upd_finish_def write_label_def get_put)
  moreover have "find_label_for_update R (upd_finish R u) ds = Inr (Some (bump_version (upd_label u)))"
    using assms(3) by (simp add: find_label_for_update_def upd_finish_def write_label_def get_put dec_enc_label)
  moreover have "finalized_head (bump_version (upd_label u)) = fin"
    using assms(4) by (cases "upd_label u") (simp add: bump_version_def)
  ultimately show ?thesis using assms(2) by (simp add: view_def)
qed

lemma tx_run_maintained:
  assumes env: "maintaining R X rows ds env" and cb: "\<And>t r t'. cb t = Inr (r, t') \<Longrightarrow> maintained R X rows ds t t'"
  shows "maintained R X rows ds db (snd (tx_run p env cb db))"
proof -
  obtain res db' where run: "tx_run p env cb db = (res, db')" by fastforce
  show ?thesis
  proof (cases res)
    case (Inl e)
    obtain k where "db' = seen_by env k db" by (rule tx_run_failed [OF run [unfolded Inl]])
    then show ?thesis using run maintained_seen_by [OF env] by simp
  next
    case (Inr r)
    obtain k where "cb (seen_by env k db) = Inr (r, db')" by (rule tx_run_committed [OF run [unfolded Inr]])
    then show ?thesis using run maintained_trans [OF maintained_seen_by [OF env] cb] by simp
  qed
qed

lemma delete_tables_maintained:
  assumes "maintaining R X rows ds env"
  shows "maintained R X rows ds db (snd (delete_tables R p env tids db))"
proof -
  have "kv_get R (fold (\<lambda>tid t. delete_table R t tid) tids t) f key = kv_get R t f key"
    if "f = CF_CHUNKS \<or> f = CF_DATASETS" for f key t
    using that by (induction tids arbitrary: t) (auto simp: delete_table_def get_put)
  then have "maintained R X rows ds t (fold (\<lambda>tid t. delete_table R t tid) tids t)" for t by (rule maintained_cong)
  then show ?thesis unfolding delete_tables_def by (intro tx_run_maintained [OF assms]) auto
qed

end

section \<open>Invariant\<close>

definition head_of :: "chunk list \<Rightarrow> block_ref option" where
  "head_of cs = (if cs = [] then None else Some (get_chunk_head (last cs)))"

text \<open>The finalized head lies between the first block of the window and the head.\<close>

definition fin_ok :: "chunk list \<Rightarrow> block_ref option \<Rightarrow> bool" where
  "fin_ok cs fin \<longleftrightarrow>
     (\<forall>f. fin = Some f \<longrightarrow> cs \<noteq> [] \<and> first_block (hd cs) \<le> br_number f \<and> br_number f \<le> last_block (last cs))"

text \<open>The finalized head is a stored block.\<close>

definition on_chain :: "(chunk \<Rightarrow> (u64 \<times> bytes) list) \<Rightarrow> chunk list \<Rightarrow> block_ref option \<Rightarrow> bool" where
  "on_chain rows cs fin \<longleftrightarrow> (\<forall>f. fin = Some f \<longrightarrow> (br_number f, br_hash f) \<in> set (blocks_of rows cs))"

definition first_ok :: "chunk list \<Rightarrow> block_ref option \<Rightarrow> bool" where
  "first_ok cs h \<longleftrightarrow>
     (if cs = [] then h = None
      else \<exists>b. h = Some b \<and> first_block (hd cs) \<le> br_number b \<and> br_number b \<le> last_block (hd cs))"

definition wc_inv :: "('t, 'v) kv \<Rightarrow> tx_ctx \<Rightarrow> (chunk \<Rightarrow> (u64 \<times> bytes) list) \<Rightarrow> 't wc \<Rightarrow> chunk list \<Rightarrow> bool" where
  "wc_inv R X rows w cs \<longleftrightarrow>
     view R (wc_db w) (wc_dataset_id w) cs (wc_finalized_head w) \<and> history X rows cs \<and>
     wc_head w = head_of cs \<and> fin_ok cs (wc_finalized_head w) \<and> first_ok cs (wc_first_chunk_head w) \<and>
     wc_watch w = (wc_head w, wc_finalized_head w) \<and> on_chain rows cs (wc_finalized_head w)"

text \<open>Finality only advances.\<close>

definition fin_le :: "block_ref option \<Rightarrow> block_ref option \<Rightarrow> bool" where
  "fin_le a b \<longleftrightarrow> (\<forall>f. a = Some f \<longrightarrow> (\<exists>g. b = Some g \<and> (g = f \<or> br_number f < br_number g)))"

text \<open>A published pair never has finality above the head.\<close>

definition pair_ok :: "watermark_pair \<Rightarrow> bool" where
  "pair_ok v \<longleftrightarrow> (\<forall>f. snd v = Some f \<longrightarrow> (\<exists>h. fst v = Some h \<and> br_number f \<le> br_number h))"

definition observes :: "'t wc \<Rightarrow> 't wc \<Rightarrow> bool" where
  "observes w w' \<longleftrightarrow> (\<exists>ps. wc_observed w' = wc_observed w @ ps \<and> (\<forall>v\<in>set ps. pair_ok v))"

lemma wc_invD:
  assumes "wc_inv R X rows w cs"
  shows "view R (wc_db w) (wc_dataset_id w) cs (wc_finalized_head w)" "history X rows cs" "wc_head w = head_of cs"
    "fin_ok cs (wc_finalized_head w)" "first_ok cs (wc_first_chunk_head w)" "wc_watch w = (wc_head w, wc_finalized_head w)"
    "on_chain rows cs (wc_finalized_head w)"
  using assms by (simp_all add: wc_inv_def)

lemma same_spanD:
  assumes "same_span cs cs'"
  shows "head_of cs' = head_of cs" "fin_ok cs' fin = fin_ok cs fin" "first_ok cs h \<Longrightarrow> first_ok cs' h"
proof -
  have "last_block (last cs') = last_block (last cs)" if "cs \<noteq> []"
    using assms that by (auto simp: same_span_def get_chunk_head_def)
  then show "head_of cs' = head_of cs" "fin_ok cs' fin = fin_ok cs fin" "first_ok cs h \<Longrightarrow> first_ok cs' h"
    using assms by (auto simp: same_span_def head_of_def fin_ok_def first_ok_def)
qed

lemma wc_inv_maintained:
  assumes "wc_inv R X rows w cs" and "maintained R X rows (wc_dataset_id w) (wc_db w) db"
  obtains cs' where "wc_inv R X rows (w\<lparr>wc_db := db\<rparr>) cs'" "same_span cs cs'" "blocks_of rows cs' = blocks_of rows cs"
proof -
  obtain cs' where "view R db (wc_dataset_id w) cs' (wc_finalized_head w)" "history X rows cs'" "same_span cs cs'"
    "blocks_of rows cs' = blocks_of rows cs"
    using maintainedE [OF assms(2) wc_invD(1,2) [OF assms(1)]] by blast
  then show thesis
    using that [of cs'] wc_invD(3-) [OF assms(1)] same_spanD [of cs cs'] by (simp add: wc_inv_def on_chain_def)
qed

lemma wc_simps [simp]:
  "wc_db (publish v w) = wc_db w" "wc_dataset_id (publish v w) = wc_dataset_id w"
  "wc_head (publish v w) = wc_head w" "wc_finalized_head (publish v w) = wc_finalized_head w"
  "wc_first_chunk_head (publish v w) = wc_first_chunk_head w" "wc_watch (publish v w) = v"
  "wc_first_block (publish v w) = wc_first_block w" "wc_parent_block_hash (publish v w) = wc_parent_block_hash w"
  by (simp_all add: publish_def)

lemma observes_refl [simp]: "observes w w"
  by (simp add: observes_def)

lemma observes_trans [trans]: "observes a b \<Longrightarrow> observes b c \<Longrightarrow> observes a c"
  unfolding observes_def by (elim exE conjE, rule_tac x = "ps @ psa" in exI) auto

lemma observes_set:
  "pair_ok (h, snd (wc_watch w)) \<Longrightarrow> observes w (set_head h w)"
  "pair_ok (fst (wc_watch w), h) \<Longrightarrow> observes w (set_finalized_head h w)"
  by (simp_all add: observes_def set_head_def set_finalized_head_def publish_head_def publish_finalized_head_def publish_def)

lemma observes_same: "wc_observed w' = wc_observed w \<Longrightarrow> observes w w'"
  by (simp add: observes_def)

lemma observes_db [simp]: "observes w (w\<lparr>wc_db := db\<rparr>)"
  by (simp add: observes_same)

lemmas set_simps = set_finalized_head_def set_head_def publish_head_def publish_finalized_head_def

lemma fin_ok_pair: "fin_ok cs fin \<Longrightarrow> pair_ok (head_of cs, fin)"
  by (auto simp: fin_ok_def pair_ok_def head_of_def get_chunk_head_def)

lemma sorted_first: "chunks_sorted cs \<Longrightarrow> x \<in> set cs \<Longrightarrow> first_block (hd cs) \<le> first_block x"
  by (cases cs) (auto dest: order_le_less_trans intro: less_imp_le order_trans)

lemma sorted_last: "chunks_sorted cs \<Longrightarrow> x \<in> set cs \<Longrightarrow> last_block x \<le> last_block (last cs)"
proof (induction cs rule: rev_induct)
  case (snoc c cs)
  then show ?case by (auto simp: chunks_sorted_append intro: order_trans [OF less_imp_le])
qed simp

section \<open>New chunks\<close>

context kv_store
begin

lemma resolve_on_chain:
  assumes rep: "rep R (upd_tx u) (upd_dataset_id u) cs" and hist: "history X rows cs"
    and res: "resolve_finality R X u cur replacement logical_floor report = Inr (Applied f)"
    and c: "\<And>c. replacement = Some c \<Longrightarrow> tables_ok X rows c"
  shows "on_chain rows (case replacement of Some c \<Rightarrow> kept c cs @ [c] | None \<Rightarrow> cs) (Some f)"
proof -
  let ?post = "case replacement of Some c \<Rightarrow> c | None \<Rightarrow> last cs"
  let ?cs = "case replacement of Some c \<Rightarrow> kept c cs @ [c] | None \<Rightarrow> cs"
  note app = resolve_applied [OF rep res refl]
  have post: "?post \<in> set ?cs" "tables_ok X rows ?post"
    using app(4) c hist by (auto simp: history_def split: option.splits)
  consider "f = get_chunk_head ?post" | x where "x \<in> set ?cs" "tables_ok X rows x"
      "find_block_hash_in_chunk X x (br_number f) = Inr (Some (br_hash f))"
  proof (cases "f = get_chunk_head ?post")
    case False
    then obtain x where x: "replacement = Some x \<or> x \<in> set cs \<and> (\<forall>c. replacement = Some c \<longrightarrow> br_number f < first_block c)"
        "first_block x \<le> br_number f" "find_block_hash_in_chunk X x (br_number f) = Inr (Some (br_hash f))"
      using app(5) by blast
    have "x \<in> set ?cs" using x by (auto simp: kept_def split: option.splits)
    moreover have "tables_ok X rows x" using x c hist by (auto simp: history_def)
    ultimately show ?thesis using that(2) x(3) by blast
  qed blast
  then show ?thesis
  proof cases
    case 1
    then show ?thesis using post by (auto simp: on_chain_def blocks_of_def get_chunk_head_def tables_ok_def)
  next
    case (2 x)
    then show ?thesis using tables_ok_find [OF 2(2,3)] by (auto simp: on_chain_def blocks_of_def)
  qed
qed

lemma kept_fin_ok:
  assumes sorted: "chunks_sorted cs" and reach: "br_number f \<le> last_block c" and start: "first_block (hd cs) \<le> br_number f" "cs \<noteq> []"
  shows "fin_ok (kept c cs @ [c]) (Some f)"
proof -
  have "first_block (hd (kept c cs @ [c])) \<le> br_number f"
  proof (cases "first_block (hd cs) < first_block c")
    case True
    then have "hd (kept c cs @ [c]) = hd cs" using start(2) by (cases cs) (simp_all add: kept_def)
    then show ?thesis using start by simp
  next
    case False
    then have "kept c cs = []" using start(2) kept_prefix [OF sorted, of c] by (cases cs) auto
    then show ?thesis using False start by auto
  qed
  then show ?thesis using reach by (simp add: fin_ok_def)
qed

lemma compose_finality_cases:
  assumes "compose_finality R X logical_floor report c u = Inr fin'"
    and "fin' = finalized_head (upd_label u) \<Longrightarrow> P"
    and "\<And>r f. report = Some r \<Longrightarrow> fin' = Some f \<Longrightarrow>
      resolve_finality R X u (finalized_head (upd_label u)) (Some c) logical_floor r = Inr (Applied f) \<Longrightarrow> P"
  shows P
proof (cases report)
  case (Some r)
  then obtain d where "resolve_finality R X u (finalized_head (upd_label u)) (Some c) logical_floor r = Inr d"
    using assms(1) by (auto simp: compose_finality_def Let_def)
  then show ?thesis using assms Some by (cases d) (auto simp: compose_finality_def Let_def)
qed (use assms in \<open>auto simp: compose_finality_def Let_def\<close>)

lemma compose_finality_ok:
  assumes rep: "rep R (upd_tx u) (upd_dataset_id u) cs" and c: "first_block c \<le> last_block c"
    and fin: "fin_ok cs (finalized_head (upd_label u))" and guard: "finalized_guard R X c u = Inr ()"
    and comp: "compose_finality R X logical_floor report c u = Inr fin'"
  shows "fin_ok (kept c cs @ [c]) fin'" "fin_le (finalized_head (upd_label u)) fin'"
proof -
  let ?cur = "finalized_head (upd_label u)"
  note sorted = repD(2) [OF rep]
  have cur: "fin_ok (kept c cs @ [c]) ?cur"
  proof (cases ?cur)
    case (Some f)
    have "br_number f \<le> last_block c" by (rule finalized_guard_reach [OF guard Some c])
    then show ?thesis using fin Some kept_fin_ok [OF sorted] by (simp add: fin_ok_def)
  qed (simp add: fin_ok_def)
  have "fin_ok (kept c cs @ [c]) fin' \<and> fin_le ?cur fin'"
  proof (rule compose_finality_cases [OF comp])
    assume "fin' = ?cur"
    then show ?thesis using cur by (auto simp: fin_le_def)
  next
    fix r f
    assume 2: "report = Some r" "fin' = Some f" "resolve_finality R X u ?cur (Some c) logical_floor r = Inr (Applied f)"
    note app = resolve_applied [OF rep 2(3), of c, simplified]
    have "first_block (hd (kept c cs @ [c])) \<le> br_number f"
    proof -
      consider "f = get_chunk_head c" | "first_block c \<le> br_number f"
        | x where "x \<in> set cs" "br_number f < first_block c" "first_block x \<le> br_number f"
        using app(5) by auto
      then show ?thesis
      proof cases
        case (3 x)
        then have "x \<in> set (kept c cs)" by (auto simp: kept_def)
        moreover have "chunks_sorted (kept c cs)" using sorted by (simp add: kept_def chunks_sorted_filter)
        ultimately show ?thesis using 3 sorted_first [of "kept c cs" x] by (cases "kept c cs") auto
      next
        case 1
        then have "first_block c \<le> br_number f" using c by (simp add: get_chunk_head_def)
        then show ?thesis by (cases "kept c cs") (auto simp: kept_def filter_eq_Cons_iff intro: less_imp_le order_trans)
      next
        case 2
        then show ?thesis by (cases "kept c cs") (auto simp: kept_def filter_eq_Cons_iff intro: less_imp_le order_trans)
      qed
    qed
    then show ?thesis using 2(2) app(1,3) by (simp add: fin_ok_def fin_le_def)
  qed
  then show "fin_ok (kept c cs @ [c]) fin'" "fin_le ?cur fin'" by simp_all
qed

lemma new_chunk_tx_view:
  assumes view: "view R (upd_tx u) (upd_dataset_id u) cs fin" "finalized_head (upd_label u) = fin"
    and hist: "history X rows cs" and fin: "fin_ok cs fin" "on_chain rows cs fin"
    and c: "first_block c \<le> last_block c" "tables_ok X rows c"
    and tx: "new_chunk_tx R X logical_floor report c u = Inr (fin', u')"
  shows "view R (upd_finish R u') (upd_dataset_id u) (kept c cs @ [c]) fin'"
    "fin_ok (kept c cs @ [c]) fin'" "fin_ok (kept c cs @ [c]) fin" "fin_le fin fin'"
    "\<And>f. fin = Some f \<Longrightarrow>
       up_to (br_number f) (blocks_of rows (kept c cs @ [c])) = up_to (br_number f) (blocks_of rows cs)"
    "on_chain rows (kept c cs @ [c]) fin'"
proof -
  have rep: "rep R (upd_tx u) (upd_dataset_id u) cs" and ch: "chain cs" using view(1) by (simp_all add: view_def)
  note sorted = repD(2) [OF rep] and r = new_chunk_tx_result [OF rep c(1) tx]
  have "chain (kept c cs @ [c])"
    using r(4) ch by (simp add: chain_snoc kept_prefix [OF sorted] chain_take)
  then show "view R (upd_finish R u') (upd_dataset_id u) (kept c cs @ [c]) fin'"
    by (intro view_finish) (simp_all add: r)
  show "fin_ok (kept c cs @ [c]) fin'" "fin_le fin fin'"
    using compose_finality_ok [OF rep c(1) _ r(6,7)] view(2) fin by simp_all
  show "fin_ok (kept c cs @ [c]) fin"
    using compose_finality_ok(1) [OF rep c(1) _ r(6), of logical_floor None] view(2) fin
    by (simp add: compose_finality_def)
  show up: "up_to (br_number f) (blocks_of rows (kept c cs @ [c])) = up_to (br_number f) (blocks_of rows cs)"
    if f: "fin = Some f" for f
  proof (rule finalized_kept [OF sorted r(4)])
    show "\<forall>x\<in>set cs. tables_ok X rows x" "tables_ok X rows c" using hist c by (simp_all add: history_def)
    show "first_block c \<le> br_number f \<longrightarrow> up_to (br_number f) (rows c) =
      concat (map (\<lambda>x. within (first_block c) (br_number f) (rows x))
        (filter (\<lambda>x. first_block c \<le> last_block x \<and> first_block x \<le> br_number f) cs))"
    proof
      assume le: "first_block c \<le> br_number f"
      have "validate_finalized_prefix R X (upd_tx u) (upd_dataset_id u) c (br_number f) = Inr (Inr ())"
        using r(6) le view(2) f by (auto simp: finalized_guard_def)
      then show "up_to (br_number f) (rows c) =
        concat (map (\<lambda>x. within (first_block c) (br_number f) (rows x))
          (filter (\<lambda>x. first_block c \<le> last_block x \<and> first_block x \<le> br_number f) cs))"
        using validate_finalized_prefix_result [OF rep, of X rows c "br_number f"] hist c(2)
        by (simp add: history_def tables_ok_def up_to_def)
    qed
  qed
  show "on_chain rows (kept c cs @ [c]) fin'"
  proof (rule compose_finality_cases [OF r(7)])
    assume "fin' = finalized_head (upd_label u)"
    moreover have "on_chain rows (kept c cs @ [c]) fin"
      unfolding on_chain_def
    proof (intro allI impI)
      fix f
      assume f: "fin = Some f"
      then have "(br_number f, br_hash f) \<in> set (up_to (br_number f) (blocks_of rows cs))"
        using fin(2) by (simp add: on_chain_def up_to_def)
      then show "(br_number f, br_hash f) \<in> set (blocks_of rows (kept c cs @ [c]))"
        unfolding up [OF f, symmetric] by (simp add: up_to_def)
    qed
    ultimately show ?thesis using view(2) by simp
  next
    fix r0 f
    assume "fin' = Some f" "resolve_finality R X u (finalized_head (upd_label u)) (Some c) logical_floor r0 = Inr (Applied f)"
    then show ?thesis using resolve_on_chain [OF rep hist, of _ "Some c"] c(2) by simp
  qed
qed

text \<open>A refused chunk leaves the writer as it was, up to the state of the database.\<close>

lemma new_chunk_failed:
  assumes inv: "wc_inv R X rows w cs"
    and env: "maintaining R X rows (wc_dataset_id w) (E 0)" "maintaining R X rows (wc_dataset_id w) (E 1)"
    and run: "new_chunk R X p E report c w = (Inl e, w')"
  obtains db cs' where "w' = w\<lparr>wc_db := db\<rparr>" "wc_inv R X rows w' cs'" "same_span cs cs'" "blocks_of rows cs' = blocks_of rows cs"
proof -
  obtain db where db: "update_dataset R p (E 0) (wc_dataset_id w) (new_chunk_tx R X (wc_first_block w) report c) (wc_db w) = (Inl e, db)"
    and w': "w' = abandon_tables R p (E 1) c (w\<lparr>wc_db := db\<rparr>)"
    using run by (auto simp: new_chunk_def Let_def split: prod.splits sum.splits)
  let ?db = "snd (delete_tables R p (E 1) (map snd (tables c)) db)"
  have "maintained R X rows (wc_dataset_id w) (wc_db w) ?db"
    using update_dataset_failed [OF db env(1)] delete_tables_maintained [OF env(2)] by (rule maintained_trans)
  then show thesis
    using that [of ?db] wc_inv_maintained [OF inv] w' by (auto simp: abandon_tables_def)
qed

lemma new_chunk_committed:
  assumes inv: "wc_inv R X rows w cs" and env: "maintaining R X rows (wc_dataset_id w) (E 0)"
    and c: "first_block c \<le> last_block c" "tables_ok X rows c"
    and run: "new_chunk R X p E report c w = (Inr (), w')"
  obtains cs1 where "same_span cs cs1" "blocks_of rows cs1 = blocks_of rows cs" "wc_inv R X rows w' (kept c cs1 @ [c])"
    "fin_le (wc_finalized_head w) (wc_finalized_head w')" "observes w w'"
    "\<And>f. wc_finalized_head w = Some f \<Longrightarrow>
       up_to (br_number f) (blocks_of rows (kept c cs1 @ [c])) = up_to (br_number f) (blocks_of rows cs)"
proof -
  obtain fin' db where db: "update_dataset R p (E 0) (wc_dataset_id w) (new_chunk_tx R X (wc_first_block w) report c) (wc_db w) = (Inr fin', db)"
    using run by (auto simp: new_chunk_def Let_def split: prod.splits sum.splits)
  define w1 where "w1 = set_finalized_head fin' (set_head (Some (get_chunk_head c)) (w\<lparr>wc_db := db\<rparr>))"
  have w': "w' = (if (case wc_first_chunk_head w1 of None \<Rightarrow> True | Some h \<Rightarrow> first_block c \<le> br_number h)
              then w1\<lparr>wc_first_chunk_head := wc_head w1\<rparr> else w1)"
    using run db by (auto simp: new_chunk_def Let_def w1_def split: if_splits)
  note invs = wc_invD [OF inv]
  obtain cs1 u u' where v: "view R (upd_tx u) (wc_dataset_id w) cs1 (wc_finalized_head w)" "history X rows cs1"
    and span: "same_span cs cs1" "blocks_of rows cs1 = blocks_of rows cs"
    and u: "upd_dataset_id u = wc_dataset_id w" "finalized_head (upd_label u) = wc_finalized_head w"
      "new_chunk_tx R X (wc_first_block w) report c u = Inr (fin', u')" "db = upd_finish R u'"
    using update_dataset_committed [OF db env invs(1,2)] by metis
  let ?cs = "kept c cs1 @ [c]"
  have oc: "on_chain rows cs1 (wc_finalized_head w)" using invs(7) span(2) by (simp add: on_chain_def)
  have fo: "fin_ok cs1 (wc_finalized_head w)" using invs(4) same_spanD(2) [OF span(1)] by simp
  note t = new_chunk_tx_view [OF v(1) [folded u(1)] u(2) v(2) fo oc c u(3)]
  have f1: "first_ok cs1 (wc_first_chunk_head w)" by (rule same_spanD(3) [OF span(1) invs(5)])
  have sorted: "chunks_sorted cs1" using v(1) repD(2) by (auto simp: view_def)
  have w1: "wc_db w1 = db" "wc_dataset_id w1 = wc_dataset_id w" "wc_head w1 = head_of ?cs" "wc_finalized_head w1 = fin'"
    "wc_first_chunk_head w1 = wc_first_chunk_head w" "wc_watch w1 = (head_of ?cs, fin')"
    by (simp_all add: w1_def set_finalized_head_def set_head_def publish_head_def publish_finalized_head_def head_of_def)
  have first: "first_ok ?cs (wc_first_chunk_head w')"
  proof (cases "kept c cs1")
    case Nil
    have "cs1 = [] \<or> first_block c \<le> first_block (hd cs1)"
      using Nil kept_prefix [OF sorted, of c] by (cases cs1) (auto split: if_splits)
    then have "case wc_first_chunk_head w1 of None \<Rightarrow> True | Some h \<Rightarrow> first_block c \<le> br_number h"
      using f1 w1(5) by (auto simp: first_ok_def split: if_splits option.splits intro: order_trans)
    then show ?thesis using Nil w' w1(3) c(1) by (simp add: first_ok_def head_of_def get_chunk_head_def)
  next
    case (Cons k ks)
    then have k: "k = hd cs1" "cs1 \<noteq> []" using kept_prefix [OF sorted, of c] by (cases cs1; auto split: if_splits)+
    have rep: "rep R (upd_tx u) (upd_dataset_id u) cs1" using v(1) u(1) by (simp add: view_def)
    have ks: "chunks_sorted (kept c cs1)" using sorted by (simp add: kept_def chunks_sorted_filter)
    have "last_block k < first_block c"
      by (rule kept_below [OF ks new_chunk_tx_result(4) [OF rep c(1) u(3)]]) (simp add: Cons)
    then have "\<not> first_block c \<le> br_number b" if "wc_first_chunk_head w = Some b" for b
      using f1 k that by (auto simp: first_ok_def)
    moreover have "hd ?cs = hd cs1" using Cons k by simp
    ultimately show ?thesis using f1 k(2) w' w1(5) by (auto simp: first_ok_def)
  qed
  have ob: "observes w w'"
  proof -
    let ?h = "set_head (Some (get_chunk_head c)) (w\<lparr>wc_db := db\<rparr>)"
    have hd: "head_of ?cs = Some (get_chunk_head c)" by (simp add: head_of_def)
    have "observes w (w\<lparr>wc_db := db\<rparr>)" by (simp add: observes_same)
    also have "observes (w\<lparr>wc_db := db\<rparr>) ?h"
      using fin_ok_pair [OF t(3)] invs(6) hd by (intro observes_set) simp
    also have "observes ?h w1"
      unfolding w1_def using fin_ok_pair [OF t(2)] hd by (intro observes_set) (simp add: set_simps)
    also have "observes w1 w'" using w' by (intro observes_same) simp
    finally show ?thesis .
  qed
  have w'_simps: "wc_db w' = db" "wc_dataset_id w' = wc_dataset_id w" "wc_head w' = head_of ?cs"
    "wc_finalized_head w' = fin'" "wc_watch w' = (head_of ?cs, fin')"
    using w' w1 by auto
  have "history X rows ?cs" using v(2) c(2) by (auto simp: history_def kept_def)
  then have "wc_inv R X rows w' ?cs"
    unfolding wc_inv_def using w'_simps t(1,2,6) u(1,4) first by simp
  then show thesis
    using that [OF span] t(4,5) w'_simps(4) ob span(2) by simp
qed

section \<open>Finality reports\<close>

lemma resolve_fin_ok:
  assumes rep: "rep R (upd_tx u) (upd_dataset_id u) cs"
    and res: "resolve_finality R X u cur None logical_floor report = Inr (Applied f)"
  shows "fin_ok cs (Some f)" "fin_le cur (Some f)"
proof -
  note app = resolve_applied [OF rep res refl, simplified] and sorted = repD(2) [OF rep]
  have "first_block (hd cs) \<le> br_number f"
  proof (cases "f = get_chunk_head (last cs)")
    case True
    have "first_block (hd cs) \<le> first_block (last cs)" using sorted app(4) by (intro sorted_first) simp_all
    then show ?thesis
      using True chunks_sortedD [OF sorted, of "last cs"] app(4) by (auto simp: get_chunk_head_def intro: order_trans)
  next
    case False
    then show ?thesis using app(5) sorted_first [OF sorted] by (auto intro: order_trans)
  qed
  then show "fin_ok cs (Some f)" "fin_le cur (Some f)" using app by (simp_all add: fin_ok_def fin_le_def)
qed

lemma finalize_inv:
  assumes inv: "wc_inv R X rows w cs" and env: "maintaining R X rows (wc_dataset_id w) env"
    and run: "finalize R X p env report w = (res, w')"
  obtains cs' where "wc_inv R X rows w' cs'" "same_span cs cs'" "blocks_of rows cs' = blocks_of rows cs"
    "fin_le (wc_finalized_head w) (wc_finalized_head w')" "observes w w'"
proof (cases "wc_head w")
  case None
  then show thesis using run that [of cs] inv by (auto simp: finalize_def fin_le_def)
next
  case (Some head)
  note invs = wc_invD [OF inv]
  obtain r db where db: "update_dataset R p env (wc_dataset_id w) (finalize_tx R X w head report) (wc_db w) = (r, db)" by fastforce
  have le: "fin_le (wc_finalized_head w) (wc_finalized_head w)" by (auto simp: fin_le_def)
  show thesis
  proof (cases r)
    case (Inl e)
    have "maintained R X rows (wc_dataset_id w) (wc_db w) db" by (rule update_dataset_failed [OF db [unfolded Inl] env])
    then obtain cs' where "wc_inv R X rows (w\<lparr>wc_db := db\<rparr>) cs'" "same_span cs cs'" "blocks_of rows cs' = blocks_of rows cs"
      by (rule wc_inv_maintained [OF inv])
    then show ?thesis using that [of cs'] run db Some Inl le by (auto simp: finalize_def)
  next
    case (Inr d)
    obtain cs1 u u' where v: "view R (upd_tx u) (wc_dataset_id w) cs1 (wc_finalized_head w)" "history X rows cs1"
      and span: "same_span cs cs1" "blocks_of rows cs1 = blocks_of rows cs"
      and u: "upd_dataset_id u = wc_dataset_id w" "finalized_head (upd_label u) = wc_finalized_head w"
        "finalize_tx R X w head report u = Inr (d, u')" "db = upd_finish R u'"
      using update_dataset_committed [OF db [unfolded Inr] env invs(1,2)] by metis
    have rep: "rep R (upd_tx u) (upd_dataset_id u) cs1" and ch: "chain cs1" using v(1) u(1) by (simp_all add: view_def)
    obtain dec where dec: "resolve_finality R X u (finalized_head (upd_label u)) None (wc_first_block w) report = Inr dec"
      using u(3) by (auto simp: finalize_tx_def)
    consider "d = None" "u' = u" | f where "d = Some f" "u' = upd_set_finalized_head (Some f) u" "dec = Applied f"
      using u(3) dec by (cases dec) (auto simp: finalize_tx_def)
    then show ?thesis
    proof cases
      case 1
      have "view R db (wc_dataset_id w) cs1 (wc_finalized_head w)"
        unfolding u(4) 1 using rep ch u(1,2) by (intro view_finish) simp_all
      then have "wc_inv R X rows (w\<lparr>wc_db := db\<rparr>) cs1"
        using invs v(2) same_spanD [OF span(1)] span(2) by (simp add: wc_inv_def on_chain_def)
      then show ?thesis using that [of cs1] run db Some Inr 1 le span by (auto simp: finalize_def)
    next
      case (2 f)
      note ok = resolve_fin_ok [OF rep dec [unfolded 2(3)]]
      have oc: "on_chain rows cs1 (Some f)" using resolve_on_chain [OF rep v(2) dec [unfolded 2(3)]] by simp
      let ?w = "set_finalized_head (Some f) (w\<lparr>wc_db := db\<rparr>)"
      have w': "w' = ?w" using run db Some Inr 2(1) by (simp add: finalize_def)
      have "view R db (wc_dataset_id w) cs1 (Some f)"
        unfolding u(4) 2(2) using rep ch u(1,2) by (intro view_finish) (simp_all add: upd_set_finalized_head_def)
      then have inv': "wc_inv R X rows ?w cs1"
        using invs v(2) same_spanD [OF span(1)] ok(1) oc by (simp add: wc_inv_def set_simps)
      have "observes w (w\<lparr>wc_db := db\<rparr>)" by (simp add: observes_same)
      also have "observes (w\<lparr>wc_db := db\<rparr>) ?w"
        using fin_ok_pair [OF ok(1)] same_spanD(1) [OF span(1)] invs(3,6) by (intro observes_set) simp
      finally have "observes w ?w" .
      moreover have "fin_le (wc_finalized_head w) (wc_finalized_head ?w)" using ok(2) u(2) by (simp add: set_simps)
      ultimately show ?thesis using that [of cs1] inv' span w' by simp
    qed
  qed
qed

section \<open>Retention\<close>

lemma retain_tx_post:
  assumes rep: "rep R (upd_tx u) (upd_dataset_id u) cs" and tx: "retain_tx R X from ph del u = Inr (st, u')"
  shows "retain_post R u cs from st u'"
proof -
  have "list_chunks R (upd_tx u) (upd_dataset_id u) 0 None = map Inr cs" by (simp add: list_chunks_rep [OF rep])
  then show ?thesis using retain_loop_post [OF rep, of X "from" ph del Clear st] tx by (simp add: retain_tx_def)
qed

lemma retained_range:
  assumes cs: "cs = pre @ c # post" and pre: "\<forall>x\<in>set pre. last_block x < from" and hist: "history X rows cs"
  shows "filter (\<lambda>r. from \<le> fst r) (blocks_of rows (c # post)) = filter (\<lambda>r. from \<le> fst r) (blocks_of rows cs)"
    "head_of (c # post) = head_of cs"
proof -
  have "filter (\<lambda>r. from \<le> fst r) (rows x) = []" if "x \<in> set pre" for x
  proof -
    have "fst r < from" if "r \<in> set (rows x)" for r
      using hist cs pre \<open>x \<in> set pre\<close> that by (force simp: history_def tables_ok_def)
    then show ?thesis by (simp add: filter_empty_conv not_le)
  qed
  then show "filter (\<lambda>r. from \<le> fst r) (blocks_of rows (c # post)) = filter (\<lambda>r. from \<le> fst r) (blocks_of rows cs)"
    by (simp add: cs blocks_of_def filter_concat comp_def)
  show "head_of (c # post) = head_of cs" by (simp add: cs head_of_def)
qed

lemma chain_suffix: "chain (pre @ cs) \<Longrightarrow> chain cs"
  by (induction pre rule: chain.induct) (auto, metis chain.elims(3) chain.simps(1))

lemma retain_inv:
  assumes inv: "wc_inv R X rows w cs" and env: "maintaining R X rows (wc_dataset_id w) env"
    and run: "retain_with R X p env from ph del w = (res, w')"
  obtains cs' where "wc_inv R X rows w' cs'"
    "\<And>e. res = Inl e \<Longrightarrow> same_span cs cs' \<and> blocks_of rows cs' = blocks_of rows cs \<and> observes w w'"
    "res = Inr True \<Longrightarrow> wc_head w' = wc_head w \<and> observes w w' \<and>
       filter (\<lambda>r. from \<le> fst r) (blocks_of rows cs') = filter (\<lambda>r. from \<le> fst r) (blocks_of rows cs) \<and>
       (starts_at w from ph \<or> cs' \<noteq> [] \<and> first_block (hd cs') \<le> from \<and> from \<le> last_block (hd cs'))"
    "res = Inr False \<Longrightarrow> cs' = [] \<and> wc_finalized_head w' = None"
proof (cases "starts_at w from ph")
  case True
  then show thesis using run inv that [of cs] by (auto simp: retain_with_def)
next
  case False
  note invs = wc_invD [OF inv]
  obtain r db where db: "update_dataset R p env (wc_dataset_id w) (retain_tx R X from ph del) (wc_db w) = (r, db)" by fastforce
  show thesis
  proof (cases r)
    case (Inl e)
    have "maintained R X rows (wc_dataset_id w) (wc_db w) db" by (rule update_dataset_failed [OF db [unfolded Inl] env])
    then obtain cs' where "wc_inv R X rows (w\<lparr>wc_db := db\<rparr>) cs'" "same_span cs cs'" "blocks_of rows cs' = blocks_of rows cs"
      by (rule wc_inv_maintained [OF inv])
    then show ?thesis using that [of cs'] run db False Inl by (auto simp: retain_with_def)
  next
    case (Inr st)
    obtain cs1 u u' where v: "view R (upd_tx u) (wc_dataset_id w) cs1 (wc_finalized_head w)" "history X rows cs1"
      and span: "same_span cs cs1" "blocks_of rows cs1 = blocks_of rows cs"
      and u: "upd_dataset_id u = wc_dataset_id w" "finalized_head (upd_label u) = wc_finalized_head w"
        "retain_tx R X from ph del u = Inr (st, u')" "db = upd_finish R u'"
      using update_dataset_committed [OF db [unfolded Inr] env invs(1,2)] by metis
    have rep: "rep R (upd_tx u) (upd_dataset_id u) cs1" and ch: "chain cs1" using v(1) u(1) by (simp_all add: view_def)
    note post = retain_tx_post [OF rep u(3)]
    obtain k w1 where w1: "apply_retain_status st (w\<lparr>wc_db := db\<rparr>) = (k, w1)" by fastforce
    have w': "w' = w1\<lparr>wc_first_block := from, wc_parent_block_hash := ph\<rparr>" and res: "res = Inr k"
      using run db False Inr w1 by (auto simp: retain_with_def Let_def)
    show ?thesis
    proof (cases "\<exists>c h fin. st = RetainedRange c h fin")
      case True
      then obtain c h fin where st: "st = RetainedRange c h fin" by blast
      then obtain pre rest where pr: "cs1 = pre @ c # rest" "\<forall>x\<in>set pre. last_block x < from"
        "rep R (upd_tx u') (upd_dataset_id u) (c # rest)" "h = last (c # rest)"
        "fin = fin_above (first_block c) (finalized_head (upd_label u))"
        "upd_label u' = label_set_finalized_head fin (upd_label u)" "upd_dataset_id u' = upd_dataset_id u"
        and inside: "first_block c \<le> from" "from \<le> last_block c"
        using post unfolding retain_post_def by auto
      note rr = retained_range [OF pr(1,2) v(2)]
      have vw: "view R db (wc_dataset_id w) (c # rest) fin"
        unfolding u(4) using pr u(1) chain_suffix ch by (intro view_finish) auto
      have "fin_ok cs1 (wc_finalized_head w)" using invs(4) same_spanD(2) [OF span(1)] by simp
      then have fo: "fin_ok (c # rest) fin"
        using pr(1,5) u(2)
        by (auto simp: fin_ok_def fin_above_def split: option.splits if_splits)
      have oc: "on_chain rows (c # rest) fin"
        unfolding on_chain_def
      proof (intro allI impI)
        fix f
        assume f: "fin = Some f"
        then have ff: "wc_finalized_head w = Some f" "first_block c \<le> br_number f"
          using pr(5) u(2) by (auto simp: fin_above_def split: option.splits if_splits)
        then have "(br_number f, br_hash f) \<in> set (blocks_of rows cs1)" using invs(7) span(2) by (simp add: on_chain_def)
        then obtain x where x: "x \<in> set cs1" "(br_number f, br_hash f) \<in> set (rows x)" by (auto simp: blocks_of_def)
        have "x \<notin> set pre"
        proof
          assume "x \<in> set pre"
          then have "last_block x < first_block c" using repD(2) [OF rep] pr(1) by (auto simp: chunks_sorted_append)
          moreover have "br_number f \<le> last_block x" using x v(2) by (force simp: history_def tables_ok_def)
          ultimately show False using ff(2) by auto
        qed
        then show "(br_number f, br_hash f) \<in> set (blocks_of rows (c # rest))" using x pr(1) by (auto simp: blocks_of_def)
      qed
      have head: "wc_head w = head_of (c # rest)" using invs(3) same_spanD(1) [OF span(1)] rr(2) by simp
      have hh: "Some (get_chunk_head h) = wc_head w" using pr(4) head by (simp add: head_of_def)
      have w1': "w1 = (set_finalized_head fin (set_head (wc_head w) (w\<lparr>wc_db := db\<rparr>)))
          \<lparr>wc_first_chunk_head := Some (get_chunk_head c)\<rparr>" and k: "k"
        using w1 st hh by (auto simp: apply_retain_status_def)
      have fc: "first_ok (c # rest) (Some (get_chunk_head c))"
        using chunks_sortedD [OF repD(2) [OF pr(3)], of c] by (simp add: first_ok_def get_chunk_head_def)
      have "wc_inv R X rows w' (c # rest)"
        unfolding wc_inv_def w' w1'
        using vw fo head fc v(2) pr(1) oc by (simp add: set_simps history_def)
      moreover have "observes w w'"
      proof -
        have "observes w (set_head (wc_head w) (w\<lparr>wc_db := db\<rparr>))"
          using invs(6) fin_ok_pair [OF invs(4)] invs(3) by (intro observes_trans [OF observes_db observes_set(1)]) simp
        also have "observes (set_head (wc_head w) (w\<lparr>wc_db := db\<rparr>)) (set_finalized_head fin (set_head (wc_head w) (w\<lparr>wc_db := db\<rparr>)))"
          using fin_ok_pair [OF fo] head by (intro observes_set) (simp add: set_simps)
        also have "observes (set_finalized_head fin (set_head (wc_head w) (w\<lparr>wc_db := db\<rparr>))) w'"
          by (simp add: w' w1' observes_same)
        finally show ?thesis .
      qed
      moreover have "wc_head w' = wc_head w" by (simp add: w' w1' set_simps)
      ultimately show ?thesis using that [of "c # rest"] res k rr(1) span(2) inside by simp
    next
      case False
      then have pc: "rep R (upd_tx u') (upd_dataset_id u) []" "upd_dataset_id u' = upd_dataset_id u"
        "finalized_head (upd_label u') = None"
        using post by (auto simp: retain_post_def split: retain_status.splits)
      have w1': "w1 = clear_heads (w\<lparr>wc_db := db\<rparr>)" and k: "\<not> k"
        using w1 False by (auto simp: apply_retain_status_def split: retain_status.splits)
      have vw: "view R db (wc_dataset_id w) [] None"
        unfolding u(4) using pc u(1) by (intro view_finish) auto
      have "wc_inv R X rows w' []"
        using vw by (simp add: wc_inv_def w' w1' clear_heads_def set_simps history_def head_of_def fin_ok_def first_ok_def on_chain_def)
      moreover have "wc_finalized_head w' = None" by (simp add: w' w1' clear_heads_def set_simps)
      ultimately show ?thesis using that [of "[]"] res k by simp
    qed
  qed
qed

end

end
