(* ===== verification/Writer.thy ===== *)
theory Writer
  imports WriterInvariant
begin

text \<open>
  The writer over time: opening a dataset, the messages of the ingest task, retention, background
  maintenance and restarts as steps, the invariant of every reachable writer, and the properties of
  the single operations.
\<close>

section \<open>Opening\<close>

definition absent :: "('t, 'v) kv \<Rightarrow> sid \<Rightarrow> 't \<Rightarrow> bool" where
  "absent R ds t \<longleftrightarrow> kv_get R t CF_DATASETS ds = None \<and> rep R t ds []"

definition openable :: "('t, 'v) kv \<Rightarrow> tx_ctx \<Rightarrow> (chunk \<Rightarrow> (u64 \<times> bytes) list) \<Rightarrow> sid \<Rightarrow> 't \<Rightarrow> bool" where
  "openable R X rows ds t \<longleftrightarrow> absent R ds t \<or> (\<exists>cs fin. view R t ds cs fin \<and> history X rows cs \<and> fin_ok cs fin \<and> on_chain rows cs fin)"

text \<open>Nobody else creates the dataset.\<close>

definition keeps_absent :: "('t, 'v) kv \<Rightarrow> sid \<Rightarrow> (nat \<Rightarrow> 't attempt) \<Rightarrow> bool" where
  "keeps_absent R ds env \<longleftrightarrow> (\<forall>k t. absent R ds t \<longrightarrow> absent R ds (interfere (env k) t))"

lemma absent_seen_by: "keeps_absent R ds env \<Longrightarrow> absent R ds t \<Longrightarrow> absent R ds (seen_by env k t)"
  by (induction k) (auto simp: keeps_absent_def)

lemma quiet_keeps_absent [simp]: "keeps_absent R ds quiet_env"
  by (simp add: keeps_absent_def quiet_env_def)

lemma openable_maintained:
  assumes "maintained R X rows ds t t'" and "absent R ds t \<Longrightarrow> absent R ds t'" and "openable R X rows ds t"
  shows "openable R X rows ds t'"
  using assms(3) unfolding openable_def
proof (elim disjE exE conjE)
  fix cs fin
  assume cs: "view R t ds cs fin" "history X rows cs" and fin: "fin_ok cs fin" "on_chain rows cs fin"
  obtain cs' where "view R t' ds cs' fin" "history X rows cs'" "same_span cs cs'" "blocks_of rows cs' = blocks_of rows cs"
    by (rule maintainedE [OF assms(1) cs])
  then show "absent R ds t' \<or> (\<exists>cs fin. view R t' ds cs fin \<and> history X rows cs \<and> fin_ok cs fin \<and> on_chain rows cs fin)"
    using fin same_spanD(2) [of cs cs'] by (intro disjI2 exI [of _ cs'] exI [of _ fin]) (simp add: on_chain_def)
qed (use assms(2) in simp)

context kv_store
begin

lemma openable_purge:
  assumes "openable R X rows ds t" 
  shows "openable R X rows ds (purge_stale_hash_indexes_if_dataset_absent R ds t)"
proof -
  have ds: "sid_ok 48 ds" using assms by (auto simp: openable_def absent_def view_def dest: repD(1))
  let ?t = "purge_stale_hash_indexes_if_dataset_absent R ds t"
  have get: "kv_get R ?t f key = kv_get R t f key" if "f = CF_CHUNKS \<or> f = CF_DATASETS" for f key
    using that by (auto simp: purge_stale_hash_indexes_if_dataset_absent_def get_purge_hash_indexes [OF ds])
  have "rep R ?t ds cs \<longleftrightarrow> rep R t ds cs" for cs by (rule rep_cong) (simp add: get)
  then have ab: "absent R ds t \<Longrightarrow> absent R ds ?t" by (simp add: absent_def get)
  have "maintained R X rows ds t ?t" by (rule maintained_cong) (rule get)
  then show ?thesis using ab assms by (rule openable_maintained)
qed

lemma create_openable:
  assumes run: "create_dataset_if_not_exists R p env ds k db = (res, db')"
    and env: "maintaining R X rows ds env" "keeps_absent R ds env" and op: "openable R X rows ds db"
  shows "openable R X rows ds db'" and "res = Inr () \<Longrightarrow> \<exists>cs fin. view R db' ds cs fin \<and> history X rows cs \<and> fin_ok cs fin \<and> on_chain rows cs fin"
proof -
  let ?db = "purge_stale_hash_indexes_if_dataset_absent R ds db"
  let ?cb = "\<lambda>t. rbind (find_label_for_update R t ds) (\<lambda>label.
       case label of
         Some l \<Rightarrow> rbind (ensure (kind l = k) KindMismatch) (\<lambda>_. Inr ((), t))
       | None \<Rightarrow> Inr ((), write_label R t ds (LabelV0 k 0 None)))"
  have seen: "openable R X rows ds (seen_by env n ?db)" for n
    using openable_maintained [OF maintained_seen_by [OF env(1)] absent_seen_by [OF env(2)] openable_purge [OF op]] .
  note tx = run [unfolded create_dataset_if_not_exists_def]
  show ex: "\<exists>cs fin. view R db' ds cs fin \<and> history X rows cs \<and> fin_ok cs fin \<and> on_chain rows cs fin" if "res = Inr ()"
  proof -
    have "tx_run p env ?cb ?db = (Inr (), db')" using tx that by simp
    then obtain n where n: "?cb (seen_by env n ?db) = Inr ((), db')" by (rule tx_run_committed)
    show ?thesis
    proof (cases "absent R ds (seen_by env n ?db)")
      case True
      then have "db' = write_label R (seen_by env n ?db) ds (LabelV0 k 0 None)"
        using n by (simp add: absent_def find_label_for_update_def)
      note db' = this
      have "rep R (seen_by env n ?db) ds []" using True by (simp add: absent_def)
      then have "rep R db' ds []"
        by (rule iffD1 [OF rep_cong, rotated]) (simp add: db' write_label_def get_put)
      moreover have "find_label_for_update R db' ds = Inr (Some (LabelV0 k 0 None))"
        by (simp add: db' find_label_for_update_def write_label_def get_put dec_enc_label)
      ultimately have "view R db' ds [] None" by (simp add: view_def)
      then show ?thesis by (intro exI [of _ "[]"] exI [of _ None]) (simp add: history_def fin_ok_def on_chain_def)
    next
      case False
      then obtain cs fin where cs: "view R (seen_by env n ?db) ds cs fin" "history X rows cs" "fin_ok cs fin" "on_chain rows cs fin"
        using seen [of n] by (auto simp: openable_def)
      then have "db' = seen_by env n ?db" using n by (auto simp: view_def)
      then show ?thesis using cs by blast
    qed
  qed
  show "openable R X rows ds db'"
  proof (cases res)
    case (Inl e)
    then have "tx_run p env ?cb ?db = (Inl e, db')" using tx by simp
    then obtain n where "db' = seen_by env n ?db" by (rule tx_run_failed)
    then show ?thesis using seen by simp
  qed (use ex in \<open>auto simp: openable_def\<close>)
qed

lemma wc_new_inv:
  assumes run: "wc_new R p env ds k watch db = (Inr w, db')"
    and env: "maintaining R X rows ds env" "keeps_absent R ds env" and op: "openable R X rows ds db"
  obtains cs where "wc_inv R X rows w cs" "wc_dataset_id w = ds" "wc_db w = db'"
proof -
  have "create_dataset_if_not_exists R p env ds k db = (Inr (), db')"
    using run by (auto simp: wc_new_def split: prod.splits sum.splits)
  note cr = this and create_openable(2) [OF this env op]
  then obtain cs fin where cs: "view R db' ds cs fin" "history X rows cs" "fin_ok cs fin" "on_chain rows cs fin" by blast
  then have rep: "rep R db' ds cs" by (simp add: view_def)
  obtain l where l: "get_label R db' ds = Inr (Some l)" "finalized_head l = fin"
    using cs(1) by (auto simp: view_def get_label_def find_label_for_update_def)
  have fc: "get_first_chunk R db' ds = Inr (case cs of [] \<Rightarrow> None | c # _ \<Rightarrow> Some c)"
    by (simp add: get_first_chunk_def list_chunks_rep [OF rep] first_result_map)
  have lc: "get_last_chunk R db' ds = Inr (case rev cs of [] \<Rightarrow> None | c # _ \<Rightarrow> Some c)"
    by (simp add: get_last_chunk_def list_chunks_rev_rep [OF rep] first_result_map)
  show thesis
  proof (cases cs rule: rev_cases)
    case Nil
    then show ?thesis
      using that [of "[]"] run cr l fc lc cs
      by (auto simp: wc_new_def Let_def wc_inv_def head_of_def first_ok_def set_simps on_chain_def)
  next
    case (snoc ys y)
    obtain z zs where z: "cs = z # zs" using snoc by (metis list.exhaust snoc_eq_iff_butlast)
    have "first_block z \<le> last_block z" using chunks_sortedD [OF repD(2) [OF rep]] z by simp
    then have fo: "first_ok cs (Some (get_chunk_head z))" using z by (simp add: first_ok_def get_chunk_head_def)
    have "get_last_chunk R db' ds = Inr (Some (last cs))" "get_first_chunk R db' ds = Inr (Some z)"
      using lc fc snoc by (simp, simp add: z)
    then have "wc_inv R X rows w cs \<and> wc_dataset_id w = ds \<and> wc_db w = db'"
      using run cr l cs fo snoc unfolding wc_new_def
      by (auto simp: Let_def wc_inv_def head_of_def set_simps)
    then show ?thesis using that by blast
  qed
qed

end

section \<open>Messages\<close>

definition msg_chunk :: "new_chunk_msg \<Rightarrow> tables \<Rightarrow> chunk" where
  "msg_chunk m tabs =
     V1 (nc_first_block m) (nc_last_block m) (nc_last_block_hash m) (nc_parent_block_hash m)
       (nc_first_block_time m) (nc_last_block_time m) tabs"

text \<open>Building the tables of a message touches no stored chunk, and they hold the message's blocks.\<close>

definition built_ok where
  "built_ok R X rows ds build m \<longleftrightarrow>
     (\<forall>t res t'. build t = (res, t') \<longrightarrow> maintained R X rows ds t t' \<and>
        (\<forall>tabs. res = Inr tabs \<longrightarrow> nc_first_block m \<le> nc_last_block m \<and> tables_ok X rows (msg_chunk m tabs)))"

lemma dataset_id_kept [simp]:
  "new_chunk R X p E report c w = (r1, w') \<Longrightarrow> wc_dataset_id w' = wc_dataset_id w"
  "finalize R X p env h w = (r2, w') \<Longrightarrow> wc_dataset_id w' = wc_dataset_id w"
  "retain_with R X p env from ph del w = (r3, w') \<Longrightarrow> wc_dataset_id w' = wc_dataset_id w"
  by (auto simp: new_chunk_def finalize_def retain_with_def Let_def set_simps abandon_tables_def apply_retain_status_def
      clear_heads_def split: prod.splits sum.splits option.splits if_splits retain_status.splits)

context kv_store
begin

lemma new_chunk_inv:
  assumes inv: "wc_inv R X rows w cs" and env: "\<And>i. maintaining R X rows (wc_dataset_id w) (E i)"
    and c: "first_block c \<le> last_block c" "tables_ok X rows c" and run: "new_chunk R X p E report c w = (res, w')"
  shows "\<exists>cs'. wc_inv R X rows w' cs'"
proof (cases res)
  case (Inl e)
  show ?thesis by (rule new_chunk_failed [OF inv env env run [unfolded Inl]]) blast
next
  case (Inr r)
  have "new_chunk R X p E report c w = (Inr (), w')" using run Inr by simp
  then show ?thesis by (rule new_chunk_committed [OF inv env c]) blast
qed

lemma write_new_chunk_inv:
  assumes inv: "wc_inv R X rows w cs" and env: "\<And>i. maintaining R X rows (wc_dataset_id w) (E i)"
    and b: "built_ok R X rows (wc_dataset_id w) build m" and run: "write_new_chunk R X p E build m w = (res, w')"
  shows "(\<exists>cs'. wc_inv R X rows w' cs') \<and> wc_dataset_id w' = wc_dataset_id w"
proof -
  obtain r db where r: "build (wc_db w) = (r, db)" by fastforce
  then have mt: "maintained R X rows (wc_dataset_id w) (wc_db w) db" using b by (simp add: built_ok_def)
  obtain cs1 where inv1: "wc_inv R X rows (w\<lparr>wc_db := db\<rparr>) cs1" by (rule wc_inv_maintained [OF inv mt])
  show ?thesis
  proof (cases r)
    case (Inl e)
    then have "w' = w\<lparr>wc_db := db\<rparr>" using run r by (simp add: write_new_chunk_def)
    then show ?thesis using inv1 by auto
  next
    case (Inr tabs)
    let ?c = "msg_chunk m tabs"
    have run1: "new_chunk R X p E (nc_finalized_head m) ?c (w\<lparr>wc_db := db\<rparr>) = (res, w')"
      using run r Inr by (simp add: write_new_chunk_def msg_chunk_def)
    have "first_block ?c \<le> last_block ?c" "tables_ok X rows ?c" using b r Inr by (auto simp: built_ok_def msg_chunk_def)
    then have "\<exists>cs'. wc_inv R X rows w' cs'" using new_chunk_inv [OF inv1 _ _ _ run1] env by simp
    then show ?thesis using dataset_id_kept(1) [OF run1] by simp
  qed
qed

lemma handle_ingest_inv:
  assumes inv: "wc_inv R X rows w cs" and env: "\<And>i. maintaining R X rows (wc_dataset_id w) (E i)"
    and b: "\<And>m. msg = NewChunk m \<Longrightarrow> built_ok R X rows (wc_dataset_id w) build m"
    and run: "handle_ingest_msg R X p E build msg rfh w = (res, w')"
  shows "(\<exists>cs'. wc_inv R X rows w' cs') \<and> wc_dataset_id w' = wc_dataset_id w"
proof (cases msg)
  case (FinalizedHead h)
  obtain r w1 where r: "finalize R X p (E 0) h w = (r, w1)" by fastforce
  obtain cs' where "wc_inv R X rows w1 cs'" by (rule finalize_inv [OF inv env r])
  moreover have "w' = w1" using run r FinalizedHead by (auto simp: handle_ingest_msg_def split: sum.splits)
  ultimately show ?thesis using dataset_id_kept(2) [OF r] by auto
next
  case (NewChunk m)
  obtain r w1 where r: "write_new_chunk R X p E build m w = (r, w1)" by fastforce
  obtain cs1 where inv1: "wc_inv R X rows w1 cs1" and id1: "wc_dataset_id w1 = wc_dataset_id w"
    using write_new_chunk_inv [OF inv env b [OF NewChunk] r] by blast
  show ?thesis
  proof (cases "w' = w1")
    case False
    then obtain floor r2 where r2: "retain R X p (E 2) floor None w1 = (r2, w')"
      using run r NewChunk
      by (auto simp: handle_ingest_msg_def split: sum.splits option.splits prod.splits)
    have env1: "maintaining R X rows (wc_dataset_id w1) (E 2)" using env id1 by simp
    obtain cs2 where "wc_inv R X rows w' cs2" by (rule retain_inv [OF inv1 env1 r2 [unfolded retain_def]])
    then show ?thesis using dataset_id_kept(3) [OF r2 [unfolded retain_def]] id1 by auto
  qed (use inv1 id1 in auto)
next
  case (Fork prev alive)
  then have "w' = w" using run by (auto simp: handle_ingest_msg_def split: sum.splits)
  then show ?thesis using inv by auto
qed

end

section \<open>Reachable writers\<close>

inductive wc_reach for R X rows p ds k where
  opened: "wc_reach R X rows p ds k w"
    if "openable R X rows ds db" "maintaining R X rows ds env" "keeps_absent R ds env"
      "wc_new R p env ds k watch db = (Inr w, db')"
| ingested: "wc_reach R X rows p ds k w'"
    if "wc_reach R X rows p ds k w" "\<forall>i. maintaining R X rows ds (E i)"
      "\<forall>m. msg = NewChunk m \<longrightarrow> built_ok R X rows ds build m"
      "handle_ingest_msg R X p E build msg retain_from_head w = (res, w')"
| retained: "wc_reach R X rows p ds k w'"
    if "wc_reach R X rows p ds k w" "maintaining R X rows ds env" "retain_with R X p env from ph del w = (res, w')"
| background: "wc_reach R X rows p ds k (w\<lparr>wc_db := db\<rparr>)"
    if "wc_reach R X rows p ds k w" "maintained R X rows ds (wc_db w) db"
| restarted: "wc_reach R X rows p ds k w'"
    if "wc_reach R X rows p ds k w" "maintaining R X rows ds env" "keeps_absent R ds env"
      "wc_new R p env ds k (wc_watch w) (wc_db w) = (Inr w', db')"

context kv_store
begin

lemma reach_inv:
  assumes "wc_reach R X rows p ds k w"
  shows "(\<exists>cs. wc_inv R X rows w cs) \<and> wc_dataset_id w = ds"
  using assms
proof induction
  case (opened db env watch w db')
  show ?case by (rule wc_new_inv [OF opened(4,2,3,1)]) blast
next
  case (ingested w E msg build rfh res w')
  then obtain cs where inv: "wc_inv R X rows w cs" and ds: "wc_dataset_id w = ds" by blast
  show ?case using handle_ingest_inv [OF inv _ _ ingested.hyps(4)] ingested.hyps(2,3) ds by simp
next
  case (retained w env "from" ph del res w')
  then obtain cs where inv: "wc_inv R X rows w cs" and ds: "wc_dataset_id w = ds" by blast
  obtain cs' where "wc_inv R X rows w' cs'" using retain_inv [OF inv _ retained.hyps(3)] retained.hyps(2) ds by metis
  then show ?case using dataset_id_kept(3) [OF retained.hyps(3)] ds by auto
next
  case (background w db)
  then obtain cs where inv: "wc_inv R X rows w cs" and ds: "wc_dataset_id w = ds" by blast
  obtain cs' where "wc_inv R X rows (w\<lparr>wc_db := db\<rparr>) cs'" using wc_inv_maintained [OF inv] background.hyps(2) ds by metis
  then show ?case using ds by auto
next
  case (restarted w env w' db')
  then obtain cs where inv: "wc_inv R X rows w cs" and ds: "wc_dataset_id w = ds" by blast
  then have "openable R X rows ds (wc_db w)" using wc_invD [OF inv] by (auto simp: openable_def)
  then show ?case using wc_new_inv [OF restarted.hyps(4,2,3)] by blast
qed

end

end
