(* ===== verification/Rollback.thy ===== *)
theory Rollback
  imports Writer
begin

text \<open>
  Fork resolution: the position that \<open>compute_rollback\<close> selects is a boundary of the stored chain, and
  the write path accepts a chunk that resumes there.
\<close>

section \<open>Selection of the resume position\<close>

text \<open>A chunk whose end the source has confirmed, or lies below everything the source named.\<close>

definition confirmed :: "block_ref list \<Rightarrow> chunk \<Rightarrow> bool" where
  "confirmed prev x \<longleftrightarrow> get_chunk_head x \<in> set prev \<or> (\<forall>b\<in>set prev. last_block x < br_number b)"

definition resumes_after :: "chunk \<Rightarrow> u64 \<times> bytes option \<Rightarrow> bool" where
  "resumes_after x r \<longleftrightarrow> r = (last_block x + 1, Some (last_block_hash x))"

lemma resume_scan_result:
  assumes "sorted_wrt (\<lambda>a b. last_block b < last_block a) xs"
  shows "\<exists>r. resume_scan (map Inr xs) prev = Inr r \<and> (\<forall>y. r = Some y \<longrightarrow> (\<exists>x\<in>set xs. resumes_after x y \<and> confirmed prev x))"
  using assms
proof (induction xs arbitrary: prev)
  case (Cons x xs)
  have IH: "\<exists>r. resume_scan (map Inr xs) p = Inr r \<and> (\<forall>y. r = Some y \<longrightarrow> (\<exists>x\<in>set xs. resumes_after x y \<and> confirmed p x))" for p
    using Cons by simp
  let ?p = "dropWhile (\<lambda>b. br_number b > last_block x) prev"
  have lift: "confirmed prev y" if "confirmed ?p y" "y \<in> set xs" for y
  proof -
    have "last_block y < br_number b" if "b \<in> set prev" "b \<notin> set ?p" for b
    proof -
      have "b \<in> set (takeWhile (\<lambda>b. br_number b > last_block x) prev)"
        using that by (metis Un_iff set_append takeWhile_dropWhile_id)
      then have "last_block x < br_number b" by (auto dest: set_takeWhileD)
      then show ?thesis using Cons.prems \<open>y \<in> set xs\<close> by auto
    qed
    then show ?thesis using that(1) by (auto simp: confirmed_def dest: set_dropWhileD)
  qed
  show ?case
  proof (cases "case prev of b # _ \<Rightarrow> br_number b < last_block x | [] \<Rightarrow> False")
    case True
    then have "resume_scan (map Inr (x # xs)) prev = resume_scan (map Inr xs) prev" by simp
    then show ?thesis using IH [of prev] by auto
  next
    case False
    then have eq: "resume_scan (map Inr (x # xs)) prev =
        (case ?p of
         b # _ \<Rightarrow>
           if br_number b = last_block x \<and> br_hash b = last_block_hash x
           then Inr (Some (br_number b + 1, Some (br_hash b)))
           else resume_scan (map Inr xs) ?p
       | [] \<Rightarrow> Inr (Some (last_block x + 1, Some (last_block_hash x))))"
      by (simp add: Let_def)
    show ?thesis
    proof (cases ?p)
      case Nil
      then have "confirmed prev x" by (auto simp: confirmed_def)
      then show ?thesis unfolding eq Nil by (auto simp: resumes_after_def)
    next
      case p: (Cons b bs)
      have b: "b \<in> set prev" using p by (metis list.set_intros(1) set_dropWhileD)
      show ?thesis
      proof (cases "br_number b = last_block x \<and> br_hash b = last_block_hash x")
        case True
        then have "b = get_chunk_head x" by (cases b) (simp add: get_chunk_head_def)
        then have "confirmed prev x" using b by (simp add: confirmed_def)
        then show ?thesis unfolding eq p using True by (auto simp: resumes_after_def)
      next
        case f: False
        then have "resume_scan (map Inr (x # xs)) prev = resume_scan (map Inr xs) ?p"
          unfolding eq p list.case by (simp only: if_False)
        moreover obtain r where r: "resume_scan (map Inr xs) ?p = Inr r"
          "\<forall>y. r = Some y \<longrightarrow> (\<exists>x\<in>set xs. resumes_after x y \<and> confirmed ?p x)" using IH [of ?p] by blast
        moreover have "\<exists>z\<in>set (x # xs). resumes_after z y \<and> confirmed prev z" if y: "r = Some y" for y
        proof -
          obtain z where "z \<in> set xs" "resumes_after z y" "confirmed ?p z" using r(2) y by blast
          then show ?thesis using lift [of z] by (intro bexI [of _ z]) simp_all
        qed
        ultimately show ?thesis by (intro exI [of _ r]) (simp del: resume_scan.simps)
      qed
    qed
  qed
qed simp

lemma last_dropWhile: "dropWhile P xs \<noteq> [] \<Longrightarrow> last (dropWhile P xs) = last xs"
  by (metis last_appendR takeWhile_dropWhile_id)

context kv_store
begin

text \<open>The outcomes of \<open>compute_rollback\<close> on the stored state of a writer.\<close>

lemma compute_rollback_result:
  assumes inv: "wc_inv R X rows w cs" and run: "compute_rollback R prev w = Inr r"
  obtains hints where "finality_filter (wc_finalized_head w) prev = Inr hints"
    "prev \<noteq> []" "ascending prev"
    "(\<exists>x\<in>set cs. resumes_after x (resume_from r, expected_parent_hash r) \<and> confirmed hints x) \<or>
     (case cs of x # _ \<Rightarrow> resume_from r = first_block x \<and> expected_parent_hash r = Some (parent_block_hash x)
      | [] \<Rightarrow> resume_from r = wc_first_block w \<and> expected_parent_hash r = wc_parent_block_hash w)"
    "reach_at_least r = (case wc_finalized_head w of
       Some f \<Rightarrow> if resume_from r \<le> br_number f then Some (br_number f) else None | None \<Rightarrow> None)"
proof -
  have rep: "rep R (wc_db w) (wc_dataset_id w) cs" using wc_invD(1) [OF inv] by (simp add: view_def)
  obtain l where l: "get_label R (wc_db w) (wc_dataset_id w) = Inr (Some l)" "finalized_head l = wc_finalized_head w"
    using wc_invD(1) [OF inv] by (auto simp: view_def get_label_def find_label_for_update_def)
  have fc: "get_first_chunk R (wc_db w) (wc_dataset_id w) = Inr (case cs of [] \<Rightarrow> None | c # _ \<Rightarrow> Some c)"
    by (simp add: get_first_chunk_def list_chunks_rep [OF rep] first_result_map)
  obtain hints where h: "finality_filter (wc_finalized_head w) prev = Inr hints" and pr: "prev \<noteq> []" "ascending prev"
    using run l by (auto simp: compute_rollback_def)
  let ?xs = "rev (filter (\<lambda>x. last_block x \<le> br_number (last hints)) cs)"
  have ls: "list_chunks_rev R (wc_db w) (wc_dataset_id w) 0 (Some (br_number (last hints))) = map Inr ?xs"
    by (simp add: list_chunks_rev_rep [OF rep])
  have "sorted_wrt (\<lambda>a b. last_block b < last_block a) ?xs"
    using chunks_sorted_last [OF chunks_sorted_filter [OF repD(2) [OF rep]]] by (simp add: sorted_wrt_rev sorted_wrt_map)
  then obtain res where res: "resume_scan (map Inr ?xs) (rev hints) = Inr res"
    and ok: "\<And>y. res = Some y \<Longrightarrow> \<exists>x\<in>set ?xs. resumes_after x y \<and> confirmed (rev hints) x"
    using resume_scan_result by blast
  show thesis
  proof (rule that [OF h pr])
    have eq: "(case res of Some y \<Rightarrow> Inr y
       | None \<Rightarrow> Inr (case cs of c # _ \<Rightarrow> (first_block c, Some (parent_block_hash c))
           | [] \<Rightarrow> (wc_first_block w, wc_parent_block_hash w))) = (Inr (resume_from r, expected_parent_hash r) :: db_err + _)"
      and reach: "reach_at_least r = (case wc_finalized_head w of
         Some f \<Rightarrow> if resume_from r \<le> br_number f then Some (br_number f) else None | None \<Rightarrow> None)"
      using run l h pr fc ls res
      by (auto simp: compute_rollback_def split: option.splits list.splits)
    show "reach_at_least r = (case wc_finalized_head w of
       Some f \<Rightarrow> if resume_from r \<le> br_number f then Some (br_number f) else None | None \<Rightarrow> None)" by (rule reach)
    show "(\<exists>x\<in>set cs. resumes_after x (resume_from r, expected_parent_hash r) \<and> confirmed hints x) \<or>
     (case cs of x # _ \<Rightarrow> resume_from r = first_block x \<and> expected_parent_hash r = Some (parent_block_hash x)
      | [] \<Rightarrow> resume_from r = wc_first_block w \<and> expected_parent_hash r = wc_parent_block_hash w)"
    proof (cases res)
      case None
      then show ?thesis using eq by (cases cs) auto
    next
      case (Some y)
      then show ?thesis using eq ok [OF Some] by (auto simp: confirmed_def)
    qed
  qed
qed

end

section \<open>The write path accepts the resumed chunk\<close>

text \<open>The tables that the hash indexes are read from can be read.\<close>

definition indexable :: "tx_ctx \<Rightarrow> chunk \<Rightarrow> bool" where
  "indexable X x \<longleftrightarrow> (\<exists>rows. readable X x rows) \<and> (get_table x ''transactions'' = None \<or> (\<exists>rows. tx_readable X x rows))"

lemma for_each_block_hash_ok:
  assumes "table_ok tab" "block_rows tab = Some rows" "\<And>x s. \<exists>s'. visit x s = Inr s'"
  shows "\<exists>s'. for_each_block_hash tab visit s = Inr s'"
proof -
  obtain g where "\<And>x s. visit x s = Inr (g x s)" using assms(3) by metis
  then have "visit = (\<lambda>x s. Inr (g x s))" by (intro ext)
  then show ?thesis by (simp add: for_each_block_hash_total [OF assms(1,2)])
qed

lemma for_each_transaction_hash_ok:
  assumes "table_ok tab" "transaction_rows tab = Some (map (\<lambda>(n, i, h). (n, Inr i, h)) rows)" "\<And>x s. \<exists>s'. visit x s = Inr s'"
  shows "\<exists>s'. for_each_transaction_hash tab visit s = Inr s'"
proof -
  obtain g where "\<And>x s. visit x s = Inr (g x s)" using assms(3) by metis
  then have "visit = (\<lambda>x s. Inr (g x s))" by (intro ext)
  then show ?thesis by (simp add: for_each_transaction_hash_total [OF assms(1,2)])
qed

lemma block_index_ok:
  assumes "indexable X x"
  shows "\<exists>t'. unindex_block_hashes R X t ds x = Inr t'" "\<exists>t'. index_block_hashes R X t ds x = Inr t'"
proof -
  obtain tid tab rows where t: "get_table x ''blocks'' = Some tid" "table_reader X tid = Inr tab" "table_ok tab" "block_rows tab = Some rows"
    using assms by (auto simp: indexable_def readable_def)
  note ok = for_each_block_hash_ok [OF t(3,4)]
  show "\<exists>t'. unindex_block_hashes R X t ds x = Inr t'"
    using ok [of "\<lambda>(number, hash) (key, t). let key = hash_index_set_hash key hash in Inr (key, kv_delete R t CF_BLOCK_HASHES key)"
      "(hash_index_key ds [], t)"] t(1,2)
    by (auto simp: unindex_block_hashes_def Let_def)
  show "\<exists>t'. index_block_hashes R X t ds x = Inr t'"
    using ok [of "\<lambda>(number, hash) (key, t). let key = hash_index_set_hash key hash in
        Inr (key, kv_put R t CF_BLOCK_HASHES key (enc_raw R (be_bytes 8 (unat number))))"
      "(hash_index_key ds [], t)"] t(1,2)
    by (auto simp: index_block_hashes_def Let_def)
qed

lemma transaction_index_ok:
  assumes "indexable X x"
  shows "\<exists>t'. unindex_transaction_hashes R X t ds x = Inr t'" "\<exists>t'. index_transaction_hashes R X t ds x = Inr t'"
proof -
  have "(\<exists>t'. unindex_transaction_hashes R X t ds x = Inr t') \<and> (\<exists>t'. index_transaction_hashes R X t ds x = Inr t')"
  proof (cases "get_table x ''transactions''")
    case (Some tid)
    then obtain tab rows where t: "table_reader X tid = Inr tab" "table_ok tab"
        "transaction_rows tab = Some (map (\<lambda>(n, i, h). (n, Inr i, h)) rows)"
      using assms by (auto simp: indexable_def tx_readable_def)
    note ok = for_each_transaction_hash_ok [OF t(2,3)]
    show ?thesis
      using ok [of "\<lambda>(number, index, hash) (key, t). let key = hash_index_set_hash key hash in
          Inr (key, kv_delete R t CF_TRANSACTION_HASHES key)" "(hash_index_key ds [], t)"]
        ok [of "\<lambda>(number, index, hash) (key, t). let key = hash_index_set_hash key hash in
          Inr (key, kv_put R t CF_TRANSACTION_HASHES key (enc_raw R (encode_transaction_position number index)))"
          "(hash_index_key ds [], t)"] t(1) Some
      by (auto simp: unindex_transaction_hashes_def index_transaction_hashes_def Let_def)
  qed (simp add: unindex_transaction_hashes_def index_transaction_hashes_def)
  then show "\<exists>t'. unindex_transaction_hashes R X t ds x = Inr t'" "\<exists>t'. index_transaction_hashes R X t ds x = Inr t'" by simp_all
qed

lemma unindex_hashes_ok: "indexable X x \<Longrightarrow> \<exists>t'. unindex_hashes R X t ds x = Inr t'"
  by (rule exE [OF block_index_ok(1) [of X x R t ds]], assumption) (simp add: unindex_hashes_def transaction_index_ok(1))

lemma index_hashes_ok:
  assumes "indexable X x" and "find_label_for_update R t ds = Inr (Some l)"
  shows "\<exists>t'. index_hashes R X t ds x = Inr t'"
proof -
  obtain t1 where t1: "(if block_hash_index X then index_block_hashes R X t ds x else Inr t) = Inr t1"
    using block_index_ok(2) [OF assms(1), of R t ds] by (cases "block_hash_index X") auto
  obtain t2 where t2: "(if transaction_hash_index X then index_transaction_hashes R X t1 ds x else Inr t1) = Inr t2"
    using transaction_index_ok(2) [OF assms(1), of R t1 ds] by (cases "transaction_hash_index X") auto
  show ?thesis unfolding index_hashes_def assms(2) rbind_simps option.case t1 t2 by auto
qed

context kv_store
begin

lemma fork_loop_total:
  assumes "\<And>x t. x \<in> set cs \<Longrightarrow> \<exists>t'. unindex_hashes R X t ds x = Inr t'" and "chunks_sorted cs"
    and "kept c cs \<noteq> [] \<longrightarrow> linked (last (kept c cs)) c"
  shows "\<exists>t'. fork_loop R X ds c (map Inr (rev cs)) t = Inr t'"
  using assms
proof (induction cs arbitrary: t rule: rev_induct)
  case (snoc h cs)
  show ?case
  proof (cases "first_block c \<le> first_block h")
    case True
    obtain t1 where t1: "unindex_hashes R X t ds h = Inr t1" using snoc.prems(1) by fastforce
    have "kept c (cs @ [h]) = kept c cs" using True by (simp add: kept_def)
    then have "\<exists>t'. fork_loop R X ds c (map Inr (rev cs)) (delete_chunk R t1 ds h) = Inr t'"
      using snoc by (simp add: chunks_sorted_append)
    then show ?thesis using True t1 by simp
  next
    case False
    then have "last (kept c (cs @ [h])) = h" "kept c (cs @ [h]) \<noteq> []" by (simp_all add: kept_def not_le)
    then have "linked h c" using snoc.prems(3) by simp
    then show ?thesis using False by (simp add: linked_def)
  qed
qed simp

lemma insert_fork_total:
  assumes rep: "rep R t ds cs" and label: "find_label_for_update R t ds = Inr (Some l)"
    and ix: "\<And>x. x \<in> set (c # cs) \<Longrightarrow> indexable X x" and link: "kept c cs \<noteq> [] \<longrightarrow> linked (last (kept c cs)) c"
  shows "\<exists>t'. insert_fork R X t ds c = Inr t'"
proof -
  have l: "list_chunks_rev R t ds 0 None = map Inr (rev cs)" by (simp add: list_chunks_rev_rep [OF rep])
  obtain t1 where t1: "fork_loop R X ds c (map Inr (rev cs)) t = Inr t1"
    using fork_loop_total [OF unindex_hashes_ok [of X] repD(2) [OF rep] link, where t = t and ds = ds] ix
    by (meson list.set_intros(2))
  have "kv_get R (write_chunk R t1 ds c) CF_DATASETS ds = kv_get R t CF_DATASETS ds"
    using fork_loop_rep [OF rep t1] by (simp add: get_write_chunk ds_frame_def)
  then have "find_label_for_update R (write_chunk R t1 ds c) ds = Inr (Some l)"
    using label by (simp add: find_label_for_update_def)
  moreover have "indexable X c" by (rule ix) simp
  ultimately have "\<exists>t'. index_hashes R X (write_chunk R t1 ds c) ds c = Inr t'" by (rule index_hashes_ok [rotated])
  then show ?thesis using l t1 by (simp add: insert_fork_def)
qed

end

text \<open>A chunk that starts on a boundary of the stored chain.\<close>

definition on_boundary :: "chunk list \<Rightarrow> chunk \<Rightarrow> bool" where
  "on_boundary cs c \<longleftrightarrow>
     (case cs of [] \<Rightarrow> True | x # _ \<Rightarrow> first_block c = first_block x) \<or> (\<exists>x\<in>set cs. last_block x \<noteq> - 1 \<and> linked x c)"

lemma on_boundary_facts:
  assumes sorted: "chunks_sorted cs" and b: "on_boundary cs c"
  shows "kept c cs \<noteq> [] \<longrightarrow> linked (last (kept c cs)) c"
    and "\<forall>x\<in>set cs. \<not> (first_block x < first_block c \<and> first_block c \<le> last_block x)"
    and "cs \<noteq> [] \<longrightarrow> first_block (hd cs) \<le> first_block c"
proof -
  have "(kept c cs \<noteq> [] \<longrightarrow> linked (last (kept c cs)) c) \<and>
    (\<forall>x\<in>set cs. \<not> (first_block x < first_block c \<and> first_block c \<le> last_block x)) \<and>
    (cs \<noteq> [] \<longrightarrow> first_block (hd cs) \<le> first_block c)"
  proof (cases "\<exists>x\<in>set cs. last_block x \<noteq> - 1 \<and> linked x c")
    case True
    then obtain x ys zs where x: "cs = ys @ x # zs" "last_block x \<noteq> - 1" "linked x c" by (metis split_list)
    have c: "first_block c = last_block x + 1" using x(3) by (simp add: linked_def)
    have ys: "first_block y < first_block c" "last_block y < first_block c" if "y \<in> set ys" for y
    proof -
      have "last_block y < first_block x" "first_block y \<le> last_block y" "first_block x \<le> last_block x"
        using sorted that x(1) chunks_sortedD [OF sorted] by (auto simp: chunks_sorted_append)
      then show "first_block y < first_block c" "last_block y < first_block c"
        using c word_less_succ [OF x(2)] by (auto intro: less_imp_le order_trans)
    qed
    have zs: "\<not> first_block z < first_block c" if "z \<in> set zs" for z
      using sorted that x(1) c word_less_succ [OF x(2), of "first_block z"] by (auto simp: chunks_sorted_append)
    have xx: "first_block x < first_block c" "last_block x < first_block c"
      using c word_less_succ [OF x(2)] chunks_sortedD [OF sorted, of x] x(1) by auto
    have "kept c cs = ys @ [x]"
      using ys zs xx by (auto simp: kept_def x(1) filter_empty_conv)
    moreover have "first_block (hd cs) \<le> first_block c" using x(1) xx less_imp_le [OF ys(1)] by (cases ys) auto
    moreover have "\<not> (first_block y < first_block c \<and> first_block c \<le> last_block y)" if "y \<in> set cs" for y
      using that x(1) ys [of y] zs [of y] xx by auto
    ultimately show ?thesis using x(3) by simp
  next
    case False
    show ?thesis
    proof (cases cs)
      case (Cons x xs)
      then have c: "first_block c = first_block x" using b False by (auto simp: on_boundary_def)
      have "\<not> first_block y < first_block c" if "y \<in> set cs" for y
        using sorted_first [OF sorted that] c Cons by simp
      then show ?thesis using Cons c by (auto simp: kept_def filter_empty_conv)
    qed (simp add: kept_def)
  qed
  then show "kept c cs \<noteq> [] \<longrightarrow> linked (last (kept c cs)) c"
    "\<forall>x\<in>set cs. \<not> (first_block x < first_block c \<and> first_block c \<le> last_block x)"
    "cs \<noteq> [] \<longrightarrow> first_block (hd cs) \<le> first_block c" by blast+
qed

text \<open>The stored blocks of a range.\<close>

lemma within_blocks_of:
  assumes "history X rows cs"
  shows "concat (map (\<lambda>x. within a b (rows x)) (filter (\<lambda>x. a \<le> last_block x \<and> first_block x \<le> b) cs)) =
    within a b (blocks_of rows cs)"
proof -
  have "within a b (rows x) = []" if "x \<in> set cs" "\<not> (a \<le> last_block x \<and> first_block x \<le> b)" for x
    using assms that by (force simp: history_def tables_ok_def within_def filter_empty_conv)
  then have "concat (map (\<lambda>x. within a b (rows x)) (filter (\<lambda>x. a \<le> last_block x \<and> first_block x \<le> b) cs)) =
      concat (map (\<lambda>x. within a b (rows x)) cs)"
    by (rule concat_filter_empty)
  then show ?thesis by (simp add: within_def blocks_of_def filter_concat comp_def)
qed

lemma tx_run_first:
  assumes "interfere (env 1) db = db" and "outcome (env 1) = Committed" and "cb db = Inr (r, db')"
  shows "tx_run p env cb db = (Inr r, db')"
  unfolding tx_run_def by (subst run_loop.simps) (use assms in \<open>simp add: Let_def\<close>)

context kv_store
begin

lemma new_chunk_accepted:
  assumes inv: "wc_inv R X rows w cs" and c: "first_block c \<le> last_block c" "tables_ok X rows c" and b: "on_boundary cs c"
    and floor: "cs = [] \<longrightarrow> wc_first_block w \<le> first_block c"
    and fin: "\<And>f. wc_finalized_head w = Some f \<Longrightarrow> first_block c \<le> br_number f \<Longrightarrow>
      br_number f \<le> last_block c \<and> up_to (br_number f) (rows c) = within (first_block c) (br_number f) (blocks_of rows cs)"
    and ix: "\<And>x. x \<in> set (c # cs) \<Longrightarrow> indexable X x"
    and env: "interfere (E 0 1) (wc_db w) = wc_db w" "outcome (E 0 1) = Committed"
  shows "\<exists>w'. new_chunk R X p E None c w = (Inr (), w')"
proof -
  note v = wc_invD(1) [OF inv]
  have rep: "rep R (wc_db w) (wc_dataset_id w) cs" using v by (simp add: view_def)
  note facts = on_boundary_facts [OF repD(2) [OF rep] b]
  obtain l where l: "find_label_for_update R (wc_db w) (wc_dataset_id w) = Inr (Some l)" "finalized_head l = wc_finalized_head w"
    using v by (auto simp: view_def)
  let ?u = "\<lparr>upd_tx = wc_db w, upd_dataset_id = wc_dataset_id w, upd_label = l\<rparr>"
  have g1: "window_guard R (wc_first_block w) c ?u = Inr ()"
    using window_guard_iff [of ?u cs "wc_first_block w" c] rep facts(3) floor by (cases cs) simp_all
  have g2: "boundary_guard R c ?u = Inr ()" using boundary_guard_iff [of ?u cs c] rep facts(2) by simp
  have g3: "finalized_guard R X c ?u = Inr ()"
  proof (cases "wc_finalized_head w")
    case (Some f)
    have "validate_finalized_prefix R X (wc_db w) (wc_dataset_id w) c (br_number f) = Inr (Inr ())" if "first_block c \<le> br_number f"
      using validate_finalized_prefix_result [OF rep, of X rows c "br_number f"] fin [OF Some that] wc_invD(2) [OF inv] c(2)
        within_blocks_of [OF wc_invD(2) [OF inv], of "first_block c" "br_number f"]
      by (auto simp: history_def tables_ok_def up_to_def)
    then show ?thesis using Some l(2) fin [OF Some] by (simp add: finalized_guard_def)
  qed (use l in \<open>simp add: finalized_guard_def\<close>)
  obtain t' where t': "insert_fork R X (wc_db w) (wc_dataset_id w) c = Inr t'"
    using insert_fork_total [OF rep l(1) ix facts(1)] by blast
  have "new_chunk_tx R X (wc_first_block w) None c ?u =
      Inr (finalized_head l, (upd_set_finalized_head (finalized_head l) ?u)\<lparr>upd_tx := t'\<rparr>)"
    using g1 g2 g3 t' by (simp add: new_chunk_tx_def compose_finality_def upd_insert_fork_def upd_set_finalized_head_def)
  then have "update_tx R (wc_dataset_id w) (new_chunk_tx R X (wc_first_block w) None c) (wc_db w) =
      Inr (finalized_head l, upd_finish R ((upd_set_finalized_head (finalized_head l) ?u)\<lparr>upd_tx := t'\<rparr>))"
    using l by (simp add: update_tx_def dataset_update_new_def get_label_for_update_def)
  then have "update_dataset R p (E 0) (wc_dataset_id w) (new_chunk_tx R X (wc_first_block w) None c) (wc_db w) =
      (Inr (finalized_head l), upd_finish R ((upd_set_finalized_head (finalized_head l) ?u)\<lparr>upd_tx := t'\<rparr>))"
    unfolding update_dataset_def by (rule tx_run_first [where env = "E 0", OF env])
  then show ?thesis by (simp add: new_chunk_def Let_def)
qed

end

end
