(* ===== verification/WriterProps.thy ===== *)
theory WriterProps
  imports Rollback
begin

text \<open>
  The properties of the dataset writer, over a concrete writer on the in-memory engine that
  serves as their example.
\<close>

section \<open>Trimming\<close>

lemma chain_covers:
  assumes "chain cs" "chunks_sorted cs" "cs \<noteq> []" "first_block (hd cs) \<le> n" "n \<le> last_block (last cs)"
  shows "\<exists>c\<in>set cs. first_block c \<le> n \<and> n \<le> last_block c"
  using assms
proof (induction cs rule: chain.induct)
  case (1 a b cs)
  show ?case
  proof (cases "n \<le> last_block a")
    case True
    then show ?thesis using 1 by auto
  next
    case False
    have lt: "last_block a < n" using False by simp
    have "first_block b = last_block a + 1" using 1(2) by (simp add: linked_def)
    then have "first_block b \<le> n" using word_succ_le [OF word_less_not_max [OF lt], of n] lt by simp
    then show ?thesis using 1 by auto
  qed
qed auto

lemma retain_loop_covered:
  assumes "retain_loop R X from None del (map Inr cs) u st0 = Inr (st, u')" and "chunks_sorted cs"
    and "\<exists>c\<in>set cs. first_block c \<le> from \<and> from \<le> last_block c"
  shows "\<exists>c h fin. st = RetainedRange c h fin"
  using assms
proof (induction cs arbitrary: u st0)
  case (Cons c cs)
  show ?case
  proof (cases "last_block c < from")
    case True
    then obtain u1 where loop: "retain_loop R X from None del (map Inr cs) u1 st0 = Inr (st, u')" using Cons.prems(1) by auto
    have "\<exists>x\<in>set cs. first_block x \<le> from \<and> from \<le> last_block x" using Cons.prems(3) True by auto
    then show ?thesis using Cons.IH [OF loop] Cons.prems(2) by simp
  next
    case False
    then have "first_block c \<le> from"
      using Cons.prems(2,3) chunks_sortedD [OF Cons.prems(2)] by (auto intro: order_trans less_imp_le)
    then have "\<not> from < first_block c" by simp
    then show ?thesis using False Cons.prems(1) by (auto simp: Let_def)
  qed
qed simp

lemma trim_floor_inside:
  assumes trim: "trim_floor (Some h) (e + 1) n = Some floor" and "n \<noteq> 0" "e \<noteq> - 1" "h \<le> e"
  shows "h < floor" "floor \<le> e"
proof -
  have f: "floor = e + 1 - n" and gt: "n < e + 1 - h" using trim by (auto simp: trim_floor_def split: if_splits)
  have e: "unat (e + 1) = unat e + 1" using word_succ_unat [OF assms(3)] by simp
  have "unat (e + 1 - h) = unat e + 1 - unat h" using assms(3,4) e by (simp add: unat_sub word_le_nat_alt)
  then have n: "unat n < unat e + 1 - unat h" using gt by (simp add: word_less_nat_alt)
  then have "unat floor = unat e + 1 - unat n" using e f by (simp add: unat_sub word_le_nat_alt)
  moreover have "0 < unat n" using assms(2) by (simp add: unat_gt_0)
  ultimately show "h < floor" "floor \<le> e" using n by (simp_all add: word_less_nat_alt word_le_nat_alt)
qed

context kv_store
begin

lemma retain_covered:
  assumes inv: "wc_inv R X rows w cs" and env: "maintaining R X rows (wc_dataset_id w) env"
    and cov: "cs \<noteq> []" "first_block (hd cs) \<le> from" "from \<le> last_block (last cs)"
    and run: "retain_with R X p env from None del w = (Inr b, w')"
  shows b
proof (cases "starts_at w from None")
  case True
  have "(Inr True :: db_err + bool, w) = (Inr b, w')" using run unfolding retain_with_def if_P [OF True] .
  then show ?thesis by (simp only: prod.inject sum.inject)
next
  case False
  obtain st db where db: "update_dataset R p env (wc_dataset_id w) (retain_tx R X from None del) (wc_db w) = (Inr st, db)"
    and b: "b = fst (apply_retain_status st (w\<lparr>wc_db := db\<rparr>))"
  proof -
    obtain r db where db: "update_dataset R p env (wc_dataset_id w) (retain_tx R X from None del) (wc_db w) = (r, db)" by fastforce
    note run1 = run [unfolded retain_with_def if_not_P [OF False] db]
    show thesis
    proof (cases r)
      case (Inr st)
      have "b = fst (apply_retain_status st (w\<lparr>wc_db := db\<rparr>))"
        using run1 by (cases "apply_retain_status st (w\<lparr>wc_db := db\<rparr>)") (simp add: Inr)
      then show ?thesis using that db Inr by blast
    qed (use run1 in simp)
  qed
  obtain cs1 u u' where v: "view R (upd_tx u) (wc_dataset_id w) cs1 (wc_finalized_head w)" and span: "same_span cs cs1"
    and u: "upd_dataset_id u = wc_dataset_id w" "retain_tx R X from None del u = Inr (st, u')"
    by (rule update_dataset_committed [OF db env wc_invD(1,2) [OF inv]]) (rule that; assumption)
  have rep: "rep R (upd_tx u) (upd_dataset_id u) cs1" and ch: "chain cs1" using v u(1) by (simp_all add: view_def)
  have "last_block (last cs1) = last_block (last cs)" "first_block (hd cs1) = first_block (hd cs)" "cs1 \<noteq> []"
    using span cov(1) by (auto simp: same_span_def get_chunk_head_def)
  then have "\<exists>c\<in>set cs1. first_block c \<le> from \<and> from \<le> last_block c"
    using chain_covers [OF ch repD(2) [OF rep]] cov by simp
  moreover have "list_chunks R (upd_tx u) (upd_dataset_id u) 0 None = map Inr cs1" by (simp add: list_chunks_rep [OF rep])
  note cov1 = calculation and ls = this
  have "retain_loop R X from None del (map Inr cs1) u Clear = Inr (st, u')" using u(2) by (simp add: retain_tx_def ls)
  then have "\<exists>c h fin. st = RetainedRange c h fin" using repD(2) [OF rep] cov1 by (rule retain_loop_covered)
  then show ?thesis using b by (auto simp: apply_retain_status_def)
qed

end

section \<open>An example writer\<close>

definition ex_reader :: "table_id \<Rightarrow> db_err + table" where
  "ex_reader tid =
     (if tid = [1] then Inr \<lparr>num_rows = 1, columns = [(''number'', UInt64 [(4, True)]), (''hash'', Utf8 [([8], True)])]\<rparr>
      else Inr \<lparr>num_rows = 1, columns = [(''number'', UInt64 [(5, True)]), (''hash'', Utf8 [([9], True)])]\<rparr>)"

definition ex_ctx :: tx_ctx where
  "ex_ctx = \<lparr>block_hash_index = False, transaction_hash_index = False, table_reader = ex_reader\<rparr>"

definition ex_rows :: "chunk \<Rightarrow> (u64 \<times> bytes) list" where
  "ex_rows x = [(first_block x, last_block_hash x)]"

definition ex_a :: chunk where "ex_a = V0 4 4 [8] [7] [(''blocks'', [1])]"
definition ex_b :: chunk where "ex_b = V0 5 5 [9] [8] [(''blocks'', [2])]"

definition ex_ds :: sid where "ex_ds = sid_default 48"

definition ex_db :: "block_ref option \<Rightarrow> mem" where
  "ex_db fin = write_label mem_kv (kv_put mem_kv [] CF_CHUNKS (chunk_id_for ex_ds ex_a) (enc_chunk mem_kv ex_a)) ex_ds
     (LabelV0 (sid_pad 16 [101, 118, 109]) 0 fin)"

definition ex_writer :: "block_ref option \<Rightarrow> mem wc" where
  "ex_writer fin = \<lparr>wc_db = ex_db fin, wc_dataset_id = ex_ds, wc_first_block = 4, wc_parent_block_hash = Some [7],
     wc_first_chunk_head = Some (get_chunk_head ex_a), wc_head = Some (get_chunk_head ex_a), wc_finalized_head = fin,
     wc_watch = (Some (get_chunk_head ex_a), fin), wc_observed = []\<rparr>"

lemma ex_chunks [simp]:
  "first_block ex_a = 4" "last_block ex_a = 4" "first_block ex_b = 5" "last_block ex_b = 5"
  "last_block_hash ex_a = [8]" "parent_block_hash ex_b = [8]" "parent_block_hash ex_a = [7]" "last_block_hash ex_b = [9]"
  by (simp_all add: ex_a_def ex_b_def)

lemma ex_tables [simp]: "tables_ok ex_ctx ex_rows ex_a" "tables_ok ex_ctx ex_rows ex_b"
  by (simp_all add: tables_ok_def readable_def ex_ctx_def ex_rows_def ex_reader_def get_table_def table_ok_def block_rows_def
      ensure_number_type_def ensure_utf8_type_def ex_a_def ex_b_def)

lemma ex_view: "view mem_kv (ex_db fin) ex_ds [ex_a] fin"
proof -
  have "sid_ok 48 ex_ds" unfolding ex_ds_def by code_simp
  then have "rep mem_kv (kv_put mem_kv [] CF_CHUNKS (chunk_id_for ex_ds ex_a) (enc_chunk mem_kv ex_a)) ex_ds [ex_a]"
    by (intro mem.rep_put [OF mem_rep_empty]) auto
  then have "rep mem_kv (ex_db fin) ex_ds [ex_a]"
    by (rule iffD1 [OF rep_cong, rotated]) (simp add: ex_db_def write_label_def mem.get_put)
  then show ?thesis
    by (simp add: view_def find_label_for_update_def ex_db_def write_label_def mem.get_put mem.dec_enc_label)
qed

lemma ex_inv:
  assumes "fin = None \<or> fin = Some (get_chunk_head ex_a)"
  shows "wc_inv mem_kv ex_ctx ex_rows (ex_writer fin) [ex_a]"
  using assms ex_view [of fin]
  by (auto simp: wc_inv_def ex_writer_def history_def head_of_def fin_ok_def first_ok_def get_chunk_head_def
      on_chain_def blocks_of_def ex_rows_def)

lemma ex_indexable: "indexable ex_ctx ex_a" "indexable ex_ctx ex_b"
  using ex_tables by (auto simp: indexable_def tables_ok_def get_table_def ex_a_def ex_b_def)

lemma ex_open: "openable mem_kv ex_ctx ex_rows ex_ds (ex_db None)"
  using ex_view [of None] unfolding openable_def
  by (intro disjI2 exI [of _ "[ex_a]"] exI [of _ None]) (simp add: history_def fin_ok_def on_chain_def)

lemma mem_reach:
  assumes o: "openable mem_kv X rows ds db" and rep: "rep mem_kv db ds cs" "cs \<noteq> []"
    and lab: "kv_get mem_kv db CF_DATASETS ds = Some (enc_label mem_kv (LabelV0 k 0 None))"
  shows "\<exists>w. wc_reach mem_kv X rows default_policy ds k w \<and> wc_db w = db"
proof -
  have "create_dataset_if_not_exists mem_kv default_policy quiet_env ds k db = (Inr (), db)"
    by (simp add: create_dataset_if_not_exists_def purge_stale_hash_indexes_if_dataset_absent_def has_dataset_def lab
        quiet_tx_run find_label_for_update_def mem.dec_enc_label)
  moreover have "get_first_chunk mem_kv db ds = Inr (Some (hd cs))"
    using rep(2) by (cases cs) (simp_all add: get_first_chunk_def mem.list_chunks_rep [OF rep(1)] first_result_def)
  moreover have "get_last_chunk mem_kv db ds = Inr (Some (last cs))"
    using rep(2) by (cases cs rule: rev_cases) (simp_all add: get_last_chunk_def mem.list_chunks_rev_rep [OF rep(1)] first_result_def)
  moreover have "wc_db (publish_finalized_head (publish_head w)) = wc_db w" for w :: "mem wc"
    by (simp add: publish_head_def publish_finalized_head_def publish_def)
  ultimately obtain w where w: "wc_new mem_kv default_policy quiet_env ds k (None, None) db = (Inr w, db)" "wc_db w = db"
    using lab by (simp add: wc_new_def Let_def get_label_def mem.dec_enc_label)
  then show ?thesis using opened [OF o quiet_maintaining quiet_keeps_absent w(1)] by blast
qed

lemma ex_new_chunk:
  assumes "fin = None \<or> fin = Some (get_chunk_head ex_a)"
  shows "\<exists>w'. new_chunk mem_kv ex_ctx default_policy (\<lambda>_. quiet_env) None ex_b (ex_writer fin) = (Inr (), w')"
proof (rule mem.new_chunk_accepted [OF ex_inv [OF assms]])
  show "on_boundary [ex_a] ex_b" by (simp add: on_boundary_def linked_def)
  show "first_block ex_b \<le> last_block ex_b" "tables_ok ex_ctx ex_rows ex_b" by simp_all
  show "indexable ex_ctx x" if "x \<in> set (ex_b # [ex_a])" for x using that ex_indexable by auto
  show "br_number f \<le> last_block ex_b \<and>
      up_to (br_number f) (ex_rows ex_b) = within (first_block ex_b) (br_number f) (blocks_of ex_rows [ex_a])"
    if "wc_finalized_head (ex_writer fin) = Some f" "first_block ex_b \<le> br_number f" for f
    using that assms by (auto simp: ex_writer_def get_chunk_head_def)
qed (simp_all add: quiet_env_def)

section \<open>Properties\<close>

text \<open>
  C1: every writer that can be reached from a stored dataset by ingest messages, retention,
  background maintenance and restarts, whatever the transactions of others did in between, agrees
  with the stored state: the chunks form one linked chain, the head is the end of the last chunk, the
  finalized head is the stored one and lies in the window, and both are what is published.
\<close>

theorem writer_invariant:
  assumes "kv_store R" and "wc_reach R X rows p ds k w"
  shows "\<exists>cs. wc_inv R X rows w cs"
  using kv_store.reach_inv [OF assms] by blast

theorem writer_invariant_witness:
  "\<exists>w cs. wc_reach mem_kv ex_ctx ex_rows default_policy ex_ds (sid_pad 16 [101, 118, 109]) w \<and>
     wc_inv mem_kv ex_ctx ex_rows w cs"
proof -
  have "rep mem_kv (ex_db None) ex_ds [ex_a]" using ex_view [of None] by (simp add: view_def)
  then obtain w where "wc_reach mem_kv ex_ctx ex_rows default_policy ex_ds (sid_pad 16 [101, 118, 109]) w"
    using mem_reach [OF ex_open] by (auto simp: ex_db_def write_label_def mem.get_put)
  then show ?thesis using writer_invariant [OF mem.kv_store_axioms] by blast
qed

text \<open>
  C2: a committed chunk never rewrites finalized history. Whatever the chunk replaces, the blocks up
  to the finalized head are the same before and after, finality does not move back, the new window is
  the chain below the chunk followed by it, and no subscriber sees finality above the head.
\<close>

theorem new_chunk_keeps_finalized:
  assumes "kv_store R" and "wc_inv R X rows w cs" and "maintaining R X rows (wc_dataset_id w) (E 0)"
    and "first_block c \<le> last_block c" and "tables_ok X rows c" and "new_chunk R X p E report c w = (Inr (), w')"
  shows "\<exists>cs1. same_span cs cs1 \<and> blocks_of rows cs1 = blocks_of rows cs \<and> wc_inv R X rows w' (kept c cs1 @ [c]) \<and>
    fin_le (wc_finalized_head w) (wc_finalized_head w') \<and> observes w w' \<and>
    (\<forall>f. wc_finalized_head w = Some f \<longrightarrow>
       up_to (br_number f) (blocks_of rows (kept c cs1 @ [c])) = up_to (br_number f) (blocks_of rows cs))"
  by (rule kv_store.new_chunk_committed [OF assms]) blast

theorem new_chunk_keeps_finalized_witness:
  "\<exists>w' cs1. new_chunk mem_kv ex_ctx default_policy (\<lambda>_. quiet_env) None ex_b (ex_writer (Some (get_chunk_head ex_a))) = (Inr (), w') \<and>
     wc_inv mem_kv ex_ctx ex_rows w' (kept ex_b cs1 @ [ex_b]) \<and>
     up_to 4 (blocks_of ex_rows (kept ex_b cs1 @ [ex_b])) = [(4, [8])]"
proof -
  let ?w = "ex_writer (Some (get_chunk_head ex_a))"
  obtain w' where w': "new_chunk mem_kv ex_ctx default_policy (\<lambda>_. quiet_env) None ex_b ?w = (Inr (), w')"
    using ex_new_chunk by blast
  have fin: "wc_finalized_head ?w = Some (get_chunk_head ex_a)" by (simp add: ex_writer_def)
  have up: "up_to 4 (blocks_of ex_rows [ex_a]) = [(4, [8])]" by (simp add: up_to_def blocks_of_def ex_rows_def)
  have b: "first_block ex_b \<le> last_block ex_b" by simp
  from new_chunk_keeps_finalized [where E = "\<lambda>_. quiet_env", OF mem.kv_store_axioms ex_inv quiet_maintaining b ex_tables(2) w']
  obtain cs1 where "wc_inv mem_kv ex_ctx ex_rows w' (kept ex_b cs1 @ [ex_b])"
    "up_to (br_number (get_chunk_head ex_a)) (blocks_of ex_rows (kept ex_b cs1 @ [ex_b])) =
     up_to (br_number (get_chunk_head ex_a)) (blocks_of ex_rows [ex_a])"
    using fin by blast
  then show ?thesis using w' up by (auto simp: get_chunk_head_def)
qed

text \<open>
  C5: a refused chunk changes nothing of the writer: heads, published values and window stay, and the
  stored blocks are the ones before.
\<close>

theorem new_chunk_refused:
  assumes "kv_store R" and "wc_inv R X rows w cs"
    and "maintaining R X rows (wc_dataset_id w) (E 0)" and "maintaining R X rows (wc_dataset_id w) (E 1)"
    and "new_chunk R X p E report c w = (Inl e, w')"
  shows "\<exists>db cs'. w' = w\<lparr>wc_db := db\<rparr> \<and> wc_inv R X rows w' cs' \<and> same_span cs cs' \<and> blocks_of rows cs' = blocks_of rows cs"
  by (rule kv_store.new_chunk_failed [OF assms]) blast

theorem new_chunk_refused_witness:
  "\<exists>w'. new_chunk mem_kv ex_ctx default_policy (\<lambda>_. quiet_env) None (V0 3 3 [7] [6] []) (ex_writer None) =
      (Inl (UnapplicableFork BelowRetainedWindow), w') \<and>
    wc_head w' = Some (get_chunk_head ex_a) \<and> wc_observed w' = []"
proof -
  let ?c = "V0 3 3 [7] [6] []" and ?w = "ex_writer None"
  have rep: "rep mem_kv (ex_db None) ex_ds [ex_a]" using ex_view [of None] by (simp add: view_def)
  obtain l where l: "find_label_for_update mem_kv (ex_db None) ex_ds = Inr (Some l)" using ex_view [of None] by (auto simp: view_def)
  have "update_dataset mem_kv default_policy quiet_env ex_ds (new_chunk_tx mem_kv ex_ctx 4 None ?c) (ex_db None) =
      (Inl (UnapplicableFork BelowRetainedWindow), ex_db None)"
    by (simp add: update_dataset_def quiet_tx_run update_tx_def dataset_update_new_def get_label_for_update_def l
        new_chunk_tx_def window_guard_def mem.list_chunks_rep [OF rep] first_result_def)
  then obtain w' where w': "new_chunk mem_kv ex_ctx default_policy (\<lambda>_. quiet_env) None ?c ?w =
      (Inl (UnapplicableFork BelowRetainedWindow), w')"
    by (simp add: new_chunk_def ex_writer_def)
  obtain db where "w' = ?w\<lparr>wc_db := db\<rparr>"
    using new_chunk_refused [where E = "\<lambda>_. quiet_env", OF mem.kv_store_axioms ex_inv quiet_maintaining quiet_maintaining w'] by blast
  then show ?thesis using w' by (simp add: ex_writer_def)
qed

text \<open>
  C7: a finality report, accepted, ignored or refused, never moves finality back and never changes a
  stored block; afterwards the finalized head is still a stored block of the window, and subscribers
  have not seen finality above the head.
\<close>

theorem finalize_spec:
  assumes "kv_store R" and "wc_inv R X rows w cs" and "maintaining R X rows (wc_dataset_id w) env"
    and "finalize R X p env report w = (res, w')"
  shows "\<exists>cs'. wc_inv R X rows w' cs' \<and> same_span cs cs' \<and> blocks_of rows cs' = blocks_of rows cs \<and>
    fin_le (wc_finalized_head w) (wc_finalized_head w') \<and> observes w w'"
  by (rule kv_store.finalize_inv [OF assms]) blast

lemma ex_find: "find_block_hash_in_chunk ex_ctx ex_a 4 = Inr (Some [8])"
proof -
  obtain tid tab where "get_table ex_a ''blocks'' = Some tid" "table_reader ex_ctx tid = Inr tab" "table_ok tab"
    "block_rows tab = Some (ex_rows ex_a)" using ex_tables(1) by (auto simp: tables_ok_def readable_def)
  then show ?thesis by (simp add: find_block_hash_in_chunk_def find_block_hash_rows ex_rows_def)
qed

theorem finalize_spec_witness:
  "\<exists>w'. finalize mem_kv ex_ctx default_policy quiet_env (get_chunk_head ex_a) (ex_writer None) = (Inr (), w') \<and>
     wc_finalized_head w' = Some (get_chunk_head ex_a) \<and> observes (ex_writer None) w'"
proof -
  have rep: "rep mem_kv (ex_db None) ex_ds [ex_a]" using ex_view [of None] by (simp add: view_def)
  obtain l where l: "find_label_for_update mem_kv (ex_db None) ex_ds = Inr (Some l)" "finalized_head l = None"
    using ex_view [of None] by (auto simp: view_def)
  have w: "wc_head (ex_writer None) = Some (get_chunk_head ex_a)" "wc_dataset_id (ex_writer None) = ex_ds"
    "wc_db (ex_writer None) = ex_db None" "wc_finalized_head (ex_writer None) = None" "wc_first_block (ex_writer None) = 4"
    by (simp_all add: ex_writer_def)
  have "\<exists>db. update_dataset mem_kv default_policy quiet_env ex_ds
      (finalize_tx mem_kv ex_ctx (ex_writer None) (get_chunk_head ex_a) (get_chunk_head ex_a)) (ex_db None) =
      (Inr (Some (get_chunk_head ex_a)), db)"
    by (simp add: update_dataset_def quiet_tx_run update_tx_def dataset_update_new_def get_label_for_update_def l w
        finalize_tx_def mem.list_chunks_rev_rep [OF rep] mem.list_chunks_rep [OF rep] first_result_def resolve_finality_def
        resolve_stored_def find_stored_block_hash_def get_chunk_head_def ex_find)
  then obtain w' where w': "finalize mem_kv ex_ctx default_policy quiet_env (get_chunk_head ex_a) (ex_writer None) = (Inr (), w')"
    and fin: "wc_finalized_head w' = Some (get_chunk_head ex_a)"
    by (auto simp: finalize_def w set_simps)
  have "observes (ex_writer None) w'"
    using finalize_spec [OF mem.kv_store_axioms ex_inv quiet_maintaining w'] by blast
  with w' fin show ?thesis by blast
qed

text \<open>
  C8: moving the floor of the window. A refused move changes no block. A move that reports a kept
  window keeps the head and every block at or above the floor, and the floor lies in the first chunk
  left, unless it was the floor before; one that reports a reset leaves an
  empty window with no finalized head. In every case the writer agrees with the stored state.
\<close>

theorem retain_spec:
  assumes "kv_store R" and "wc_inv R X rows w cs" and "maintaining R X rows (wc_dataset_id w) env"
    and "retain_with R X p env from ph del w = (res, w')"
  shows "\<exists>cs'. wc_inv R X rows w' cs' \<and>
    (case res of
       Inl _ \<Rightarrow> same_span cs cs' \<and> blocks_of rows cs' = blocks_of rows cs
     | Inr True \<Rightarrow> wc_head w' = wc_head w \<and> observes w w' \<and>
         filter (\<lambda>r. from \<le> fst r) (blocks_of rows cs') = filter (\<lambda>r. from \<le> fst r) (blocks_of rows cs) \<and>
         (starts_at w from ph \<or> cs' \<noteq> [] \<and> first_block (hd cs') \<le> from \<and> from \<le> last_block (hd cs'))
     | Inr False \<Rightarrow> cs' = [] \<and> wc_finalized_head w' = None)"
proof (rule kv_store.retain_inv [OF assms])
  fix cs'
  assume a: "wc_inv R X rows w' cs'" and
    b: "\<And>e. res = Inl e \<Longrightarrow> same_span cs cs' \<and> blocks_of rows cs' = blocks_of rows cs \<and> observes w w'"
    "res = Inr True \<Longrightarrow> wc_head w' = wc_head w \<and> observes w w' \<and>
       filter (\<lambda>r. from \<le> fst r) (blocks_of rows cs') = filter (\<lambda>r. from \<le> fst r) (blocks_of rows cs) \<and>
       (starts_at w from ph \<or> cs' \<noteq> [] \<and> first_block (hd cs') \<le> from \<and> from \<le> last_block (hd cs'))"
    "res = Inr False \<Longrightarrow> cs' = [] \<and> wc_finalized_head w' = None"
  show ?thesis
    by (intro exI [of _ cs']) (use a b in \<open>auto split: sum.splits bool.splits\<close>)
qed

lemma ex_unindex: "\<exists>t'. upd_delete_chunk mem_kv ex_ctx ex_a u = Inr t'"
proof -
  obtain t where "unindex_hashes mem_kv ex_ctx (upd_tx u) (upd_dataset_id u) ex_a = Inr t"
    using unindex_hashes_ok [OF ex_indexable(1), of mem_kv "upd_tx u" "upd_dataset_id u"] by blast
  then show ?thesis by (simp add: upd_delete_chunk_def)
qed

lemma ex_retain_clears:
  "\<exists>w'. retain_with mem_kv ex_ctx default_policy quiet_env 9 None True (ex_writer fin) = (Inr False, w') \<and>
     wc_observed w' = wc_observed (clear_heads (ex_writer fin))"
proof -
  have rep: "rep mem_kv (ex_db fin) ex_ds [ex_a]" using ex_view [of fin] by (simp add: view_def)
  obtain l where l: "find_label_for_update mem_kv (ex_db fin) ex_ds = Inr (Some l)" using ex_view [of fin] by (auto simp: view_def)
  let ?u = "\<lparr>upd_tx = ex_db fin, upd_dataset_id = ex_ds, upd_label = l\<rparr>"
  obtain u' where u': "upd_delete_chunk mem_kv ex_ctx ex_a ?u = Inr u'" using ex_unindex by blast
  have w: "wc_dataset_id (ex_writer fin) = ex_ds" "wc_db (ex_writer fin) = ex_db fin" "\<not> starts_at (ex_writer fin) 9 None"
    by (simp_all add: ex_writer_def starts_at_def)
  have "retain_tx mem_kv ex_ctx 9 None True ?u = Inr (Clear, upd_set_finalized_head None u')"
    by (simp add: retain_tx_def mem.list_chunks_rep [OF rep] u')
  then have "\<exists>db. update_dataset mem_kv default_policy quiet_env ex_ds (retain_tx mem_kv ex_ctx 9 None True) (ex_db fin) = (Inr Clear, db)"
    by (simp add: update_dataset_def quiet_tx_run update_tx_def dataset_update_new_def get_label_for_update_def l)
  then show ?thesis
    by (auto simp: retain_with_def w apply_retain_status_def clear_heads_def set_simps publish_def Let_def)
qed

theorem retain_spec_witness:
  "\<exists>w'. retain_with mem_kv ex_ctx default_policy quiet_env 9 None True (ex_writer None) = (Inr False, w') \<and>
     wc_inv mem_kv ex_ctx ex_rows w' []"
proof -
  obtain w' where w': "retain_with mem_kv ex_ctx default_policy quiet_env 9 None True (ex_writer None) = (Inr False, w')"
    using ex_retain_clears by blast
  then show ?thesis
    using retain_spec [OF mem.kv_store_axioms ex_inv quiet_maintaining w'] by auto
qed

text \<open>
  C14: the trim after a new chunk. With a window of at least one block, the floor that
  \<open>trim_floor\<close> computes lies between the first chunk and the head, so the trim never resets the
  window: it keeps the head.
\<close>

theorem trim_keeps_head:
  assumes "kv_store R" and "wc_inv R X rows w cs" and "maintaining R X rows (wc_dataset_id w) env"
    and "wc_head w = Some h" and "br_number h \<noteq> - 1" and "max_blocks \<noteq> 0"
    and "trim_floor (map_option br_number (wc_first_chunk_head w)) (wc_next_block w) max_blocks = Some floor"
    and "retain R X p env floor None w = (Inr b, w')"
  shows "b \<and> wc_head w' = wc_head w"
proof -
  note invs = wc_invD [OF assms(2)]
  have cs: "cs \<noteq> []" and h: "br_number h = last_block (last cs)"
    using invs(3) assms(4) by (auto simp: head_of_def get_chunk_head_def split: if_splits)
  obtain g where g: "wc_first_chunk_head w = Some g" "first_block (hd cs) \<le> br_number g" "br_number g \<le> last_block (hd cs)"
    using invs(5) cs by (auto simp: first_ok_def)
  have rep: "rep R (wc_db w) (wc_dataset_id w) cs" using invs(1) by (simp add: view_def)
  have "last_block (hd cs) \<le> last_block (last cs)"
    using sorted_last [OF repD(2) [OF rep], of "hd cs"] cs by simp
  then have "br_number g \<le> br_number h" using g(3) h by simp
  moreover have "trim_floor (Some (br_number g)) (br_number h + 1) max_blocks = Some floor"
    using assms(4,7) g(1) by (simp add: wc_next_block_def)
  ultimately have fl: "br_number g < floor" "floor \<le> br_number h" using trim_floor_inside assms(5,6) by blast+
  have "first_block (hd cs) \<le> floor" "floor \<le> last_block (last cs)" using fl g(2) h by auto
  note b = kv_store.retain_covered [OF assms(1-3) cs this assms(8) [unfolded retain_def]]
  show ?thesis
    by (rule kv_store.retain_inv [OF assms(1-3) assms(8) [unfolded retain_def]]) (use b in simp)
qed

definition ex_db2 :: mem where
  "ex_db2 = kv_put mem_kv (ex_db None) CF_CHUNKS (chunk_id_for ex_ds ex_b) (enc_chunk mem_kv ex_b)"

definition ex_writer2 :: "mem wc" where
  "ex_writer2 = (ex_writer None)\<lparr>wc_db := ex_db2, wc_head := Some (get_chunk_head ex_b), wc_watch := (Some (get_chunk_head ex_b), None)\<rparr>"

lemma ex_view2: "view mem_kv ex_db2 ex_ds [ex_a, ex_b] None"
proof -
  have v: "rep mem_kv (ex_db None) ex_ds [ex_a]" using ex_view [of None] by (simp add: view_def)
  have "rep mem_kv ex_db2 ex_ds ([ex_a] @ [ex_b])" unfolding ex_db2_def by (rule mem.rep_put [OF v]) auto
  moreover have "find_label_for_update mem_kv ex_db2 ex_ds = find_label_for_update mem_kv (ex_db None) ex_ds"
    by (simp add: find_label_for_update_def ex_db2_def mem.get_put)
  ultimately show ?thesis using ex_view [of None] by (simp add: view_def linked_def)
qed

lemma ex_inv2: "wc_inv mem_kv ex_ctx ex_rows ex_writer2 [ex_a, ex_b]"
  using ex_view2
  by (simp add: wc_inv_def ex_writer2_def ex_writer_def history_def head_of_def fin_ok_def first_ok_def get_chunk_head_def on_chain_def)

lemma ex_trim: "\<exists>b w'. retain mem_kv ex_ctx default_policy quiet_env 5 None ex_writer2 = (Inr b, w')"
proof -
  have rep: "rep mem_kv ex_db2 ex_ds [ex_a, ex_b]" using ex_view2 by (simp add: view_def)
  obtain l where l: "find_label_for_update mem_kv ex_db2 ex_ds = Inr (Some l)" using ex_view2 by (auto simp: view_def)
  let ?u = "\<lparr>upd_tx = ex_db2, upd_dataset_id = ex_ds, upd_label = l\<rparr>"
  obtain u' where u': "upd_delete_chunk mem_kv ex_ctx ex_a ?u = Inr u'" using ex_unindex by blast
  have r': "rep mem_kv (upd_tx u') (upd_dataset_id u') [ex_b]"
    using mem.upd_delete_chunk_rep [of ?u ex_a "[ex_b]", OF _ u'] rep by simp
  have "\<exists>st u''. retain_tx mem_kv ex_ctx 5 None True ?u = Inr (st, u'')"
    by (simp add: retain_tx_def mem.list_chunks_rep [OF rep] u' mem.list_chunks_rev_rep [OF r'] Let_def)
  then obtain st u'' where "retain_tx mem_kv ex_ctx 5 None True ?u = Inr (st, u'')" by blast
  then have run: "update_dataset mem_kv default_policy quiet_env ex_ds (retain_tx mem_kv ex_ctx 5 None True) ex_db2 =
      (Inr st, upd_finish mem_kv u'')"
    by (simp add: update_dataset_def quiet_tx_run update_tx_def dataset_update_new_def get_label_for_update_def l)
  have w: "\<not> starts_at ex_writer2 5 None" "wc_dataset_id ex_writer2 = ex_ds" "wc_db ex_writer2 = ex_db2"
    by (simp_all add: starts_at_def ex_writer2_def ex_writer_def)
  show ?thesis by (simp add: retain_def retain_with_def w run split: prod.splits)
qed

theorem trim_keeps_head_witness:
  "trim_floor (map_option br_number (wc_first_chunk_head ex_writer2)) (wc_next_block ex_writer2) 1 = Some 5 \<and>
   (\<exists>w'. retain mem_kv ex_ctx default_policy quiet_env 5 None ex_writer2 = (Inr True, w') \<and>
      wc_head w' = Some (get_chunk_head ex_b))"
proof -
  have t: "trim_floor (map_option br_number (wc_first_chunk_head ex_writer2)) (wc_next_block ex_writer2) 1 = Some 5"
    by (simp add: trim_floor_def ex_writer2_def ex_writer_def wc_next_block_def get_chunk_head_def)
  have h: "wc_head ex_writer2 = Some (get_chunk_head ex_b)" by (simp add: ex_writer2_def)
  have n: "br_number (get_chunk_head ex_b) \<noteq> - 1" by (simp add: get_chunk_head_def)
  obtain b w' where r: "retain mem_kv ex_ctx default_policy quiet_env 5 None ex_writer2 = (Inr b, w')" using ex_trim by blast
  show ?thesis
    using trim_keeps_head [OF mem.kv_store_axioms ex_inv2 quiet_maintaining h n _ t r] h r t by auto
qed

text \<open>
  C9: where a fork resumes. A resolved fork names a boundary of the stored chain, with the hash
  stored there: the end of a chunk that the source confirmed or that lies below all its hints, or the
  start of the window. The hints respect finality, and the flush floor is the finalized block when the
  resume position is not above it.
\<close>

theorem compute_rollback_spec:
  assumes "kv_store R" and "wc_inv R X rows w cs" and "compute_rollback R prev w = Inr r"
  shows "\<exists>hints. finality_filter (wc_finalized_head w) prev = Inr hints \<and> prev \<noteq> [] \<and> ascending prev \<and>
    ((\<exists>x\<in>set cs. resumes_after x (resume_from r, expected_parent_hash r) \<and> confirmed hints x) \<or>
     (case cs of x # _ \<Rightarrow> resume_from r = first_block x \<and> expected_parent_hash r = Some (parent_block_hash x)
      | [] \<Rightarrow> resume_from r = wc_first_block w \<and> expected_parent_hash r = wc_parent_block_hash w)) \<and>
    reach_at_least r = (case wc_finalized_head w of
      Some f \<Rightarrow> if resume_from r \<le> br_number f then Some (br_number f) else None | None \<Rightarrow> None)"
  by (rule kv_store.compute_rollback_result [OF assms]) blast

lemma ex_rollback:
  "compute_rollback mem_kv [\<lparr>br_number = 4, br_hash = [8]\<rparr>] (ex_writer fin) =
     Inr \<lparr>resume_from = 5, expected_parent_hash = Some [8], reach_at_least = None\<rparr>"
  if fin: "fin = None \<or> fin = Some (get_chunk_head ex_a)"
proof -
  have rep: "rep mem_kv (ex_db fin) ex_ds [ex_a]" using ex_view [of fin] by (simp add: view_def)
  obtain l where l: "get_label mem_kv (ex_db fin) ex_ds = Inr (Some l)" "finalized_head l = fin"
    using ex_view [of fin] by (auto simp: view_def get_label_def find_label_for_update_def)
  have w: "wc_dataset_id (ex_writer fin) = ex_ds" "wc_db (ex_writer fin) = ex_db fin" by (simp_all add: ex_writer_def)
  show ?thesis
    using fin l by (auto simp: compute_rollback_def w finality_filter_def mem.list_chunks_rev_rep [OF rep] get_chunk_head_def)
qed

theorem compute_rollback_spec_witness:
  "\<exists>r hints. compute_rollback mem_kv [\<lparr>br_number = 4, br_hash = [8]\<rparr>] (ex_writer None) = Inr r \<and>
     finality_filter None [\<lparr>br_number = 4, br_hash = [8]\<rparr>] = Inr hints \<and> resume_from r = 5"
proof -
  have fin: "wc_finalized_head (ex_writer None) = None" by (simp add: ex_writer_def)
  have r: "compute_rollback mem_kv [\<lparr>br_number = 4, br_hash = [8]\<rparr>] (ex_writer None) =
     Inr \<lparr>resume_from = 5, expected_parent_hash = Some [8], reach_at_least = None\<rparr>"
    using ex_rollback by blast
  then show ?thesis
    using compute_rollback_spec [OF mem.kv_store_axioms ex_inv r] unfolding fin by auto
qed

text \<open>
  C4: a resolved fork makes progress. After \<open>compute_rollback\<close> has selected a position, a chunk that
  starts there on the expected parent, reaches the flush floor and repeats the finalized blocks of its
  range is committed, when no other writer gets in between.
\<close>

theorem rollback_progress:
  assumes "kv_store R" and "wc_inv R X rows w cs" and "compute_rollback R prev w = Inr r"
    and "first_block c = resume_from r" and "\<forall>h. expected_parent_hash r = Some h \<longrightarrow> parent_block_hash c = h"
    and "\<forall>n. reach_at_least r = Some n \<longrightarrow> n \<le> last_block c \<and> up_to n (rows c) = within (first_block c) n (blocks_of rows cs)"
    and "first_block c \<le> last_block c" and "tables_ok X rows c" and "\<forall>x\<in>set (c # cs). indexable X x"
    and "\<forall>x\<in>set cs. last_block x \<noteq> - 1"
    and "interfere (E 0 1) (wc_db w) = wc_db w" and "outcome (E 0 1) = Committed"
  shows "\<exists>w'. new_chunk R X p E None c w = (Inr (), w')"
proof -
  note res = kv_store.compute_rollback_result [OF assms(1-3)]
  show ?thesis
  proof (rule res)
    fix hints
    assume pos: "(\<exists>x\<in>set cs. resumes_after x (resume_from r, expected_parent_hash r) \<and> confirmed hints x) \<or>
       (case cs of x # _ \<Rightarrow> resume_from r = first_block x \<and> expected_parent_hash r = Some (parent_block_hash x)
        | [] \<Rightarrow> resume_from r = wc_first_block w \<and> expected_parent_hash r = wc_parent_block_hash w)"
      and reach: "reach_at_least r = (case wc_finalized_head w of
        Some f \<Rightarrow> if resume_from r \<le> br_number f then Some (br_number f) else None | None \<Rightarrow> None)"
    have "on_boundary cs c"
      using pos assms(4,5,10) by (auto simp: on_boundary_def resumes_after_def linked_def split: list.splits)
    moreover have "cs = [] \<longrightarrow> wc_first_block w \<le> first_block c" using pos assms(4) by auto
    moreover have "br_number f \<le> last_block c \<and> up_to (br_number f) (rows c) = within (first_block c) (br_number f) (blocks_of rows cs)"
      if "wc_finalized_head w = Some f" "first_block c \<le> br_number f" for f
      using that assms(4,6) reach by simp
    ultimately show ?thesis
      using kv_store.new_chunk_accepted [OF assms(1,2,7,8)] assms(9,11,12) by blast
  qed
qed

theorem rollback_progress_witness:
  "\<exists>r w'. compute_rollback mem_kv [\<lparr>br_number = 4, br_hash = [8]\<rparr>] (ex_writer (Some (get_chunk_head ex_a))) = Inr r \<and>
     new_chunk mem_kv ex_ctx default_policy (\<lambda>_. quiet_env) None ex_b (ex_writer (Some (get_chunk_head ex_a))) = (Inr (), w')"
proof -
  let ?w = "ex_writer (Some (get_chunk_head ex_a))"
  let ?r = "\<lparr>resume_from = 5, expected_parent_hash = Some [8], reach_at_least = None\<rparr>"
  have r: "compute_rollback mem_kv [\<lparr>br_number = 4, br_hash = [8]\<rparr>] ?w = Inr ?r" using ex_rollback by blast
  have "\<exists>w'. new_chunk mem_kv ex_ctx default_policy (\<lambda>_. quiet_env) None ex_b ?w = (Inr (), w')"
    by (rule rollback_progress [OF mem.kv_store_axioms ex_inv r])
      (use ex_indexable in \<open>auto simp: quiet_env_def\<close>)
  then show ?thesis using r by blast
qed

text \<open>
  C15: a retention that resets the window publishes the lost head before the lost finality. Whenever a writer
  with a finalized head loses its window, its subscribers see exactly two new pairs: the old finality with no
  head, which breaks the order of finality and head that every other operation keeps, and then the empty pair.
\<close>

theorem reset_publishes_finality_without_head:
  assumes "wc_inv R X rows w cs" and "wc_finalized_head w = Some f"
    and "retain R X p env from ph w = (Inr False, w')"
  shows "wc_observed w' = wc_observed w @ [(None, Some f), (None, None)] \<and> \<not> pair_ok (None, Some f)"
proof -
  obtain h where h: "wc_head w = Some h" "wc_watch w = (Some h, Some f)"
    using assms(1,2) by (auto simp: wc_inv_def fin_ok_def head_of_def)
  obtain r db where u: "update_dataset R p env (wc_dataset_id w) (retain_tx R X from ph True) (wc_db w) = (r, db)" by fastforce
  have start: "\<not> starts_at w from ph"
  proof
    assume "starts_at w from ph"
    then have "retain R X p env from ph w = (Inr True, w)" by (simp add: retain_def retain_with_def)
    then show False using assms(3) by simp
  qed
  have "retain R X p env from ph w = (Inl e, w\<lparr>wc_db := db\<rparr>)" if "r = Inl e" for e 
    unfolding retain_def retain_with_def if_not_P [OF start] u that by simp
  then obtain status where r: "r = Inr status" using assms(3) by (cases r) simp_all
  have "retain R X p env from ph w =
      (let (kept, w) = apply_retain_status status (w\<lparr>wc_db := db\<rparr>) in (Inr kept, w\<lparr>wc_first_block := from, wc_parent_block_hash := ph\<rparr>))"
    unfolding retain_def retain_with_def if_not_P [OF start] u r by simp
  then have w': "wc_observed w' = wc_observed (clear_heads (w\<lparr>wc_db := db\<rparr>))"
    using assms(3) by (cases status) (auto simp: apply_retain_status_def)
  have "wc_observed w' = wc_observed w @ [(None, Some f), (None, None)]"
    unfolding w' using h assms(2) by (simp add: clear_heads_def set_simps publish_def)
  then show ?thesis by (simp add: pair_ok_def)
qed

theorem reset_publishes_finality_without_head_witness:
  "\<exists>w'. retain mem_kv ex_ctx default_policy quiet_env 9 None (ex_writer (Some (get_chunk_head ex_a))) = (Inr False, w') \<and>
     wc_observed w' = [(None, Some (get_chunk_head ex_a)), (None, None)]"
proof -
  let ?w = "ex_writer (Some (get_chunk_head ex_a))"
  obtain w' where w': "retain mem_kv ex_ctx default_policy quiet_env 9 None ?w = (Inr False, w')"
    using ex_retain_clears unfolding retain_def by blast
  moreover have "wc_inv mem_kv ex_ctx ex_rows ?w [ex_a]" by (rule ex_inv) simp
  moreover have "wc_finalized_head ?w = Some (get_chunk_head ex_a)" "wc_observed ?w = []" by (simp_all add: ex_writer_def)
  ultimately show ?thesis using reset_publishes_finality_without_head [OF _ _ w'] by simp
qed

end
