(* ===== verification/Offsets.thy ===== *)
theory Offsets
  imports Errors
begin

text \<open>
  Offset lists and chunk ranges (\<open>array/src/util.rs\<close>, \<open>array/src/chunking.rs\<close>): the position of a row in
  chunks that lie one after the other, and the reading order of a permutation of the rows as ranges
  of chunks. Slice accesses out of range are the panics of the source.
\<close>

section \<open>Offsets\<close>

fun monotone_from :: "'a::linorder \<Rightarrow> 'a list \<Rightarrow> bool" where
  "monotone_from prev [] = True"
| "monotone_from prev (v # vs) = (\<not> v < prev \<and> monotone_from v vs)"

datatype offsets_err = EmptyOffsets | NegativeOffset | NotMonotone

definition validate_offsets :: "'a::{linorder, zero} list \<Rightarrow> 'a \<Rightarrow> offsets_err + unit" where
  "validate_offsets offs prev =
     (case offs of
        [] \<Rightarrow> Inl EmptyOffsets
      | v # _ \<Rightarrow>
          if v < 0 then Inl NegativeOffset
          else if \<not> monotone_from prev offs then Inl NotMonotone
          else Inr ())"

definition at :: "'a list \<Rightarrow> nat \<Rightarrow> db_err + 'a" where
  "at xs i = (if i < length xs then Inr (xs ! i) else Inl IndexPanic)"

function bisect_loop :: "'a::linorder list \<Rightarrow> 'a \<Rightarrow> nat \<Rightarrow> nat \<Rightarrow> nat option" where
  "bisect_loop offs idx b e =
     (if e - b > 1 then
        let mid = b + (e - b) div 2 in
        if offs ! mid = idx then Some mid
        else if offs ! mid < idx then bisect_loop offs idx mid e
        else bisect_loop offs idx b mid
      else if offs ! b \<le> idx \<and> idx < offs ! e then Some b else None)"
  by pat_completeness auto
termination
  by (relation "measure (\<lambda>(offs, idx, b, e). e - b)") auto

declare bisect_loop.simps [simp del]

definition bisect_offsets :: "'a::linorder list \<Rightarrow> 'a \<Rightarrow> db_err + nat option" where
  "bisect_offsets offs idx =
     (if offs = [] then Inl IndexPanic else Inr (bisect_loop offs idx 0 (length offs - 1)))"

definition get_offset_position :: "'a::linorder list \<Rightarrow> 'a \<Rightarrow> nat \<Rightarrow> db_err + nat" where
  "get_offset_position offs index first_to_try =
     rbind (at offs first_to_try) (\<lambda>beg.
     if beg \<le> index then
       rbind (at offs (first_to_try + 1)) (\<lambda>end_offset.
       if index < end_offset then Inr first_to_try
       else
         rbind (bisect_offsets (drop first_to_try offs) index) (\<lambda>pos.
         rbind (ok_or pos IndexPanic) (\<lambda>pos. Inr (first_to_try + pos))))
     else
       rbind (bisect_offsets (take (first_to_try + 1) offs) index) (\<lambda>pos. ok_or pos IndexPanic))"

fun build_offsets :: "'a::plus \<Rightarrow> 'a list \<Rightarrow> 'a list" where
  "build_offsets first [] = [first]"
| "build_offsets first (len # lens) = first # build_offsets (first + len) lens"

section \<open>Chunk ranges\<close>

record chunk_range =
  cr_chunk :: u32
  cr_offset :: u32
  cr_len :: u32

definition cr_default :: chunk_range where
  "cr_default = \<lparr>cr_chunk = 0, cr_offset = 0, cr_len = 0\<rparr>"

fun order_loop ::
  "nat list \<Rightarrow> bool \<Rightarrow> nat list \<Rightarrow> nat \<Rightarrow> chunk_range \<Rightarrow> chunk_range list \<Rightarrow> db_err + chunk_range list" where
  "order_loop offs is_abs [] prev lst chunks = Inr (if 0 < cr_len lst then chunks @ [lst] else chunks)"
| "order_loop offs is_abs (i # order) prev lst chunks =
     rbind (get_offset_position offs i (unat (cr_chunk lst))) (\<lambda>chunk.
     if chunk = unat (cr_chunk lst) \<and> prev + 1 = i
     then order_loop offs is_abs order i (lst\<lparr>cr_len := cr_len lst + 1\<rparr>) chunks
     else
       rbind (at offs chunk) (\<lambda>beg.
       order_loop offs is_abs order i
         \<lparr>cr_chunk = of_nat chunk, cr_offset = of_nat (if is_abs then i else i - beg), cr_len = 1\<rparr>
         (if 0 < cr_len lst then chunks @ [lst] else chunks)))"

definition build_order_list :: "nat list \<Rightarrow> nat list \<Rightarrow> bool \<Rightarrow> db_err + chunk_range list" where
  "build_order_list offs order is_abs =
     (if offs = [] then Inl IndexPanic
      else order_loop offs is_abs order 0 \<lparr>cr_chunk = of_nat (length offs) - 1, cr_offset = 0, cr_len = 0\<rparr> [])"

definition build_abs_order_list :: "nat list \<Rightarrow> nat list \<Rightarrow> db_err + chunk_range list" where
  "build_abs_order_list offs order = build_order_list offs order True"

definition build_rel_order_list :: "nat list \<Rightarrow> nat list \<Rightarrow> db_err + chunk_range list" where
  "build_rel_order_list offs order = build_order_list offs order False"

text \<open>The rows that a range stands for.\<close>

definition range_rows :: "nat list \<Rightarrow> bool \<Rightarrow> chunk_range \<Rightarrow> nat list" where
  "range_rows offs is_abs r =
     (let start = (if is_abs then 0 else offs ! unat (cr_chunk r)) + unat (cr_offset r)
      in [start ..< start + unat (cr_len r)])"

definition range_ok :: "nat list \<Rightarrow> bool \<Rightarrow> chunk_range \<Rightarrow> bool" where
  "range_ok offs is_abs r \<longleftrightarrow>
     unat (cr_chunk r) + 1 < length offs \<and> 0 < cr_len r \<and>
     (\<forall>i\<in>set (range_rows offs is_abs r). offs ! unat (cr_chunk r) \<le> i \<and> i < offs ! (unat (cr_chunk r) + 1))"

section \<open>Lemmas\<close>

lemma bisect_loop_sound:
  assumes "bisect_loop offs idx b e = Some i" "b \<le> e" "e < length offs" "sorted_wrt (<) offs" "offs ! b \<le> idx"
  shows "b \<le> i \<and> i < e \<and> offs ! i \<le> idx \<and> idx < offs ! (i + 1)"
  using assms
proof (induction offs idx b e rule: bisect_loop.induct)
  case (1 offs idx b e)
  show ?case
  proof (cases "e - b > 1")
    case False
    then have r: "i = b" "idx < offs ! e" using 1(3) by (subst (asm) bisect_loop.simps, simp split: if_splits)+
    then have "b \<noteq> e" using 1(7) by auto
    then have "e = Suc b" using False 1(4) by linarith
    then show ?thesis using r 1(7) by simp
  next
    case True
    let ?m = "b + (e - b) div 2"
    have m: "b < ?m" "?m < e" using True by linarith+
    have "offs ! ?m < offs ! (?m + 1)" using 1(6) m 1(5) by (simp add: sorted_wrt_nth_less)
    consider "offs ! ?m = idx" | "offs ! ?m < idx" | "idx < offs ! ?m" by fastforce
    then show ?thesis
    proof cases
      case c: 1
      then have "i = ?m" using 1(3) True by (subst (asm) bisect_loop.simps) (simp add: Let_def)
      then show ?thesis using c m \<open>offs ! ?m < offs ! (?m + 1)\<close> by simp
    next
      case c: 2
      then have "bisect_loop offs idx ?m e = Some i"
        using 1(3) True by (subst (asm) bisect_loop.simps) (simp add: Let_def split: if_splits)
      moreover have "offs ! ?m \<noteq> idx" "offs ! ?m \<le> idx" using c by auto
      ultimately have "?m \<le> i \<and> i < e \<and> offs ! i \<le> idx \<and> idx < offs ! (i + 1)" using 1(1) [OF True refl] c m 1(4-6) by simp
      then show ?thesis using m by linarith
    next
      case c: 3
      then have "bisect_loop offs idx b ?m = Some i"
        using 1(3) True by (subst (asm) bisect_loop.simps) (simp add: Let_def split: if_splits)
      moreover have "offs ! ?m \<noteq> idx" "\<not> offs ! ?m < idx" using c by auto
      ultimately have "b \<le> i \<and> i < ?m \<and> offs ! i \<le> idx \<and> idx < offs ! (i + 1)" using 1(2) [OF True refl] m 1(4-7) by simp
      then show ?thesis using m by linarith
    qed
  qed
qed

lemma bisect_loop_complete:
  assumes "b < e" "e < length offs" "offs ! b \<le> idx" "idx < offs ! e"
  shows "\<exists>i. bisect_loop offs idx b e = Some i"
  using assms
proof (induction offs idx b e rule: bisect_loop.induct)
  case (1 offs idx b e)
  show ?case
  proof (cases "e - b > 1")
    case False
    then show ?thesis using 1(3-) by (subst bisect_loop.simps) simp
  next
    case True
    let ?m = "b + (e - b) div 2"
    have m: "b < ?m" "?m < e" using True by linarith+
    consider "offs ! ?m = idx" | "offs ! ?m < idx" | "idx < offs ! ?m" by fastforce
    then show ?thesis
    proof cases
      case 1
      then show ?thesis using True by (subst bisect_loop.simps) (simp add: Let_def)
    next
      case c: 2
      have ne: "offs ! ?m \<noteq> idx" "offs ! ?m \<le> idx" using c by auto
      then have "\<exists>i. bisect_loop offs idx ?m e = Some i" using 1(1) [OF True refl] c m 1(4,6) by simp
      then show ?thesis using True c ne by (subst bisect_loop.simps) (simp add: Let_def)
    next
      case c: 3
      have ne: "offs ! ?m \<noteq> idx" "\<not> offs ! ?m < idx" using c by auto
      then have "\<exists>i. bisect_loop offs idx b ?m = Some i" using 1(2) [OF True refl] c m 1(4,5) by simp
      then show ?thesis using True ne by (subst bisect_loop.simps) (simp add: Let_def)
    qed
  qed
qed

lemma slot_unique:
  fixes offs :: "'a::linorder list"
  assumes "sorted_wrt (<) offs" "i + 1 < length offs" "j + 1 < length offs"
    "offs ! i \<le> x" "x < offs ! (i + 1)" "offs ! j \<le> x" "x < offs ! (j + 1)"
  shows "i = j"
proof (rule ccontr)
  assume "i \<noteq> j"
  then consider "i + 1 \<le> j" | "j + 1 \<le> i" by linarith
  then show False
  proof cases
    case 1
    then have "offs ! (i + 1) \<le> offs ! j" using assms(1,3) by (cases "i + 1 = j") (auto simp: sorted_wrt_nth_less intro: less_imp_le)
    then show False using assms by auto
  next
    case 2
    then have "offs ! (j + 1) \<le> offs ! i" using assms(1,2) by (cases "j + 1 = i") (auto simp: sorted_wrt_nth_less intro: less_imp_le)
    then show False using assms by auto
  qed
qed

lemma bisect_offsets_result:
  assumes "sorted_wrt (<) offs" "offs \<noteq> []" "offs ! 0 \<le> idx" "idx < last offs"
  shows "\<exists>i. bisect_offsets offs idx = Inr (Some i) \<and> i + 1 < length offs \<and> offs ! i \<le> idx \<and> idx < offs ! (i + 1)"
proof -
  have l: "last offs = offs ! (length offs - 1)" using assms(2) by (simp add: last_conv_nth)
  have "0 < length offs - 1" using assms l by (cases "length offs - 1") auto
  then obtain i where i: "bisect_loop offs idx 0 (length offs - 1) = Some i"
    using bisect_loop_complete [of 0 "length offs - 1" offs idx] assms l by auto
  then show ?thesis using bisect_loop_sound [OF i] assms by (auto simp: bisect_offsets_def)
qed

lemma get_offset_position_result:
  assumes sorted: "sorted_wrt (<) offs" and n: "first_to_try < length offs" and x: "offs ! 0 \<le> x" "x < last offs"
  shows "\<exists>i. get_offset_position offs x first_to_try = Inr i \<and> i + 1 < length offs \<and> offs ! i \<le> x \<and> x < offs ! (i + 1)"
proof (cases "offs ! first_to_try \<le> x")
  case le: True
  have "last offs = offs ! (length offs - 1)" using n by (intro last_conv_nth) auto
  then have n1: "first_to_try + 1 < length offs" using le n x(2) by (cases "first_to_try = length offs - 1") auto
  show ?thesis
  proof (cases "x < offs ! (first_to_try + 1)")
    case True
    then show ?thesis using le n n1 by (simp add: get_offset_position_def at_def)
  next
    case False
    let ?d = "drop first_to_try offs"
    have "sorted_wrt (<) ?d" "?d \<noteq> []" "?d ! 0 \<le> x" "x < last ?d"
      using sorted n le x(2) by (simp_all add: sorted_wrt_drop)
    then obtain i where "bisect_offsets ?d x = Inr (Some i)" "i + 1 < length ?d" "?d ! i \<le> x" "x < ?d ! (i + 1)"
      using bisect_offsets_result by blast
    then show ?thesis using le n n1 False by (simp add: get_offset_position_def at_def)
  qed
next
  case False
  let ?t = "take (first_to_try + 1) offs"
  have "last ?t = offs ! first_to_try" using n by (simp add: take_Suc_conv_app_nth)
  then have "?t ! 0 \<le> x" "x < last ?t" "?t \<noteq> []" "sorted_wrt (<) ?t"
    using False n x(1) sorted by (auto simp: sorted_wrt_take)
  then obtain i where "bisect_offsets ?t x = Inr (Some i)" "i + 1 < length ?t" "?t ! i \<le> x" "x < ?t ! (i + 1)"
    using bisect_offsets_result by blast
  then show ?thesis using False n by (simp add: get_offset_position_def at_def)
qed

lemma word_of_nat_unat: "n < 2 ^ 32 \<Longrightarrow> unat (of_nat n :: u32) = n"
  by (simp add: unat_of_nat take_bit_nat_eq_self)

lemma range_rows_single:
  assumes "sorted_wrt (<) offs" "c + 1 < length offs" "offs ! c \<le> i" "i < offs ! (c + 1)"
    "length offs < 2 ^ 32" "last offs < 2 ^ 32"
  shows "range_rows offs is_abs \<lparr>cr_chunk = of_nat c, cr_offset = of_nat (if is_abs then i else i - offs ! c), cr_len = 1\<rparr> = [i]"
    and "range_ok offs is_abs \<lparr>cr_chunk = of_nat c, cr_offset = of_nat (if is_abs then i else i - offs ! c), cr_len = 1\<rparr>"
proof -
  have "offs ! (c + 1) \<le> last offs"
  proof (cases "c + 1 = length offs - 1")
    case True
    then show ?thesis using assms(2) by (metis last_conv_nth list.size(3) not_less_zero order_refl)
  next
    case False
    then have "offs ! (c + 1) < offs ! (length offs - 1)" using assms(1,2) by (intro sorted_wrt_nth_less [OF assms(1)]) auto
    then show ?thesis using assms(2) by (metis last_conv_nth less_imp_le list.size(3) not_less_zero)
  qed
  then have i: "i < 2 ^ 32" using assms(4,6) by linarith
  have c: "unat (of_nat c :: u32) = c" using assms(2,5) by (intro word_of_nat_unat) linarith
  have o: "unat (of_nat (if is_abs then i else i - offs ! c) :: u32) = (if is_abs then i else i - offs ! c)"
    using i by (intro word_of_nat_unat) auto
  show "range_rows offs is_abs \<lparr>cr_chunk = of_nat c, cr_offset = of_nat (if is_abs then i else i - offs ! c), cr_len = 1\<rparr> = [i]"
    using c o assms(3) by (simp add: range_rows_def Let_def del: of_nat_diff)
  then show "range_ok offs is_abs \<lparr>cr_chunk = of_nat c, cr_offset = of_nat (if is_abs then i else i - offs ! c), cr_len = 1\<rparr>"
    using c assms(2-4) by (simp add: range_ok_def)
qed

lemma range_rows_extend:
  assumes ok: "range_ok offs is_abs r" and i: "i = Suc (last (range_rows offs is_abs r))"
    and slot: "offs ! unat (cr_chunk r) \<le> i" "i < offs ! (unat (cr_chunk r) + 1)" and max: "i < 2 ^ 32 - 1"
  shows "range_rows offs is_abs (r\<lparr>cr_len := cr_len r + 1\<rparr>) = range_rows offs is_abs r @ [i]"
    and "range_ok offs is_abs (r\<lparr>cr_len := cr_len r + 1\<rparr>)"
proof -
  let ?s = "(if is_abs then 0 else offs ! unat (cr_chunk r)) + unat (cr_offset r)"
  have rows: "range_rows offs is_abs r = [?s ..< ?s + unat (cr_len r)]" by (simp add: range_rows_def Let_def)
  have len: "0 < unat (cr_len r)" using ok by (auto simp: range_ok_def unat_gt_0)
  have l: "i = ?s + unat (cr_len r)" using i rows len by simp
  then have "unat (cr_len r) < 2 ^ 32 - 1" using max by simp
  moreover have "unat (- 1 :: u32) = 2 ^ 32 - 1" by (simp add: unat_eq_nat_uint uint_word_ariths)
  ultimately have "cr_len r \<noteq> - 1" by auto
  then have u: "unat (cr_len r + 1) = Suc (unat (cr_len r))" by (rule word_succ_unat)
  show r: "range_rows offs is_abs (r\<lparr>cr_len := cr_len r + 1\<rparr>) = range_rows offs is_abs r @ [i]"
    using l u by (simp add: range_rows_def Let_def)
  have "0 < cr_len r + 1" using u by (simp add: word_less_nat_alt)
  then show "range_ok offs is_abs (r\<lparr>cr_len := cr_len r + 1\<rparr>)"
    using ok slot r by (simp add: range_ok_def)
qed

lemma order_loop_result:
  assumes offs: "sorted_wrt (<) offs" "length offs < 2 ^ 32" "last offs < 2 ^ 32"
    and order: "\<forall>i\<in>set order. offs ! 0 \<le> i \<and> i < last offs"
    and lst: "unat (cr_chunk lst) < length offs"
      "cr_len lst = 0 \<and> unat (cr_chunk lst) = length offs - 1 \<or> range_ok offs is_abs lst \<and> prev = last (range_rows offs is_abs lst)"
    and chunks: "\<forall>r\<in>set chunks. range_ok offs is_abs r"
  shows "\<exists>rs. order_loop offs is_abs order prev lst chunks = Inr rs \<and> (\<forall>r\<in>set rs. range_ok offs is_abs r) \<and>
    concat (map (range_rows offs is_abs) rs) =
      concat (map (range_rows offs is_abs) (chunks @ (if 0 < cr_len lst then [lst] else []))) @ order"
  using order lst chunks
proof (induction order arbitrary: prev lst chunks)
  case Nil
  then show ?case by (auto simp: range_ok_def)
next
  case (Cons i order)
  obtain c where c: "get_offset_position offs i (unat (cr_chunk lst)) = Inr c" "c + 1 < length offs" "offs ! c \<le> i" "i < offs ! (c + 1)"
    using get_offset_position_result [OF offs(1) Cons.prems(2)] Cons.prems(1) by auto
  have order': "\<forall>i\<in>set order. offs ! 0 \<le> i \<and> i < last offs" using Cons.prems(1) by simp
  show ?case
  proof (cases "c = unat (cr_chunk lst) \<and> prev + 1 = i")
    case True
    then have ok: "range_ok offs is_abs lst" and p: "prev = last (range_rows offs is_abs lst)" using Cons.prems(3) c(2) by auto
    have max: "i < 2 ^ 32 - 1" using Cons.prems(1) offs(3) by auto
    let ?l = "lst\<lparr>cr_len := cr_len lst + 1\<rparr>"
    have i: "i = Suc (last (range_rows offs is_abs lst))" using True p by simp
    note e = range_rows_extend [OF ok i _ _ max]
    have e1: "range_rows offs is_abs ?l = range_rows offs is_abs lst @ [i]" and e2: "range_ok offs is_abs ?l"
      using e c(3,4) True by simp_all
    have ne: "0 < cr_len lst" "0 < cr_len lst + 1" using ok e2 by (simp_all add: range_ok_def)
    have "range_ok offs is_abs ?l \<and> i = last (range_rows offs is_abs ?l)" using e1 e2 by simp
    then show ?thesis
      using Cons.IH [OF order', of ?l i chunks] Cons.prems(2,4) c True e1 ne by simp
  next
    case False
    let ?l = "\<lparr>cr_chunk = of_nat c, cr_offset = of_nat (if is_abs then i else i - offs ! c), cr_len = 1\<rparr> :: chunk_range"
    let ?ch = "if 0 < cr_len lst then chunks @ [lst] else chunks"
    note e = range_rows_single [OF offs(1) c(2-4) offs(2,3), of is_abs]
    have cc: "unat (cr_chunk ?l) < length offs" using e(2) by (simp add: range_ok_def)
    have ch: "\<forall>r\<in>set ?ch. range_ok offs is_abs r" using Cons.prems(3,4) by (auto simp: word_gt_0)
    have eq: "order_loop offs is_abs (i # order) prev lst chunks = order_loop offs is_abs order i ?l ?ch"
      using c(1,2) by (simp only: order_loop.simps rbind_simps at_def if_not_P [OF False]) simp
    have len: "(0 :: u32) < cr_len ?l" by simp
    have "range_ok offs is_abs ?l \<and> i = last (range_rows offs is_abs ?l)" using e by simp
    then obtain rs where "order_loop offs is_abs order i ?l ?ch = Inr rs" "\<forall>r\<in>set rs. range_ok offs is_abs r"
      "concat (map (range_rows offs is_abs) rs) = concat (map (range_rows offs is_abs) (?ch @ [?l])) @ order"
      using Cons.IH [OF order' cc _ ch, of i] len by (auto simp del: order_loop.simps)
    then show ?thesis unfolding eq using e(1) by auto
  qed
qed

section \<open>Properties\<close>

text \<open>The ranges lie inside their chunks and stand for the rows of the order, one after the other.\<close>

lemma build_order_list_spec:
  assumes "sorted_wrt (<) offs" and "offs \<noteq> []" and "length offs < 2 ^ 32" and "last offs < 2 ^ 32"
    and "\<forall>i\<in>set order. offs ! 0 \<le> i \<and> i < last offs"
  shows "\<exists>rs. build_order_list offs order is_abs = Inr rs \<and> (\<forall>r\<in>set rs. range_ok offs is_abs r) \<and>
    concat (map (range_rows offs is_abs) rs) = order"
proof -
  have "unat (of_nat (length offs) - 1 :: u32) = length offs - 1"
  proof -
    have "of_nat (length offs) - 1 = (of_nat (length offs - 1) :: u32)" using assms(2) by (cases offs) simp_all
    then show ?thesis using assms(3) by (simp add: word_of_nat_unat del: of_nat_diff)
  qed
  then show ?thesis
    using order_loop_result [OF assms(1,3,4,5), of "\<lparr>cr_chunk = of_nat (length offs) - 1, cr_offset = 0, cr_len = 0\<rparr>" is_abs 0 "[]"] assms(2)
    by (simp add: build_order_list_def)
qed

text \<open>
  An empty chunk between two others breaks the reading order: the row behind it is attributed to
  the empty chunk.
\<close>

theorem order_list_picks_empty_chunk:
  "\<exists>r. build_rel_order_list [0, 1, 1, 2] [1] = Inr [r] \<and> cr_chunk r = 1 \<and> \<not> range_ok [0, 1, 1, 2] False r"
proof -
  have b: "bisect_loop [0, Suc 0, Suc 0, 2 :: nat] (Suc 0) 0 (Suc (Suc (Suc 0))) = Some (Suc 0)"
    by (subst bisect_loop.simps) (simp add: Let_def)
  have "build_rel_order_list [0, 1, 1, 2] [1] = Inr [\<lparr>cr_chunk = 1, cr_offset = 0, cr_len = 1\<rparr>]"
    by (simp add: build_rel_order_list_def build_order_list_def get_offset_position_def at_def bisect_offsets_def b)
  then show ?thesis by (simp add: range_ok_def range_rows_def Let_def)
qed

end
