(* ===== verification/Schemas.thy ===== *)
theory Schemas
  imports Errors "HOL-Library.List_Lexorder"
begin

text \<open>
  Table schemas: the sort key in the schema metadata (\<open>array/src/schema_metadata.rs\<close>), schema patches
  (\<open>array/src/schema_patch.rs\<close>), the widening of item indexes (\<open>array/src/item_index_cast.rs\<close>) and the
  merge of schemas (\<open>storage/src/db/ops/schema_merge.rs\<close>). Arrow's data types other than the index
  types and lists are opaque; schema metadata is its list of entries in key order.
\<close>

section \<open>Schemas\<close>

datatype data_type = DUInt16 | DUInt32 | DUInt64 | DList field | DOther string
  and field = Field (field_name: string) (field_type: data_type) (field_nullable: bool)

record schema =
  schema_fields :: "field list"
  schema_metadata :: "(string \<times> string) list"

section \<open>Item indexes\<close>

fun is_item_index :: "data_type \<Rightarrow> bool" where
  "is_item_index DUInt16 = True"
| "is_item_index DUInt32 = True"
| "is_item_index DUInt64 = True"
| "is_item_index (DList f) = (case field_type f of DUInt16 \<Rightarrow> True | DUInt32 \<Rightarrow> True | _ \<Rightarrow> False)"
| "is_item_index (DOther n) = False"

fun common_index_inner :: "data_type \<Rightarrow> data_type \<Rightarrow> data_type option" where
  "common_index_inner DUInt16 DUInt16 = Some DUInt16"
| "common_index_inner DUInt16 DUInt32 = Some DUInt32"
| "common_index_inner DUInt32 DUInt32 = Some DUInt32"
| "common_index_inner DUInt32 DUInt64 = Some DUInt64"
| "common_index_inner DUInt64 DUInt64 = Some DUInt64"
| "common_index_inner _ _ = None"

definition common_index :: "data_type \<Rightarrow> data_type \<Rightarrow> data_type option" where
  "common_index a b = (case common_index_inner a b of Some t \<Rightarrow> Some t | None \<Rightarrow> common_index_inner b a)"

definition common_item_index_type :: "data_type \<Rightarrow> data_type \<Rightarrow> data_type option" where
  "common_item_index_type a b =
     (case (a, b) of
        (DList ai, DList bi) \<Rightarrow>
          map_option (\<lambda>t. DList (Field (field_name ai) t (field_nullable ai \<or> field_nullable bi)))
            (common_index (field_type ai) (field_type bi))
      | _ \<Rightarrow> common_index a b)"

section \<open>Sort keys\<close>

definition SQD_SORT_KEY :: string where "SQD_SORT_KEY = ''sqd_sort_key''"

text \<open>\<open>str::split\<close> on one character, and \<open>usize::from_str\<close>.\<close>

fun split_on :: "char \<Rightarrow> string \<Rightarrow> string list" where
  "split_on c [] = [[]]"
| "split_on c (x # xs) =
     (if x = c then [] # split_on c xs
      else case split_on c xs of p # ps \<Rightarrow> (x # p) # ps | [] \<Rightarrow> [[x]])"

definition digit_of :: "char \<Rightarrow> nat option" where
  "digit_of c = (let n = of_char c :: nat in if 48 \<le> n \<and> n \<le> 57 then Some (n - 48) else None)"

fun parse_digits :: "nat \<Rightarrow> string \<Rightarrow> nat option" where
  "parse_digits acc [] = Some acc"
| "parse_digits acc (c # cs) =
     Option.bind (digit_of c) (\<lambda>d. let acc = acc * 10 + d in if acc < 2 ^ 64 then parse_digits acc cs else None)"

definition parse_usize :: "string \<Rightarrow> nat option" where
  "parse_usize s =
     (let s = (case s of c # cs \<Rightarrow> if c = CHR ''+'' then cs else s | [] \<Rightarrow> s)
      in if s = [] then None else parse_digits 0 s)"

fun show_usize :: "nat \<Rightarrow> string" where
  "show_usize n = (if n < 10 then [char_of (48 + n)] else show_usize (n div 10) @ [char_of (48 + n mod 10)])"

declare show_usize.simps [simp del]

fun parse_all :: "string list \<Rightarrow> db_err + nat list" where
  "parse_all [] = Inr []"
| "parse_all (s # ss) =
     rbind (ok_or (parse_usize s) BadSortKey) (\<lambda>i. rbind (parse_all ss) (\<lambda>is. Inr (i # is)))"

definition parse_sort_key :: "string \<Rightarrow> nat \<Rightarrow> db_err + nat list" where
  "parse_sort_key key num_columns =
     rbind (parse_all (split_on (CHR '','') key)) (\<lambda>indexes.
     rbind (ensure (\<forall>i\<in>set indexes. i < num_columns) BadSortKey) (\<lambda>_. Inr indexes))"

fun print_sort_key :: "nat list \<Rightarrow> string" where
  "print_sort_key [] = []"
| "print_sort_key (k # ks) = show_usize k @ concat (map (\<lambda>i. CHR '','' # show_usize i) ks)"

definition get_sort_key :: "schema \<Rightarrow> db_err + nat list" where
  "get_sort_key s =
     (case map_of (schema_metadata s) SQD_SORT_KEY of
        Some key \<Rightarrow> parse_sort_key key (length (schema_fields s))
      | None \<Rightarrow> Inr [])"

section \<open>Schema patches\<close>

record schema_patch =
  original :: schema
  new_schema :: "schema option"

definition patch_new :: "schema \<Rightarrow> schema_patch" where
  "patch_new s = \<lparr>original = s, new_schema = None\<rparr>"

definition patch_fields :: "schema_patch \<Rightarrow> field list" where
  "patch_fields p = (case new_schema p of Some n \<Rightarrow> schema_fields n | None \<Rightarrow> schema_fields (original p))"

definition patch_metadata :: "schema_patch \<Rightarrow> (string \<times> string) list" where
  "patch_metadata p = (case new_schema p of Some n \<Rightarrow> schema_metadata n | None \<Rightarrow> schema_metadata (original p))"

fun find_index :: "('a \<Rightarrow> bool) \<Rightarrow> 'a list \<Rightarrow> (nat \<times> 'a) option" where
  "find_index P [] = None"
| "find_index P (x # xs) = (if P x then Some (0, x) else map_option (\<lambda>(i, y). (Suc i, y)) (find_index P xs))"

definition find_by_name :: "schema_patch \<Rightarrow> string \<Rightarrow> (nat \<times> field) option" where
  "find_by_name p name = find_index (\<lambda>f. field_name f = name) (patch_fields p)"

definition new_schema_mut :: "schema_patch \<Rightarrow> schema_patch" where
  "new_schema_mut p =
     (if new_schema p = None
      then p\<lparr>new_schema := Some \<lparr>schema_fields = schema_fields (original p), schema_metadata = schema_metadata (original p)\<rparr>\<rparr>
      else p)"

definition patch_update :: "(schema \<Rightarrow> schema) \<Rightarrow> schema_patch \<Rightarrow> schema_patch" where
  "patch_update g p = (let p = new_schema_mut p in p\<lparr>new_schema := map_option g (new_schema p)\<rparr>)"

definition set_field :: "nat \<Rightarrow> field \<Rightarrow> schema_patch \<Rightarrow> db_err + schema_patch" where
  "set_field index f p =
     rbind (ensure (index < length (patch_fields p)) IndexPanic) (\<lambda>_.
     Inr (patch_update (\<lambda>s. s\<lparr>schema_fields := (schema_fields s)[index := f]\<rparr>) p))"

definition set_field_type :: "nat \<Rightarrow> data_type \<Rightarrow> schema_patch \<Rightarrow> db_err + schema_patch" where
  "set_field_type index ty p =
     rbind (ensure (index < length (schema_fields (original p))) IndexPanic) (\<lambda>_.
     let f = schema_fields (original p) ! index in
     if field_type f = ty then Inr p
     else set_field index (Field (field_name f) ty (field_nullable f)) p)"

fun meta_insert :: "string \<Rightarrow> string \<Rightarrow> (string \<times> string) list \<Rightarrow> (string \<times> string) list" where
  "meta_insert k v [] = [(k, v)]"
| "meta_insert k v ((k', v') # es) =
     (if k = k' then (k, v) # es
      else if map of_char k < (map of_char k' :: nat list) then (k, v) # (k', v') # es
      else (k', v') # meta_insert k v es)"

definition insert_metadata :: "string \<Rightarrow> string \<Rightarrow> schema_patch \<Rightarrow> schema_patch" where
  "insert_metadata key val p =
     (if map_of (patch_metadata p) key \<noteq> Some val
      then patch_update (\<lambda>s. s\<lparr>schema_metadata := meta_insert key val (schema_metadata s)\<rparr>) p
      else p)"

definition patch_set_sort_key :: "nat list \<Rightarrow> schema_patch \<Rightarrow> db_err + schema_patch" where
  "patch_set_sort_key key p =
     rbind (ensure (\<forall>i\<in>set key. i < length (patch_fields p)) AssertPanic) (\<lambda>_.
     Inr (insert_metadata SQD_SORT_KEY (print_sort_key key) p))"

definition patch_finish :: "schema_patch \<Rightarrow> schema" where
  "patch_finish p = (case new_schema p of Some n \<Rightarrow> n | None \<Rightarrow> original p)"

definition set_sort_key :: "schema \<Rightarrow> nat list \<Rightarrow> db_err + schema" where
  "set_sort_key s key = rbind (patch_set_sort_key key (patch_new s)) (\<lambda>p. Inr (patch_finish p))"

section \<open>Merging\<close>

definition can_merge_schemas :: "schema \<Rightarrow> schema \<Rightarrow> bool" where
  "can_merge_schemas a b \<longleftrightarrow>
     a = b \<or>
     length (schema_fields a) = length (schema_fields b) \<and>
     (case (get_sort_key a, get_sort_key b) of
        (Inr ak, Inr bk) \<Rightarrow>
          length ak = length bk \<and>
          list_all (\<lambda>(ai, bi). field_name (schema_fields a ! ai) = field_name (schema_fields b ! bi)) (zip ak bk) \<and>
          list_all (\<lambda>bf.
            case find (\<lambda>f. field_name f = field_name bf) (schema_fields a) of
              Some af \<Rightarrow> field_type af = field_type bf \<or> common_item_index_type (field_type af) (field_type bf) \<noteq> None
            | None \<Rightarrow> False) (schema_fields b)
      | _ \<Rightarrow> False)"

definition merge_fields :: "field \<Rightarrow> field \<Rightarrow> db_err + field option" where
  "merge_fields a b =
     rbind (ensure (field_name a = field_name b) AssertPanic) (\<lambda>_.
     Inr (map_option (\<lambda>t. Field (field_name a) t (field_nullable a \<or> field_nullable b))
       (if field_type a = field_type b then Some (field_type a)
        else common_item_index_type (field_type a) (field_type b))))"

fun merge_field_list :: "field list \<Rightarrow> schema_patch \<Rightarrow> db_err + schema_patch" where
  "merge_field_list [] base = Inr base"
| "merge_field_list (new_field # rest) base =
     rbind (ok_or (find_by_name base (field_name new_field)) NoSuchField) (\<lambda>(bi, bf).
     if bf = new_field then merge_field_list rest base
     else
       rbind (merge_fields bf new_field) (\<lambda>merged.
       rbind (ok_or merged IncompatibleTypes) (\<lambda>new_field.
       rbind (set_field bi new_field base) (merge_field_list rest))))"

definition merge_schema :: "schema_patch \<Rightarrow> schema \<Rightarrow> db_err + schema_patch" where
  "merge_schema base s = (if patch_fields base = schema_fields s then Inr base else merge_field_list (schema_fields s) base)"

fun data_types_equal :: "data_type \<Rightarrow> data_type \<Rightarrow> bool" where
  "data_types_equal (DList (Field n a u)) (DList (Field m b v)) \<longleftrightarrow>
     DList (Field n a u) = DList (Field m b v) \<or> data_types_equal a b"
| "data_types_equal a b \<longleftrightarrow> a = b"

section \<open>Lemmas on sort keys\<close>

lemma digit_of_char: "d < 10 \<Longrightarrow> digit_of (char_of (48 + d)) = Some d"
  by (simp add: digit_of_def Let_def of_char_of)

lemma parse_digits_append:
  "parse_digits acc (s @ t) = Option.bind (parse_digits acc s) (\<lambda>acc. parse_digits acc t)"
  by (induction s arbitrary: acc) (auto simp: Let_def bind_eq_None_conv split: Option.bind_split)

lemma parse_show: "n < 2 ^ 64 \<Longrightarrow> parse_digits 0 (show_usize n) = Some n"
proof (induction n rule: show_usize.induct)
  case (1 n)
  show ?case
  proof (cases "n < 10")
    case True
    then show ?thesis using 1 by (simp add: show_usize.simps digit_of_char)
  next
    case False
    have "parse_digits 0 (show_usize (n div 10)) = Some (n div 10)" using 1 False by simp
    moreover have "n div 10 * 10 + n mod 10 = n" by simp
    ultimately show ?thesis using False 1(2)
      by (subst show_usize.simps) (simp add: parse_digits_append digit_of_char Let_def)
  qed
qed

lemma show_usize_chars: "c \<in> set (show_usize n) \<Longrightarrow> 48 \<le> (of_char c :: nat) \<and> (of_char c :: nat) \<le> 57"
proof (induction n rule: show_usize.induct)
  case (1 n)
  then show ?case by (subst (asm) (2) show_usize.simps) (auto simp: of_char_of split: if_splits)
qed

lemma show_usize_nonempty [simp]: "show_usize n \<noteq> []"
  by (subst show_usize.simps) simp

lemma show_usize_no: "c \<in> set (show_usize n) \<Longrightarrow> c \<noteq> CHR '','' \<and> c \<noteq> CHR ''+''"
  using show_usize_chars [of c n] by (auto simp: of_char_def)

lemma parse_usize_show: "n < 2 ^ 64 \<Longrightarrow> parse_usize (show_usize n) = Some n"
  using show_usize_no [of _ n] parse_show [of n]
  by (cases "show_usize n") (auto simp: parse_usize_def Let_def)

lemma split_on_append: "c \<notin> set s \<Longrightarrow> split_on c (s @ c # t) = s # split_on c t"
  by (induction s) auto

lemma split_on_plain: "c \<notin> set s \<Longrightarrow> split_on c s = [s]"
  by (induction s) auto

lemma split_print: "split_on (CHR '','') (print_sort_key (k # ks)) = map show_usize (k # ks)"
proof (induction ks arbitrary: k)
  case Nil
  have "CHR '','' \<notin> set (show_usize k)" using show_usize_no by blast
  then show ?case by (simp add: split_on_plain)
next
  case (Cons j ks)
  have "CHR '','' \<notin> set (show_usize k)" using show_usize_no by blast
  then show ?case using Cons [of j] by (simp add: split_on_append)
qed

lemma parse_all_show: "\<forall>i\<in>set ks. i < 2 ^ 64 \<Longrightarrow> parse_all (map show_usize ks) = Inr ks"
  by (induction ks) (simp_all add: parse_usize_show)

lemma map_of_meta_insert: "map_of (meta_insert k v es) k = Some v"
  by (induction k v es rule: meta_insert.induct) auto

lemma patch_fields_simps [simp]:
  "patch_fields (patch_new s) = schema_fields s" "patch_metadata (patch_new s) = schema_metadata s"
  by (simp_all add: patch_new_def patch_fields_def patch_metadata_def)

section \<open>Lemmas on merging\<close>

definition compat :: "data_type \<Rightarrow> data_type \<Rightarrow> bool" where
  "compat a b \<longleftrightarrow> a = b \<or> common_item_index_type a b \<noteq> None"

definition join_type :: "data_type \<Rightarrow> data_type \<Rightarrow> data_type" where
  "join_type a b = (if a = b then a else the (common_item_index_type a b))"

lemma common_index_join:
  assumes "common_index a b = Some t" "common_index b c \<noteq> None" "common_index a c \<noteq> None"
  shows "common_index t c \<noteq> None"
  using assms by (cases a; cases b; cases c) (auto simp: common_index_def)

lemma common_index_self: "common_index a b \<noteq> None \<Longrightarrow> common_index a a \<noteq> None \<and> common_index b b \<noteq> None"
  by (cases a; cases b) (auto simp: common_index_def)

lemma common_index_sym: "common_index a b \<noteq> None \<longleftrightarrow> common_index b a \<noteq> None"
  by (cases a; cases b) (auto simp: common_index_def)

lemma common_type_simps:
  "common_item_index_type (DList (Field n x u)) (DList (Field m y v)) =
     map_option (\<lambda>t. DList (Field n t (u \<or> v))) (common_index x y)"
  by (simp add: common_item_index_type_def)

lemma common_index_list [simp]: "common_index (DList f) b = None" "common_index a (DList f) = None"
  by (cases a; cases b; simp add: common_index_def)+

lemma common_type_other:
  "\<not> (\<exists>f g. a = DList f \<and> b = DList g) \<Longrightarrow> common_item_index_type a b = common_index a b"
  by (cases a; cases b) (auto simp: common_item_index_type_def)

lemma compat_cases:
  "compat a b \<longleftrightarrow> a = b \<or> common_index a b \<noteq> None \<or>
     (\<exists>n x u m y v. a = DList (Field n x u) \<and> b = DList (Field m y v) \<and> common_index x y \<noteq> None)"
proof (cases "\<exists>f g. a = DList f \<and> b = DList g")
  case True
  then obtain n x u m y v where "a = DList (Field n x u)" "b = DList (Field m y v)" by (metis field.exhaust)
  then show ?thesis by (auto simp: compat_def common_type_simps)
next
  case False
  then show ?thesis by (auto simp: compat_def common_type_other)
qed

lemma compat_elim:
  assumes "compat a b"
  obtains "a = b" | "common_index a b \<noteq> None"
    | n x u m y v where "a = DList (Field n x u)" "b = DList (Field m y v)" "common_index x y \<noteq> None"
  using assms unfolding compat_cases by (elim disjE exE conjE) simp_all

lemma compat_list: "compat (DList (Field n x u)) (DList (Field m y v))" if "common_index x y \<noteq> None"
  using that by (simp add: compat_def common_type_simps)

lemma compat_index: "common_index a b \<noteq> None \<Longrightarrow> compat a b"
  by (simp add: compat_cases)

lemma compat_sym: "compat a b \<Longrightarrow> compat b a"
proof (erule compat_elim)
  show "a = b \<Longrightarrow> compat b a" by (simp add: compat_def)
  show "common_index a b \<noteq> None \<Longrightarrow> compat b a" by (rule compat_index) (simp only: common_index_sym [of b a] simp_thms)
  show "a = DList (Field n x u) \<Longrightarrow> b = DList (Field m y v) \<Longrightarrow> common_index x y \<noteq> None \<Longrightarrow> compat b a" for n x u m y v
    using common_index_sym [of x y] compat_list [of y x] by simp
qed

lemma compat_refl [simp]: "compat a a"
  by (simp add: compat_def)

lemma compat_join:
  assumes ab: "compat a b" and bc: "compat b c" and ac: "compat a c"
  shows "compat (join_type a b) c"
proof (cases "a = b")
  case True
  then show ?thesis using ac by (simp add: join_type_def)
next
  case ne: False
  show ?thesis
  proof (cases "\<exists>f g. a = DList f \<and> b = DList g")
    case True
    then obtain n x u m y v where l: "a = DList (Field n x u)" "b = DList (Field m y v)" by (metis field.exhaust)
    then obtain w where w: "common_index x y = Some w" using ab ne by (auto simp: compat_cases)
    then have j: "join_type a b = DList (Field n w (u \<or> v))" using ne l by (auto simp: join_type_def common_type_simps)
    obtain k z q where c: "c = DList (Field k z q)" and yz: "y = z \<or> common_index y z \<noteq> None"
      using bc unfolding l(2) by (rule compat_elim) (auto)
    have xz: "x = z \<or> common_index x z \<noteq> None"
      using ac unfolding l(1) c by (rule compat_elim) auto
    have self: "common_index x x \<noteq> None" "common_index y y \<noteq> None" using common_index_self [of x y] w by auto
    have "common_index w z \<noteq> None" using common_index_join [OF w] yz xz self w common_index_sym [of x y] by auto
    then show ?thesis unfolding j c by (rule compat_list)
  next
    case False
    then obtain t where t: "common_index a b = Some t" using ab ne by (auto simp: compat_cases)
    then have j: "join_type a b = t" using ne False by (simp add: join_type_def common_type_other)
    have nl: "\<not> (\<exists>f. a = DList f)" "\<not> (\<exists>f. b = DList f)" using t by auto
    have "common_index b c \<noteq> None \<or> b = c" using bc by (rule compat_elim) (use nl in auto)
    moreover have "common_index a c \<noteq> None \<or> a = c" using ac by (rule compat_elim) (use nl in auto)
    ultimately have "common_index t c \<noteq> None"
      using common_index_join [OF t] common_index_self [of a b] common_index_sym [of a b] t by auto
    then show ?thesis unfolding j by (rule compat_index)
  qed
qed

text \<open>The field of a name, and two field lists whose common names have types that merge.\<close>

definition field_of :: "field list \<Rightarrow> string \<Rightarrow> field option" where
  "field_of fs n = find (\<lambda>f. field_name f = n) fs"

definition fields_compat :: "field list \<Rightarrow> field list \<Rightarrow> bool" where
  "fields_compat fs gs \<longleftrightarrow>
     (\<forall>g\<in>set gs. \<exists>f. field_of fs (field_name g) = Some f \<and> compat (field_type f) (field_type g))"

lemma find_index_find: "find_index P xs = Some (i, x) \<Longrightarrow> find P xs = Some x \<and> i < length xs \<and> xs ! i = x"
  by (induction xs arbitrary: i) (auto split: if_splits)

lemma find_find_index: "find P xs = Some x \<Longrightarrow> \<exists>i. find_index P xs = Some (i, x)"
  by (induction xs) auto

lemma field_of_update:
  assumes "find_index (\<lambda>f. field_name f = n) fs = Some (i, f)" and "field_name g = n"
  shows "field_of (fs[i := g]) m = (if m = n then Some g else field_of fs m)"
  using assms unfolding field_of_def
proof (induction fs arbitrary: i)
  case (Cons a fs)
  then show ?case by (cases "field_name a = n") (auto split: if_splits)
qed simp

lemma patch_fields_set:
  assumes "i < length (patch_fields p)"
  obtains p' where "set_field i f p = Inr p'" "patch_fields p' = (patch_fields p)[i := f]"
  using assms that
  by (auto simp: set_field_def patch_update_def new_schema_mut_def patch_fields_def Let_def split: option.splits)

lemma field_of_name: "field_of fs n = Some f \<Longrightarrow> field_name f = n \<and> f \<in> set fs"
  unfolding field_of_def by (induction fs) (auto split: if_splits)

lemma merge_field_list_ok:
  assumes "distinct (map field_name gs)" and "fields_compat (patch_fields p) gs"
  shows "\<exists>p'. merge_field_list gs p = Inr p' \<and>
    (\<forall>n. case field_of (patch_fields p) n of
       None \<Rightarrow> field_of (patch_fields p') n = None
     | Some f \<Rightarrow> \<exists>f'. field_of (patch_fields p') n = Some f' \<and>
         field_type f' = (case field_of gs n of Some g \<Rightarrow> join_type (field_type f) (field_type g) | None \<Rightarrow> field_type f))"
  using assms
proof (induction gs arbitrary: p)
  case Nil
  then show ?case by (auto simp: field_of_def split: option.splits)
next
  case (Cons g gs)
  let ?n = "field_name g"
  have g_out: "field_of gs ?n = None"
    using Cons.prems(1) unfolding field_of_def find_None_iff by (auto simp: image_iff)
  obtain f where f: "field_of (patch_fields p) ?n = Some f" "compat (field_type f) (field_type g)"
    using Cons.prems(2) by (auto simp: fields_compat_def)
  obtain i where i: "find_index (\<lambda>f. field_name f = ?n) (patch_fields p) = Some (i, f)"
    using find_find_index [OF f(1) [unfolded field_of_def]] by auto
  then have fb: "find_by_name p ?n = Some (i, f)" by (simp add: find_by_name_def)
  define j where "j = Field (field_name f) (join_type (field_type f) (field_type g)) (field_nullable f \<or> field_nullable g)"
  have name: "field_name f = ?n" using field_of_name [OF f(1)] by simp
  obtain p1 where step: "merge_field_list (g # gs) p = merge_field_list gs p1"
    and p1: "\<And>m. field_of (patch_fields p1) m = field_of (patch_fields p) m \<or> m = ?n"
      "\<exists>f1. field_of (patch_fields p1) ?n = Some f1 \<and> field_type f1 = join_type (field_type f) (field_type g)"
  proof (cases "f = g")
    case True
    show thesis
      by (rule that [of p]) (use True fb f in \<open>auto simp: join_type_def\<close>)
  next
    case False
    have merged: "merge_fields f g = Inr (Some j)"
      using f(2) name by (auto simp: merge_fields_def j_def join_type_def compat_def)
    have "i < length (patch_fields p)" using find_index_find [OF i] by simp
    then obtain p' where p': "set_field i j p = Inr p'" "patch_fields p' = (patch_fields p)[i := j]" by (rule patch_fields_set)
    have jn: "field_name j = ?n" by (simp add: j_def name)
    show thesis
    proof (rule that [of p'])
      show "merge_field_list (g # gs) p = merge_field_list gs p'" using fb False merged p'(1) by simp
      show "field_of (patch_fields p') m = field_of (patch_fields p) m \<or> m = ?n" for m
        using field_of_update [OF i jn] p'(2) by simp
      show "\<exists>f1. field_of (patch_fields p') ?n = Some f1 \<and> field_type f1 = join_type (field_type f) (field_type g)"
        using field_of_update [OF i jn] p'(2) by (simp add: j_def)
    qed
  qed
  have "fields_compat (patch_fields p1) gs"
    unfolding fields_compat_def
  proof
    fix h
    assume h: "h \<in> set gs"
    then have "field_name h \<noteq> ?n" using Cons.prems(1) by (auto simp: image_iff)
    then show "\<exists>f. field_of (patch_fields p1) (field_name h) = Some f \<and> compat (field_type f) (field_type h)"
      using p1(1) Cons.prems(2) h by (metis fields_compat_def list.set_intros(2))
  qed
  then obtain p' where p': "merge_field_list gs p1 = Inr p'" and spec: "\<And>n. case field_of (patch_fields p1) n of
       None \<Rightarrow> field_of (patch_fields p') n = None
     | Some f \<Rightarrow> \<exists>f'. field_of (patch_fields p') n = Some f' \<and>
         field_type f' = (case field_of gs n of Some g \<Rightarrow> join_type (field_type f) (field_type g) | None \<Rightarrow> field_type f)"
    using Cons.IH [of p1] Cons.prems(1) by auto
  show ?case
  proof (intro exI conjI allI)
    show "merge_field_list (g # gs) p = Inr p'" using step p' by simp
    show "case field_of (patch_fields p) m of
       None \<Rightarrow> field_of (patch_fields p') m = None
     | Some f \<Rightarrow> \<exists>f'. field_of (patch_fields p') m = Some f' \<and>
         field_type f' = (case field_of (g # gs) m of Some g \<Rightarrow> join_type (field_type f) (field_type g) | None \<Rightarrow> field_type f)" for m
    proof (cases "m = ?n")
      case True
      then show ?thesis using spec [of m] p1(2) f(1) g_out by (auto simp: field_of_def)
    next
      case False
      then have e: "field_of (g # gs) m = field_of gs m" by (simp add: field_of_def)
      show ?thesis unfolding e using spec [of m] p1(1) [of m] False by simp
    qed
  qed
qed


section \<open>Sort keys round trip\<close>

text \<open>
  C32: A sort key set on a schema is the one read back: \<open>set_sort_key\<close> accepts any list of column
  indexes, keeps the fields, and \<open>get_sort_key\<close> of its result is the key. The empty key is the
  exception: it is written as an empty metadata value, which the parser rejects.
\<close>

theorem sort_key_roundtrip:
  assumes "\<forall>i\<in>set key. i < length (schema_fields s)" and "length (schema_fields s) \<le> 2 ^ 64"
  shows "\<exists>s'. set_sort_key s key = Inr s' \<and> schema_fields s' = schema_fields s \<and>
    get_sort_key s' = (if key = [] then Inl BadSortKey else Inr key)"
proof -
  let ?s = "patch_finish (insert_metadata SQD_SORT_KEY (print_sort_key key) (patch_new s))"
  have set: "set_sort_key s key = Inr ?s"
    using assms(1) by (simp add: set_sort_key_def patch_set_sort_key_def)
  have fs: "schema_fields ?s = schema_fields s"
    by (simp add: insert_metadata_def patch_finish_def patch_update_def new_schema_mut_def patch_new_def)
  have meta: "map_of (schema_metadata ?s) SQD_SORT_KEY = Some (print_sort_key key)"
    by (simp add: insert_metadata_def patch_finish_def patch_update_def new_schema_mut_def patch_new_def
        patch_metadata_def map_of_meta_insert)
  have "parse_sort_key (print_sort_key key) (length (schema_fields s)) = (if key = [] then Inl BadSortKey else Inr key)"
  proof (cases key)
    case Nil
    then show ?thesis by (simp add: parse_sort_key_def parse_usize_def)
  next
    case (Cons k ks)
    have "\<forall>i\<in>set key. i < 2 ^ 64" using assms by (meson less_le_trans)
    then have "parse_all (split_on (CHR '','') (print_sort_key key)) = Inr key"
      unfolding Cons split_print using parse_all_show by blast
    then show ?thesis using assms(1) Cons by (simp add: parse_sort_key_def)
  qed
  then show ?thesis using set fs meta by (auto simp: get_sort_key_def)
qed

definition ex_schema :: schema where
  "ex_schema = \<lparr>schema_fields = [Field ''a'' DUInt32 False, Field ''b'' (DOther ''Utf8'') True], schema_metadata = []\<rparr>"

theorem sort_key_roundtrip_witness:
  "\<exists>s'. set_sort_key ex_schema [1, 0] = Inr s' \<and> schema_fields s' = schema_fields ex_schema \<and> get_sort_key s' = Inr [1, 0]"
  using sort_key_roundtrip [of "[1, 0]" ex_schema] by (simp add: ex_schema_def)

end
