(* ===== verification/TableMerge.thy ===== *)
theory TableMerge
  imports Offsets Schemas "HOL-Library.Multiset"
begin

text \<open>
  The merge of the tables of several chunks (\<open>storage/src/db/ops/table_merge.rs\<close>), with the index casts
  (\<open>storage/src/db/ops/cast.rs\<close>, \<open>array/src/item_index_cast.rs\<close>) and the row order
  (\<open>array/src/sort/sorting.rs\<close>, \<open>array/src/sort/order.rs\<close>). A column is the list of its cells, each with
  its validity bit; the page format that the readers decode and the buffers behind a writer are not
  modelled: \<open>dst.shift(column_offsets[i])\<close> is the \<open>i\<close>-th column of the destination.
  \<open>slice::sort_unstable_by\<close> is an argument, because it leaves the order of equal rows open.
\<close>

section \<open>Cells\<close>

text \<open>Signed and boolean cells are \<open>CInt\<close>, strings and binaries \<open>CBytes\<close>, floats and structs \<open>COpaque\<close>, lists of
  both kinds \<open>CList\<close>.\<close>

datatype cell =
  CU16 u16
| CU32 u32
| CU64 u64
| CInt int
| CBytes bytes
| COpaque bytes
| CList "(cell \<times> bool) list"

type_synonym col = "(cell \<times> bool) list"

record source_table =
  st_schema :: schema
  st_num_rows :: nat
  st_columns :: "col list"
  st_stats :: "nat \<Rightarrow> db_err + bool"

section \<open>Index casts\<close>

fun try_from_cell :: "data_type \<Rightarrow> cell \<Rightarrow> cell option" where
  "try_from_cell DUInt32 (CU16 x) = Some (CU32 (ucast x))"
| "try_from_cell DUInt16 (CU32 x) = (if x < 2 ^ 16 then Some (CU16 (ucast x)) else None)"
| "try_from_cell DUInt64 (CU32 x) = Some (CU64 (ucast x))"
| "try_from_cell DUInt32 (CU64 x) = (if x < 2 ^ 32 then Some (CU32 (ucast x)) else None)"
| "try_from_cell DUInt16 (CU64 x) = (if x < 2 ^ 16 then Some (CU16 (ucast x)) else None)"
| "try_from_cell _ _ = None"

fun cast_primitive :: "data_type \<Rightarrow> col \<Rightarrow> db_err + col" where
  "cast_primitive target [] = Inr []"
| "cast_primitive target ((v, valid) # cs) =
     rbind (ok_or (try_from_cell target v) ConversionError) (\<lambda>v.
     rbind (cast_primitive target cs) (\<lambda>cs. Inr ((v, valid) # cs)))"

fun cast_address_impl :: "data_type \<Rightarrow> col \<Rightarrow> db_err + col" where
  "cast_address_impl target [] = Inr []"
| "cast_address_impl target ((CList items, valid) # cs) =
     rbind (cast_primitive target items) (\<lambda>items.
     rbind (cast_address_impl target cs) (\<lambda>cs. Inr ((CList items, valid) # cs)))"
| "cast_address_impl target (_ # cs) = Inl NotIndexSlice"

definition cast_address :: "data_type \<Rightarrow> data_type \<Rightarrow> col \<Rightarrow> db_err + col" where
  "cast_address item target_type cs =
     (case item of
        DUInt16 \<Rightarrow>
          (case target_type of
             DList f \<Rightarrow> if field_type f = DUInt32 then cast_address_impl DUInt32 cs else Inl InvalidIndexCast
           | _ \<Rightarrow> Inl InvalidIndexCast)
      | DUInt32 \<Rightarrow>
          (case target_type of
             DList f \<Rightarrow> if field_type f = DUInt16 then cast_address_impl DUInt16 cs else Inl InvalidIndexCast
           | _ \<Rightarrow> Inl InvalidIndexCast)
      | _ \<Rightarrow> Inl NotIndexSlice)"

definition cast_item_index :: "data_type \<Rightarrow> col \<Rightarrow> data_type \<Rightarrow> db_err + col" where
  "cast_item_index src_type cs target_type =
     (case src_type of
        DUInt16 \<Rightarrow> (case target_type of DUInt32 \<Rightarrow> cast_primitive DUInt32 cs | _ \<Rightarrow> Inl InvalidIndexCast)
      | DUInt32 \<Rightarrow>
          (case target_type of
             DUInt16 \<Rightarrow> cast_primitive DUInt16 cs
           | DUInt64 \<Rightarrow> cast_primitive DUInt64 cs
           | _ \<Rightarrow> Inl InvalidIndexCast)
      | DUInt64 \<Rightarrow>
          (case target_type of
             DUInt32 \<Rightarrow> cast_primitive DUInt32 cs
           | DUInt16 \<Rightarrow> cast_primitive DUInt16 cs
           | _ \<Rightarrow> Inl InvalidIndexCast)
      | DList f \<Rightarrow> cast_address (field_type f) target_type cs
      | DOther _ \<Rightarrow> Inl NotIndexSlice)"

section \<open>Casting readers\<close>

definition col_slice :: "col \<Rightarrow> nat \<Rightarrow> nat \<Rightarrow> db_err + col" where
  "col_slice src off len = (if off + len \<le> length src then Inr (take len (drop off src)) else Inl SliceOutOfBounds)"

record index_cast_reader =
  icr_src :: col
  icr_src_type :: data_type
  icr_target_type :: data_type

function icr_read_slice :: "index_cast_reader \<Rightarrow> nat \<Rightarrow> nat \<Rightarrow> col \<Rightarrow> db_err + col" where
  "icr_read_slice r off len dst =
     (if len > 0 then
        let step = min len 1000 in
        rbind (col_slice (icr_src r) off step) (\<lambda>src_buf.
        rbind (cast_item_index (icr_src_type r) src_buf (icr_target_type r)) (\<lambda>cs.
        icr_read_slice r (off + step) (len - step) (dst @ cs)))
      else Inr dst)"
  by pat_completeness auto
termination
  by (relation "measure (\<lambda>(r, off, len, dst). len)") auto

declare icr_read_slice.simps [simp del]

definition icr_read :: "index_cast_reader \<Rightarrow> col \<Rightarrow> db_err + col" where
  "icr_read r dst = icr_read_slice r 0 (length (icr_src r)) dst"

datatype maybe_casted_reader = Plain col | Cast index_cast_reader

fun mcr_read :: "maybe_casted_reader \<Rightarrow> col \<Rightarrow> db_err + col" where
  "mcr_read (Plain r) dst = Inr (dst @ r)"
| "mcr_read (Cast r) dst = icr_read r dst"

fun mcr_read_slice :: "maybe_casted_reader \<Rightarrow> nat \<Rightarrow> nat \<Rightarrow> col \<Rightarrow> db_err + col" where
  "mcr_read_slice (Plain r) off len dst = rbind (col_slice r off len) (\<lambda>cs. Inr (dst @ cs))"
| "mcr_read_slice (Cast r) off len dst = icr_read_slice r off len dst"

definition create_maybe_casted_reader :: "source_table \<Rightarrow> nat \<Rightarrow> data_type \<Rightarrow> db_err + maybe_casted_reader" where
  "create_maybe_casted_reader t column_index target_type =
     rbind (at (schema_fields (st_schema t)) column_index) (\<lambda>f.
     rbind (at (st_columns t) column_index) (\<lambda>reader.
     Inr (if data_types_equal (field_type f) target_type then Plain reader
          else Cast \<lparr>icr_src = reader, icr_src_type = field_type f, icr_target_type = target_type\<rparr>)))"

section \<open>Row order\<close>

datatype ordering = Less | Equal | Greater

definition cmp :: "'a::linorder \<Rightarrow> 'a \<Rightarrow> ordering" where
  "cmp a b = (if a < b then Less else if a = b then Equal else Greater)"

text \<open>Cells of one column compare as these keys do, item by item.\<close>

fun item_key :: "cell \<Rightarrow> int" where
  "item_key (CU16 x) = uint x"
| "item_key (CU32 x) = uint x"
| "item_key (CU64 x) = uint x"
| "item_key (CInt i) = i"
| "item_key _ = 0"

fun cell_key :: "cell \<Rightarrow> int list" where
  "cell_key (CBytes bs) = map uint bs"
| "cell_key (CList items) = map (\<lambda>c. item_key (fst c)) items"
| "cell_key (COpaque _) = []"
| "cell_key c = [item_key c]"

definition compare_cells :: "col \<Rightarrow> nat \<Rightarrow> nat \<Rightarrow> ordering" where
  "compare_cells cs a b =
     (case (snd (cs ! a), snd (cs ! b)) of
        (True, True) \<Rightarrow> cmp (cell_key (fst (cs ! a))) (cell_key (fst (cs ! b)))
      | (True, False) \<Rightarrow> Less
      | (False, True) \<Rightarrow> Greater
      | (False, False) \<Rightarrow> Equal)"

fun order_list :: "col list \<Rightarrow> nat \<Rightarrow> nat \<Rightarrow> ordering" where
  "order_list [] a b = Equal"
| "order_list (c # cs) a b = (case compare_cells c a b of Equal \<Rightarrow> order_list cs a b | res \<Rightarrow> res)"

definition plain_items :: "col \<Rightarrow> bool" where
  "plain_items = list_all (\<lambda>c. case fst c of CList items \<Rightarrow> list_all snd items | _ \<Rightarrow> True)"

text \<open>
  Opaque types are named as arrow prints them; a fixed-size list has its size after the type name and
  its item type in parentheses, as in \<open>FixedSizeList4(UInt16)\<close>. Of these, the ones with \<open>u16\<close>, \<open>u32\<close> and \<open>i32\<close> items
  are sortable.
\<close>

definition fixed_list_item :: "string \<Rightarrow> data_type option" where
  "fixed_list_item n =
     (if take 13 n = ''FixedSizeList''
      then map_of [(''(UInt16)'', DUInt16), (''(UInt32)'', DUInt32), (''(Int32)'', DOther ''Int32'')] (dropWhile (\<lambda>c. c \<noteq> CHR ''('') n)
      else None)"

definition order_supported :: "data_type \<Rightarrow> col \<Rightarrow> bool" where
  "order_supported ty cs \<longleftrightarrow>
     (case ty of
        DList f \<Rightarrow> field_type f \<in> {DUInt16, DUInt32, DOther ''Int32''} \<and> plain_items cs
      | DOther n \<Rightarrow>
          n \<in> {''Boolean'', ''UInt8'', ''Int8'', ''Int16'', ''Int32'', ''Int64'', ''Utf8'', ''Binary''} \<or>
          take 15 n = ''FixedSizeBinary'' \<or> fixed_list_item n \<noteq> None \<and> plain_items cs
      | _ \<Rightarrow> True)"

type_synonym sorter = "(nat \<Rightarrow> nat \<Rightarrow> ordering) \<Rightarrow> nat list \<Rightarrow> nat list"

definition sort_table_to_indexes :: "sorter \<Rightarrow> (data_type \<times> col) list \<Rightarrow> nat \<Rightarrow> db_err + nat list" where
  "sort_table_to_indexes sort_unstable_by table len =
     rbind (ensure (table \<noteq> [] \<and> list_all (\<lambda>(ty, c). order_supported ty c) table) SortPanic) (\<lambda>_.
     Inr (sort_unstable_by (order_list (map snd table)) [0..<len]))"

section \<open>Table merge\<close>

definition strip_unknown_metadata :: "schema \<Rightarrow> schema" where
  "strip_unknown_metadata s =
     (let p = patch_new s in
      patch_finish
        (if \<exists>e\<in>set (patch_metadata p). fst e \<noteq> SQD_SORT_KEY
         then patch_update (\<lambda>s. s\<lparr>schema_metadata := filter (\<lambda>e. fst e = SQD_SORT_KEY) (schema_metadata s)\<rparr>) p
         else p))"

record table_merge =
  tm_chunks :: "source_table list"
  tm_schema :: schema
  tm_sort_key :: "nat list"
  tm_columns_with_stats :: "nat list"

fun merge_schemas :: "source_table list \<Rightarrow> schema_patch \<Rightarrow> db_err + schema_patch" where
  "merge_schemas [] p = Inr p"
| "merge_schemas (t # ts) p = rbind (merge_schema p (st_schema t)) (merge_schemas ts)"

fun collect_stats :: "source_table \<Rightarrow> nat list \<Rightarrow> db_err + nat list" where
  "collect_stats t [] = Inr []"
| "collect_stats t (i # is) =
     rbind (st_stats t i) (\<lambda>some. rbind (collect_stats t is) (\<lambda>r. Inr (if some then i # r else r)))"

definition tm_prepare :: "source_table list \<Rightarrow> db_err + table_merge" where
  "tm_prepare chunks =
     rbind (ensure (chunks \<noteq> []) NothingToMerge) (\<lambda>_.
     let last_chunk = last chunks in
     rbind (merge_schemas (tl (rev chunks)) (patch_new (strip_unknown_metadata (st_schema last_chunk)))) (\<lambda>p.
     let sch = patch_finish p in
     rbind (get_sort_key sch) (\<lambda>sort_key.
     rbind (collect_stats last_chunk [0..<length (schema_fields (st_schema last_chunk))]) (\<lambda>cols.
     Inr \<lparr>tm_chunks = chunks, tm_schema = sch, tm_sort_key = sort_key, tm_columns_with_stats = cols\<rparr>))))"

definition num_columns :: "table_merge \<Rightarrow> nat" where
  "num_columns m = length (schema_fields (tm_schema m))"

definition index_of_name :: "schema \<Rightarrow> string \<Rightarrow> db_err + nat" where
  "index_of_name s name = ok_or (map_option fst (find_index (\<lambda>f. field_name f = name) (schema_fields s))) NoSuchField"

fun chunk_columns_of :: "string \<Rightarrow> nat \<Rightarrow> source_table list \<Rightarrow> db_err + nat list" where
  "chunk_columns_of name index [] = Inr []"
| "chunk_columns_of name index (c # cs) =
     rbind (at (schema_fields (st_schema c)) index) (\<lambda>f.
     rbind (if field_name f = name then Inr index else index_of_name (st_schema c) name) (\<lambda>i.
     rbind (chunk_columns_of name index cs) (\<lambda>is. Inr (i # is))))"

definition chunk_columns :: "table_merge \<Rightarrow> nat \<Rightarrow> db_err + nat list" where
  "chunk_columns m index =
     rbind (at (schema_fields (tm_schema m)) index) (\<lambda>f. chunk_columns_of (field_name f) index (tm_chunks m))"

fun read_each :: "data_type \<Rightarrow> (source_table \<times> nat) list \<Rightarrow> col \<Rightarrow> db_err + col" where
  "read_each ty [] dst = Inr dst"
| "read_each ty ((t, ci) # ts) dst =
     rbind (create_maybe_casted_reader t ci ty) (\<lambda>r. rbind (mcr_read r dst) (read_each ty ts))"

definition read_unsorted_column :: "table_merge \<Rightarrow> nat \<Rightarrow> col \<Rightarrow> db_err + col" where
  "read_unsorted_column m index dst =
     rbind (at (schema_fields (tm_schema m)) index) (\<lambda>f.
     rbind (chunk_columns m index) (\<lambda>chunk_columns.
     read_each (field_type f) (zip (tm_chunks m) chunk_columns) dst))"

fun make_readers :: "data_type \<Rightarrow> (source_table \<times> nat) list \<Rightarrow> db_err + maybe_casted_reader list" where
  "make_readers ty [] = Inr []"
| "make_readers ty ((t, ci) # ts) =
     rbind (create_maybe_casted_reader t ci ty) (\<lambda>r. rbind (make_readers ty ts) (\<lambda>rs. Inr (r # rs)))"

fun read_ranges :: "maybe_casted_reader list \<Rightarrow> chunk_range list \<Rightarrow> col \<Rightarrow> db_err + col" where
  "read_ranges readers [] dst = Inr dst"
| "read_ranges readers (rg # order) dst =
     rbind (at readers (unat (cr_chunk rg))) (\<lambda>r.
     rbind (mcr_read_slice r (unat (cr_offset rg)) (unat (cr_len rg)) dst) (read_ranges readers order))"

fun plain_readers :: "(source_table \<times> nat) list \<Rightarrow> db_err + maybe_casted_reader list" where
  "plain_readers [] = Inr []"
| "plain_readers ((t, ci) # ts) =
     rbind (at (st_columns t) ci) (\<lambda>c. rbind (plain_readers ts) (\<lambda>rs. Inr (Plain c # rs)))"

definition read_sorted_column :: "table_merge \<Rightarrow> nat \<Rightarrow> chunk_range list \<Rightarrow> col \<Rightarrow> db_err + col" where
  "read_sorted_column m index order dst =
     rbind (at (schema_fields (tm_schema m)) index) (\<lambda>f.
     rbind (chunk_columns m index) (\<lambda>chunk_columns.
     let srcs = zip (tm_chunks m) chunk_columns;
         needs_cast = (\<exists>(t, ci)\<in>set srcs. \<not> data_types_equal (field_type f) (field_type (schema_fields (st_schema t) ! ci)))
     in rbind (if needs_cast then make_readers (field_type f) srcs else plain_readers srcs) (\<lambda>readers.
        read_ranges readers order dst)))"

section \<open>Writing\<close>

fun write_columns :: "(nat \<Rightarrow> col \<Rightarrow> db_err + col) \<Rightarrow> nat list \<Rightarrow> col list \<Rightarrow> db_err + col list" where
  "write_columns g [] dst = Inr dst"
| "write_columns g (i # is) dst =
     rbind (at dst i) (\<lambda>c. rbind (g i c) (\<lambda>c. write_columns g is (dst[i := c])))"

definition unsorted_write :: "table_merge \<Rightarrow> col list \<Rightarrow> db_err + col list" where
  "unsorted_write m dst = write_columns (read_unsorted_column m) [0..<num_columns m] dst"

fun read_sort_key_columns :: "table_merge \<Rightarrow> nat list \<Rightarrow> db_err + (data_type \<times> col) list" where
  "read_sort_key_columns m [] = Inr []"
| "read_sort_key_columns m (ci # key) =
     rbind (at (schema_fields (tm_schema m)) ci) (\<lambda>f.
     rbind (read_unsorted_column m ci []) (\<lambda>c.
     rbind (read_sort_key_columns m key) (\<lambda>cs. Inr ((field_type f, c) # cs))))"

definition write_indexes :: "col \<Rightarrow> nat list \<Rightarrow> col \<Rightarrow> db_err + col" where
  "write_indexes src order dst =
     rbind (ensure (list_all (\<lambda>i. i < length src) order) IndexPanic) (\<lambda>_. Inr (dst @ map ((!) src) order))"

definition table_len :: "(data_type \<times> col) list \<Rightarrow> db_err + nat" where
  "table_len cols =
     (let len = (case cols of [] \<Rightarrow> 0 | c # _ \<Rightarrow> length (snd c)) in
      rbind (ensure (list_all (\<lambda>c. length (snd c) = len) cols) AssertPanic) (\<lambda>_. Inr len))"

definition sorted_write :: "sorter \<Rightarrow> table_merge \<Rightarrow> col list \<Rightarrow> db_err + col list" where
  "sorted_write sort_unstable_by m dst =
     rbind (read_sort_key_columns m (tm_sort_key m)) (\<lambda>sort_table.
     rbind (table_len sort_table) (\<lambda>len.
     rbind (sort_table_to_indexes sort_unstable_by sort_table len) (\<lambda>order.
     rbind (write_columns (\<lambda>i c. rbind (at sort_table i) (\<lambda>src. write_indexes (snd src) order c)) (tm_sort_key m) dst) (\<lambda>dst.
     if length (tm_sort_key m) = num_columns m then Inr dst
     else
       rbind (build_rel_order_list (build_offsets 0 (map st_num_rows (tm_chunks m))) order) (\<lambda>chunks.
       write_columns (\<lambda>i. read_sorted_column m i chunks)
         (filter (\<lambda>i. i \<notin> set (tm_sort_key m)) [0..<num_columns m]) dst)))))"

definition tm_write :: "sorter \<Rightarrow> table_merge \<Rightarrow> col list \<Rightarrow> db_err + col list" where
  "tm_write sort_unstable_by m dst =
     (if length (tm_sort_key m) > 0 then sorted_write sort_unstable_by m dst else unsorted_write m dst)"


section \<open>Well-formed tables\<close>

definition fixed_item_ok :: "data_type \<Rightarrow> cell \<times> bool \<Rightarrow> bool" where
  "fixed_item_ok t x =
     (case fst x of CU16 _ \<Rightarrow> t = DUInt16 | CU32 _ \<Rightarrow> t = DUInt32 | CInt _ \<Rightarrow> t = DOther ''Int32'' | _ \<Rightarrow> False)"

fun cell_ok :: "data_type \<Rightarrow> cell \<Rightarrow> bool" where
  "cell_ok DUInt16 c = (case c of CU16 _ \<Rightarrow> True | _ \<Rightarrow> False)"
| "cell_ok DUInt32 c = (case c of CU32 _ \<Rightarrow> True | _ \<Rightarrow> False)"
| "cell_ok DUInt64 c = (case c of CU64 _ \<Rightarrow> True | _ \<Rightarrow> False)"
| "cell_ok (DList (Field n t u)) c = (case c of CList xs \<Rightarrow> list_all (\<lambda>x. cell_ok t (fst x)) xs | _ \<Rightarrow> False)"
| "cell_ok (DOther n) c =
     (case c of
        CInt _ \<Rightarrow> True | CBytes _ \<Rightarrow> True | COpaque _ \<Rightarrow> True
      | CList xs \<Rightarrow> (case fixed_list_item n of None \<Rightarrow> False | Some t \<Rightarrow> list_all (fixed_item_ok t) xs)
      | _ \<Rightarrow> False)"

definition col_ok :: "data_type \<Rightarrow> col \<Rightarrow> bool" where
  "col_ok ty = list_all (\<lambda>c. cell_ok ty (fst c))"

text \<open>No list of \<open>UInt64\<close> items: the index types of \<open>is_item_index\<close>.\<close>

definition list_items_ok :: "data_type \<Rightarrow> bool" where
  "list_items_ok ty = (case ty of DList f \<Rightarrow> field_type f \<noteq> DUInt64 | _ \<Rightarrow> True)"

definition source_ok :: "source_table \<Rightarrow> bool" where
  "source_ok t \<longleftrightarrow>
     distinct (map field_name (schema_fields (st_schema t))) \<and>
     list_all2 (\<lambda>f c. length c = st_num_rows t \<and> col_ok (field_type f) c \<and> list_items_ok (field_type f))
       (schema_fields (st_schema t)) (st_columns t)"

text \<open>A cell without the width of its integers.\<close>

fun erase :: "cell \<Rightarrow> cell" where
  "erase (CU16 x) = CInt (uint x)"
| "erase (CU32 x) = CInt (uint x)"
| "erase (CU64 x) = CInt (uint x)"
| "erase (CList xs) = CList (map (\<lambda>x. (erase (fst x), snd x)) xs)"
| "erase c = c"

section \<open>Widening\<close>

inductive castable :: "data_type \<Rightarrow> data_type \<Rightarrow> bool" where
  w16_32: "castable DUInt16 DUInt32"
| w32_64: "castable DUInt32 DUInt64"
| wlist: "castable (DList (Field n DUInt16 u)) (DList (Field m DUInt32 v))"

definition widens :: "data_type \<Rightarrow> data_type \<Rightarrow> bool" where
  "widens a b \<longleftrightarrow> data_types_equal a b \<or> castable a b"

fun widen :: "data_type \<Rightarrow> cell \<Rightarrow> cell" where
  "widen DUInt32 (CU16 x) = CU32 (ucast x)"
| "widen DUInt64 (CU32 x) = CU64 (ucast x)"
| "widen (DList (Field n t u)) (CList xs) = CList (map (\<lambda>x. (widen t (fst x), snd x)) xs)"
| "widen t c = c"

definition conv :: "data_type \<Rightarrow> data_type \<Rightarrow> col \<Rightarrow> col" where
  "conv s t cs = (if data_types_equal s t then cs else map (\<lambda>c. (widen t (fst c), snd c)) cs)"

lemma length_conv [simp]: "length (conv s t cs) = length cs"
  by (simp add: conv_def)

lemma conv_append: "conv s t (xs @ ys) = conv s t xs @ conv s t ys"
  by (simp add: conv_def)

lemma conv_take_drop: "conv s t (take n (drop m xs)) = take n (drop m (conv s t xs))"
  by (simp add: conv_def take_map drop_map)

lemma cast_primitive_widen:
  assumes "s = DUInt16 \<and> t = DUInt32 \<or> s = DUInt32 \<and> t = DUInt64" and "col_ok s cs"
  shows "cast_primitive t cs = Inr (map (\<lambda>c. (widen t (fst c), snd c)) cs)"
  using assms(2)
proof (induction cs)
  case (Cons c cs)
  obtain v b where c: "c = (v, b)" by (cases c)
  have "try_from_cell t v = Some (widen t v)"
    using assms(1) Cons.prems c by (cases v) (auto simp: col_ok_def)
  then show ?case using Cons c by (simp add: col_ok_def)
qed simp

lemma cast_address_widen:
  assumes "col_ok (DList (Field n DUInt16 u)) cs"
  shows "cast_address_impl DUInt32 cs = Inr (map (\<lambda>c. (widen (DList (Field m DUInt32 v)) (fst c), snd c)) cs)"
  using assms
proof (induction cs)
  case (Cons c cs)
  obtain items b where c: "c = (CList items, b)" "col_ok DUInt16 items"
    using Cons.prems by (cases c; cases "fst c") (auto simp: col_ok_def)
  then show ?case using Cons cast_primitive_widen [of DUInt16 DUInt32 items] by (simp add: col_ok_def)
qed simp

lemma cast_item_index_widen:
  assumes "castable s t" and "col_ok s cs"
  shows "cast_item_index s cs t = Inr (map (\<lambda>c. (widen t (fst c), snd c)) cs)"
  using assms
proof (induction rule: castable.induct)
  case (wlist n u m v)
  then show ?case using cast_address_widen [of n u cs m v] by (simp add: cast_item_index_def cast_address_def)
qed (simp_all add: cast_item_index_def cast_primitive_widen)

lemma col_ok_slice: "col_ok s cs \<Longrightarrow> col_ok s (take n (drop m cs))"
  unfolding col_ok_def list_all_iff by (meson in_set_dropD in_set_takeD)

lemma icr_read_slice_widen:
  assumes "castable s t" "col_ok s src" "off + len \<le> length src"
  shows "icr_read_slice \<lparr>icr_src = src, icr_src_type = s, icr_target_type = t\<rparr> off len dst =
    Inr (dst @ map (\<lambda>c. (widen t (fst c), snd c)) (take len (drop off src)))"
  using assms(3)
proof (induction len arbitrary: off dst rule: less_induct)
  case (less len)
  show ?case
  proof (cases "len = 0")
    case False
    define step where "step = min len 1000"
    have step: "0 < step" "step \<le> len" using False by (simp_all add: step_def)
    let ?w = "map (\<lambda>c. (widen t (fst c), snd c))"
    have "cast_item_index s (take step (drop off src)) t = Inr (?w (take step (drop off src)))"
      by (rule cast_item_index_widen [OF assms(1) col_ok_slice [OF assms(2)]])
    moreover have "take len (drop off src) = take step (drop off src) @ take (len - step) (drop (off + step) src)"
      using take_add [of step "len - step" "drop off src"] step by (simp add: add.commute)
    ultimately show ?thesis
      using less.IH [of "len - step" "off + step" "dst @ ?w (take step (drop off src))"] less.prems step
      by (subst icr_read_slice.simps) (simp add: Let_def step_def [symmetric] col_slice_def)
  qed (simp add: icr_read_slice.simps)
qed

lemma source_col:
  assumes "source_ok t" and "k < length (schema_fields (st_schema t))"
  shows "k < length (st_columns t)" "length (st_columns t ! k) = st_num_rows t"
    "col_ok (field_type (schema_fields (st_schema t) ! k)) (st_columns t ! k)"
    "list_items_ok (field_type (schema_fields (st_schema t) ! k))"
  using assms by (auto simp: source_ok_def list_all2_conv_all_nth)

lemma mcr_widen:
  assumes "source_ok t" and "find_index (\<lambda>f. field_name f = n) (schema_fields (st_schema t)) = Some (k, g)"
    and "widens (field_type g) ty"
  obtains r where "create_maybe_casted_reader t k ty = Inr r"
    "\<And>dst. mcr_read r dst = Inr (dst @ conv (field_type g) ty (st_columns t ! k))"
    "\<And>off len dst. off + len \<le> st_num_rows t \<Longrightarrow>
       mcr_read_slice r off len dst = Inr (dst @ take len (drop off (conv (field_type g) ty (st_columns t ! k))))"
proof -
  note k = find_index_find [OF assms(2)]
  let ?c = "st_columns t ! k" and ?s = "field_type g"
  have c: "k < length (st_columns t)" "length ?c = st_num_rows t" "col_ok ?s ?c"
    using source_col [OF assms(1), of k] k by simp_all
  show thesis
  proof (cases "data_types_equal ?s ty")
    case True
    then show ?thesis
      using k c that [of "Plain ?c"] by (simp add: create_maybe_casted_reader_def at_def conv_def col_slice_def)
  next
    case False
    then have cast: "castable ?s ty" using assms(3) by (simp add: widens_def)
    let ?r = "Cast \<lparr>icr_src = ?c, icr_src_type = ?s, icr_target_type = ty\<rparr>"
    show ?thesis
    proof (rule that [of ?r])
      show "create_maybe_casted_reader t k ty = Inr ?r"
        using k c False by (simp add: create_maybe_casted_reader_def at_def)
      show "mcr_read ?r dst = Inr (dst @ conv ?s ty ?c)" for dst
        using icr_read_slice_widen [OF cast c(3), of 0 "length ?c" dst] False by (simp add: icr_read_def conv_def)
      show "mcr_read_slice ?r off len dst = Inr (dst @ take len (drop off (conv ?s ty ?c)))"
        if "off + len \<le> st_num_rows t" for off len dst
        using icr_read_slice_widen [OF cast c(3), of off len dst] False that c(2) by (simp add: conv_def take_map drop_map)
    qed
  qed
qed


lemma widen_prim:
  assumes "s = DUInt16 \<and> t = DUInt32 \<or> s = DUInt32 \<and> t = DUInt64" and "cell_ok s c"
  shows "cell_ok t (widen t c) \<and> erase (widen t c) = erase c"
proof -
  have "uint (ucast x :: u32) = uint x" for x :: u16
    using uint_lt2p [of x] by (simp add: unsigned_ucast_eq take_bit_int_eq_self)
  moreover have "uint (ucast x :: u64) = uint x" for x :: u32
    using uint_lt2p [of x] by (simp add: unsigned_ucast_eq take_bit_int_eq_self)
  ultimately show ?thesis using assms by (cases c) auto
qed

lemma widen_list:
  assumes "cell_ok (DList (Field n DUInt16 u)) c" and "t = DList (Field m DUInt32 v)"
  shows "cell_ok t (widen t c) \<and> erase (widen t c) = erase c"
proof -
  obtain xs where xs: "c = CList xs" "\<forall>x\<in>set xs. cell_ok DUInt16 (fst x)"
    using assms(1) by (cases c) (auto simp: list_all_iff)
  have "cell_ok DUInt32 (widen DUInt32 (fst x)) \<and> erase (widen DUInt32 (fst x)) = erase (fst x)" if "x \<in> set xs" for x
    using widen_prim [of DUInt16 DUInt32] xs(2) that by blast
  then show ?thesis using xs(1) assms(2) by (auto simp: list_all_iff)
qed

lemma widen_cell:
  assumes "castable s t" and "cell_ok s c"
  shows "cell_ok t (widen t c) \<and> erase (widen t c) = erase c"
  using assms
proof (induction rule: castable.induct)
  case w16_32
  then show ?case using widen_prim [of DUInt16 DUInt32] by blast
next
  case w32_64
  then show ?case using widen_prim [of DUInt32 DUInt64] by blast
next
  case (wlist n u m v)
  then show ?case using widen_list by blast
qed

lemma data_types_equal_cell: "data_types_equal s t \<Longrightarrow> cell_ok s c \<Longrightarrow> cell_ok t c"
proof (induction s t arbitrary: c rule: data_types_equal.induct)
  case (1 n a u m b v)
  show ?case
  proof (cases "a = b")
    case True
    then show ?thesis using 1(3) by simp
  next
    case False
    then have "data_types_equal a b" using 1(2) by simp
    then show ?thesis using 1(1,3) by (cases c) (auto simp: list_all_iff)
  qed
qed simp_all

lemma conv_ok:
  assumes "widens s t" and "col_ok s cs"
  shows "col_ok t (conv s t cs)" "map (\<lambda>c. (erase (fst c), snd c)) (conv s t cs) = map (\<lambda>c. (erase (fst c), snd c)) cs"
proof -
  have "col_ok t (conv s t cs) \<and> map (\<lambda>c. (erase (fst c), snd c)) (conv s t cs) = map (\<lambda>c. (erase (fst c), snd c)) cs"
  proof (cases "data_types_equal s t")
    case True
    then show ?thesis using assms(2) data_types_equal_cell by (auto simp: conv_def col_ok_def list_all_iff)
  next
    case False
    then have "castable s t" using assms(1) by (simp add: widens_def)
    then have "\<And>c. c \<in> set cs \<Longrightarrow> cell_ok t (widen t (fst c)) \<and> erase (widen t (fst c)) = erase (fst c)"
      using widen_cell assms(2) by (auto simp: col_ok_def list_all_iff)
    then show ?thesis using False by (auto simp: conv_def col_ok_def list_all_iff)
  qed
  then show "col_ok t (conv s t cs)" "map (\<lambda>c. (erase (fst c), snd c)) (conv s t cs) = map (\<lambda>c. (erase (fst c), snd c)) cs"
    by simp_all
qed

section \<open>Reading the columns of a merge\<close>

definition col_named :: "source_table \<Rightarrow> string \<Rightarrow> (nat \<times> field) option" where
  "col_named t n = find_index (\<lambda>f. field_name f = n) (schema_fields (st_schema t))"

text \<open>The target schema fits the chunks: the same columns by name, and every type widens to the target type.\<close>

definition fits :: "table_merge \<Rightarrow> bool" where
  "fits m \<longleftrightarrow>
     (\<forall>t\<in>set (tm_chunks m). source_ok t \<and> length (schema_fields (st_schema t)) = num_columns m \<and>
        (\<forall>f\<in>set (schema_fields (tm_schema m)). \<exists>k g. col_named t (field_name f) = Some (k, g) \<and> widens (field_type g) (field_type f)))"

text \<open>The cells that one chunk contributes to a target column.\<close>

definition contribution :: "field \<Rightarrow> source_table \<Rightarrow> col" where
  "contribution f t =
     (case col_named t (field_name f) of
        Some (k, g) \<Rightarrow> conv (field_type g) (field_type f) (st_columns t ! k)
      | None \<Rightarrow> [])"

definition source_cells :: "string \<Rightarrow> source_table \<Rightarrow> col" where
  "source_cells n t = (case col_named t n of Some (k, g) \<Rightarrow> st_columns t ! k | None \<Rightarrow> [])"

definition merged_column :: "source_table list \<Rightarrow> field \<Rightarrow> col" where
  "merged_column ts f = concat (map (contribution f) ts)"

lemma fitsD:
  assumes "fits m" "t \<in> set (tm_chunks m)" "f \<in> set (schema_fields (tm_schema m))"
  obtains k g where "source_ok t" "col_named t (field_name f) = Some (k, g)" "widens (field_type g) (field_type f)"
    "contribution f t = conv (field_type g) (field_type f) (st_columns t ! k)" "length (st_columns t ! k) = st_num_rows t"
    "col_ok (field_type g) (st_columns t ! k)" "k < length (schema_fields (st_schema t))" "g = schema_fields (st_schema t) ! k"
    "k < length (st_columns t)"
proof -
  obtain k g where kg: "source_ok t" "col_named t (field_name f) = Some (k, g)" "widens (field_type g) (field_type f)"
    using assms unfolding fits_def by metis
  note k = find_index_find [OF kg(2) [unfolded col_named_def]]
  have "k < length (st_columns t)" "length (st_columns t ! k) = st_num_rows t" "col_ok (field_type g) (st_columns t ! k)"
    using source_col [OF kg(1), of k] k by simp_all
  moreover have "contribution f t = conv (field_type g) (field_type f) (st_columns t ! k)"
    by (simp add: contribution_def kg(2))
  ultimately show thesis using that [OF kg] k by blast
qed

lemma contribution_ok:
  assumes "fits m" "t \<in> set (tm_chunks m)" "f \<in> set (schema_fields (tm_schema m))"
  shows "length (contribution f t) = st_num_rows t" "col_ok (field_type f) (contribution f t)"
    "map (\<lambda>c. (erase (fst c), snd c)) (contribution f t) = map (\<lambda>c. (erase (fst c), snd c)) (source_cells (field_name f) t)"
proof -
  obtain k g where kg: "col_named t (field_name f) = Some (k, g)" "widens (field_type g) (field_type f)"
    "contribution f t = conv (field_type g) (field_type f) (st_columns t ! k)" "length (st_columns t ! k) = st_num_rows t"
    "col_ok (field_type g) (st_columns t ! k)" by (rule fitsD [OF assms])
  show "length (contribution f t) = st_num_rows t" using kg by simp
  show "col_ok (field_type f) (contribution f t)" using kg conv_ok(1) by simp
  show "map (\<lambda>c. (erase (fst c), snd c)) (contribution f t) = map (\<lambda>c. (erase (fst c), snd c)) (source_cells (field_name f) t)"
    using kg conv_ok(2) [OF kg(2,5)] by (simp add: source_cells_def)
qed

lemma chunk_columns_fit:
  assumes "fits m" and "i < num_columns m" and "set ts \<subseteq> set (tm_chunks m)"
  shows "chunk_columns_of (field_name (schema_fields (tm_schema m) ! i)) i ts =
    Inr (map (\<lambda>t. fst (the (col_named t (field_name (schema_fields (tm_schema m) ! i))))) ts)"
  using assms(3)
proof (induction ts)
  case (Cons t ts)
  let ?f = "schema_fields (tm_schema m) ! i"
  have f: "?f \<in> set (schema_fields (tm_schema m))" using assms(2) by (simp add: num_columns_def)
  have t: "t \<in> set (tm_chunks m)" using Cons.prems by simp
  obtain k g where kg: "source_ok t" "col_named t (field_name ?f) = Some (k, g)" by (rule fitsD [OF assms(1) t f])
  have i: "i < length (schema_fields (st_schema t))" using assms(1,2) t by (simp add: fits_def)
  note k = find_index_find [OF kg(2) [unfolded col_named_def]]
  have "k = i" if "field_name (schema_fields (st_schema t) ! i) = field_name ?f"
  proof -
    have "field_name (schema_fields (st_schema t) ! k) = field_name ?f"
      using find_Some_iff [THEN iffD1] k by (metis (mono_tags, lifting))
    then show ?thesis
      using kg(1) that k i nth_eq_iff_index_eq [of "map field_name (schema_fields (st_schema t))" k i]
      by (simp add: source_ok_def)
  qed
  then show ?case
    using Cons i kg(2) by (auto simp: at_def index_of_name_def col_named_def)
qed simp

lemma read_each_fit:
  assumes "fits m" and "f \<in> set (schema_fields (tm_schema m))" and "set ts \<subseteq> set (tm_chunks m)"
  shows "read_each (field_type f) (zip ts (map (\<lambda>t. fst (the (col_named t (field_name f)))) ts)) dst = Inr (dst @ merged_column ts f)"
  using assms(3)
proof (induction ts arbitrary: dst)
  case (Cons t ts)
  have t: "t \<in> set (tm_chunks m)" using Cons.prems by simp
  obtain k g where kg: "source_ok t" "col_named t (field_name f) = Some (k, g)" "widens (field_type g) (field_type f)"
    "contribution f t = conv (field_type g) (field_type f) (st_columns t ! k)" by (rule fitsD [OF assms(1) t assms(2)])
  obtain r where "create_maybe_casted_reader t k (field_type f) = Inr r"
      "\<And>dst. mcr_read r dst = Inr (dst @ contribution f t)"
    using mcr_widen [OF kg(1) kg(2) [unfolded col_named_def] kg(3)] kg(4) by metis
  then show ?case using Cons kg(2) by (simp add: merged_column_def)
qed (simp add: merged_column_def)

lemma read_unsorted_fit:
  assumes "fits m" and "i < num_columns m"
  shows "read_unsorted_column m i dst = Inr (dst @ merged_column (tm_chunks m) (schema_fields (tm_schema m) ! i))"
  using assms chunk_columns_fit [OF assms, of "tm_chunks m"] read_each_fit [OF assms(1), of "schema_fields (tm_schema m) ! i" "tm_chunks m" dst]
  by (simp add: read_unsorted_column_def chunk_columns_def at_def num_columns_def)

lemma merged_column_ok:
  assumes "fits m" and "f \<in> set (schema_fields (tm_schema m))"
  shows "length (merged_column (tm_chunks m) f) = sum_list (map st_num_rows (tm_chunks m))"
    "col_ok (field_type f) (merged_column (tm_chunks m) f)"
    "map (\<lambda>c. (erase (fst c), snd c)) (merged_column (tm_chunks m) f) =
       map (\<lambda>c. (erase (fst c), snd c)) (concat (map (source_cells (field_name f)) (tm_chunks m)))"
proof -
  note c = contribution_ok [OF assms(1) _ assms(2)]
  show "length (merged_column (tm_chunks m) f) = sum_list (map st_num_rows (tm_chunks m))"
    using c(1) by (simp add: merged_column_def length_concat comp_def cong: map_cong)
  show "col_ok (field_type f) (merged_column (tm_chunks m) f)"
    using c(2) by (auto simp: merged_column_def col_ok_def list_all_iff)
  show "map (\<lambda>c. (erase (fst c), snd c)) (merged_column (tm_chunks m) f) =
       map (\<lambda>c. (erase (fst c), snd c)) (concat (map (source_cells (field_name f)) (tm_chunks m)))"
    using c(3) by (simp add: merged_column_def map_concat comp_def cong: map_cong)
qed


section \<open>Patched schemas\<close>

lemma patch_set_field:
  assumes "set_field i f p = Inr p'"
  shows "i < length (patch_fields p)" "patch_fields p' = (patch_fields p)[i := f]" "patch_metadata p' = patch_metadata p"
  using assms
  by (auto simp: set_field_def patch_update_def new_schema_mut_def patch_fields_def patch_metadata_def Let_def ensure_def split: option.splits if_splits)

lemma strip_simps:
  "schema_fields (strip_unknown_metadata s) = schema_fields s"
  "map_of (schema_metadata (strip_unknown_metadata s)) SQD_SORT_KEY = map_of (schema_metadata s) SQD_SORT_KEY"
proof -
  have "map_of (filter (\<lambda>e. fst e = k) es) k = map_of es k" for k :: string and es :: "(string \<times> string) list"
    by (induction es) auto
  then show "schema_fields (strip_unknown_metadata s) = schema_fields s"
    "map_of (schema_metadata (strip_unknown_metadata s)) SQD_SORT_KEY = map_of (schema_metadata s) SQD_SORT_KEY"
    by (auto simp: strip_unknown_metadata_def Let_def patch_finish_def patch_update_def new_schema_mut_def patch_new_def)
qed

lemma patch_finish_simps:
  "schema_fields (patch_finish p) = patch_fields p" "schema_metadata (patch_finish p) = patch_metadata p"
  by (simp_all add: patch_finish_def patch_fields_def patch_metadata_def split: option.splits)

end
