(* ===== verification/Compaction.thy ===== *)
theory Compaction
  imports WriterInvariant TableMerge "HOL-Library.AList"
begin

text \<open>
  Dataset compaction (\<open>storage/src/db/ops/compaction.rs\<close>): the choice of neighbouring chunks to merge, and
  their replacement by one chunk in a transaction. Arguments of the model are the reader of stored
  tables \<open>T\<close>, the table builder \<open>build\<close> (page encoding and statistics), the slice sort \<open>S\<close> and the comparison
  \<open>full_size as f64 / max_size as f64 < write_amplification_limit\<close>. Row counts are natural numbers.
\<close>

section \<open>Configuration and results\<close>

definition MAX_CHUNK_SIZE :: nat where "MAX_CHUNK_SIZE = 200000"

definition MERGE_HORIZON :: nat where "MERGE_HORIZON = 500"

definition COMPACTION_LEN_LIMIT :: nat where "COMPACTION_LEN_LIMIT = 50"

text \<open>The default limit 1.9, as an exact comparison.\<close>

definition wa_below_default :: "nat \<Rightarrow> nat \<Rightarrow> bool" where
  "wa_below_default full_size max_size \<longleftrightarrow> 10 * full_size < 19 * max_size"

record merged_chunk =
  mc_first_block :: u64
  mc_last_block :: u64
  mc_size :: nat

datatype compaction_status = CompactionOk "merged_chunk list" | Canceled | NotingToCompact

record compaction =
  dc_dataset_id :: sid
  dc_max_chunk_size :: nat
  dc_wa_below :: "nat \<Rightarrow> nat \<Rightarrow> bool"
  dc_len_limit :: nat

section \<open>Ranges\<close>

definition max_size :: "nat list \<Rightarrow> nat" where
  "max_size sizes = fold max sizes 0"

definition score_merge :: "nat list \<Rightarrow> (nat \<Rightarrow> nat \<Rightarrow> bool) option \<Rightarrow> nat" where
  "score_merge sizes max_wa =
     (let m = max_size sizes; full_size = sum_list sizes in
      if m = 0 then 1
      else case max_wa of
        Some wa_below \<Rightarrow> if wa_below full_size m then 0 else full_size
      | None \<Rightarrow> full_size)"

definition sizes_between :: "nat list \<Rightarrow> nat \<Rightarrow> nat \<Rightarrow> nat list" where
  "sizes_between sizes left right = take (right - left) (drop left sizes)"

text \<open>The loop of \<open>find_range\<close>: a range, or the right end at which it gives up.\<close>

function grow_range ::
  "nat list \<Rightarrow> nat \<Rightarrow> nat \<Rightarrow> nat \<Rightarrow> nat \<Rightarrow> (nat \<Rightarrow> nat \<Rightarrow> bool) \<Rightarrow> (nat \<times> nat \<times> nat) + nat" where
  "grow_range sizes left right right_limit threshold wa =
     (let score = score_merge (sizes_between sizes left right) (Some wa) in
      if score \<ge> threshold then Inl (left, right, score)
      else if right < right_limit then grow_range sizes left (right + 1) right_limit threshold wa
      else if score > 0 then Inl (left, right, score)
      else Inr right)"
  by pat_completeness auto
termination
  by (relation "measure (\<lambda>(sizes, left, right, right_limit, threshold, wa). right_limit - right)") auto

declare grow_range.simps [simp del]

lemma grow_range_gives_up:
  "grow_range sizes left right right_limit threshold wa = Inr r \<Longrightarrow> right \<le> r \<and> r \<le> max right right_limit"
proof (induction sizes left right right_limit threshold wa rule: grow_range.induct)
  case (1 sizes left right right_limit threshold wa)
  then show ?case
    by (subst (asm) (2) grow_range.simps) (fastforce simp: Let_def split: if_splits)
qed

definition max_index :: "nat list \<Rightarrow> nat" where
  "max_index sizes = length (takeWhile (\<lambda>e. e \<noteq> max_size sizes) sizes)"

lemma fold_max: "fold max xs (m :: nat) = Max (insert m (set xs))"
  using Max.set_eq_fold [of m xs] by simp

lemma max_index_less: "sizes \<noteq> [] \<Longrightarrow> max_index sizes < length sizes"
proof -
  assume ne: "sizes \<noteq> []"
  have "max_size sizes \<in> set sizes"
  proof (cases "max_size sizes = 0")
    case True
    then have "\<forall>x\<in>set sizes. x = 0" by (simp add: max_size_def fold_max Max_eq_iff)
    then show ?thesis using True ne by (cases sizes) auto
  next
    case False
    then show ?thesis using Max_in [of "insert 0 (set sizes)"] by (simp add: max_size_def fold_max)
  qed
  then have "takeWhile (\<lambda>e. e \<noteq> max_size sizes) sizes \<noteq> sizes" by (auto simp: takeWhile_eq_all_conv)
  then show ?thesis
    unfolding max_index_def using takeWhile_dropWhile_id [of "\<lambda>e. e \<noteq> max_size sizes" sizes]
    by (metis append_Nil2 length_append length_greater_0_conv less_add_same_cancel1)
qed

lemma max_index_bound:
  assumes "grow_range sizes start (start + 1) right_limit threshold wa = Inr right" "right_limit \<le> stop" "start + 1 < stop"
    "sizes_between sizes start right \<noteq> []"
  shows "start + max_index (sizes_between sizes start right) < right" "right \<le> stop"
  using grow_range_gives_up [OF assms(1)] max_index_less [OF assms(4)] assms(2,3)
  by (auto simp: sizes_between_def)

text \<open>
  The segment is empty only for a range outside the list, where the source panics on the slice. The only caller passes
  the whole list and the recursion narrows the range, so no slice is ever clipped.
\<close>

function find_range ::
  "nat list \<Rightarrow> nat \<Rightarrow> nat \<Rightarrow> nat \<Rightarrow> (nat \<Rightarrow> nat \<Rightarrow> bool) \<Rightarrow> nat \<Rightarrow> (nat \<times> nat \<times> nat) option" where
  "find_range sizes start stop threshold wa len_limit =
     (if start + 1 \<ge> stop then None
      else
        case grow_range sizes start (start + 1) (min stop (start + len_limit)) threshold wa of
          Inl r \<Rightarrow> Some r
        | Inr right \<Rightarrow>
            let seg = sizes_between sizes start right;
                max_idx = max_index seg;
                max_el = max_size seg
            in if seg = [] then None
               else case find_range sizes start (start + max_idx) max_el wa len_limit of
                 Some r \<Rightarrow> Some r
               | None \<Rightarrow> find_range sizes (start + max_idx + 1) stop max_el wa len_limit)"
  by pat_completeness auto
termination
proof (relation "measure (\<lambda>(sizes, start, stop, threshold, wa, len_limit). stop - start)", goal_cases)
  case (2 sizes start stop threshold wa len_limit right seg max_idx max_el)
  then show ?case
    using max_index_bound [of sizes start "min stop (start + len_limit)" threshold wa right stop] by simp
qed simp_all

declare find_range.simps [simp del]

section \<open>The merge plan\<close>

record plan_state =
  ps_first_applicable :: u64
  ps_runs :: "nat list list"
  ps_schemas :: "(string \<times> schema) list"
  ps_first_block :: "u64 option"

definition ps_init :: plan_state where
  "ps_init = \<lparr>ps_first_applicable = - 1, ps_runs = [[]], ps_schemas = [], ps_first_block = None\<rparr>"

text \<open>The loop over the tables of one chunk: row maximum, compatibility and the schemas seen.\<close>

fun scan_tables ::
  "(table_id \<Rightarrow> db_err + source_table) \<Rightarrow> bool \<Rightarrow> tables \<Rightarrow> nat \<Rightarrow> bool \<Rightarrow> (string \<times> schema) list \<Rightarrow>
   db_err + nat \<times> bool \<times> (string \<times> schema) list" where
  "scan_tables T is_last_schema_empty [] max_rows schema_compatible schemas = Inr (max_rows, schema_compatible, schemas)"
| "scan_tables T is_last_schema_empty ((key, v) # tabs) max_rows schema_compatible schemas =
     rbind (T v) (\<lambda>reader.
     let this_schema = st_schema reader;
         schema_compatible = (case map_of schemas key of
             Some last_schema \<Rightarrow> schema_compatible \<and> can_merge_schemas this_schema last_schema
           | None \<Rightarrow> if \<not> is_last_schema_empty then False else schema_compatible)
     in scan_tables T is_last_schema_empty tabs (max (st_num_rows reader) max_rows) schema_compatible
          (AList.update key this_schema schemas))"

definition push_run :: "bool \<Rightarrow> nat \<Rightarrow> nat \<Rightarrow> nat list list \<Rightarrow> nat list list" where
  "push_run joins rows max_chunk_size runs =
     (let runs = (if joins \<and> rows < max_chunk_size
        then butlast runs @ [last runs @ [rows]] else runs @ [[rows]])
      in if max_chunk_size \<le> rows then runs @ [[]] else runs)"

definition scan_chunk ::
  "(table_id \<Rightarrow> db_err + source_table) \<Rightarrow> compaction \<Rightarrow> chunk \<Rightarrow> plan_state \<Rightarrow> db_err + plan_state" where
  "scan_chunk T d el s =
     (let is_last_schema_empty = (ps_schemas s = []);
          data_continuous = (case ps_first_block s of Some b \<Rightarrow> last_block el + 1 = b | None \<Rightarrow> True);
          reset = (\<not> is_last_schema_empty \<and> length (tables el) \<noteq> length (ps_schemas s))
      in rbind (scan_tables T is_last_schema_empty (tables el) 0 (\<not> reset) (if reset then [] else ps_schemas s))
           (\<lambda>(max_rows, schema_compatible, schemas).
         let max_rows = (if max_rows = 0 then unat (blocks_count el) else max_rows)
         in Inr \<lparr>ps_first_applicable = first_block el,
                 ps_runs = push_run (schema_compatible \<and> data_continuous) max_rows (dc_max_chunk_size d) (ps_runs s),
                 ps_schemas = schemas, ps_first_block = Some (first_block el)\<rparr>))"

fun scan_loop ::
  "(table_id \<Rightarrow> db_err + source_table) \<Rightarrow> compaction \<Rightarrow> nat \<Rightarrow> (db_err + chunk) list \<Rightarrow> plan_state \<Rightarrow> db_err + plan_state" where
  "scan_loop T d chunk_ctr [] s = Inr s"
| "scan_loop T d chunk_ctr (r # rs) s =
     rbind r (\<lambda>el.
     if chunk_ctr < MERGE_HORIZON then rbind (scan_chunk T d el s) (scan_loop T d (chunk_ctr + 1) rs) else Inr s)"

function merge_until :: "nat list \<Rightarrow> nat \<Rightarrow> nat \<Rightarrow> nat" where
  "merge_until run limit right =
     (if score_merge (sizes_between run 0 right) None < limit \<and> right < length run
      then merge_until run limit (right + 1) else right)"
  by pat_completeness auto
termination
  by (relation "measure (\<lambda>(run, limit, right). length run - right)") auto

declare merge_until.simps [simp del]

fun select_range :: "compaction \<Rightarrow> nat list list \<Rightarrow> nat \<Rightarrow> nat \<times> nat" where
  "select_range d [] skip_chunks = (skip_chunks, 0)"
| "select_range d (run # runs) skip_chunks =
     (if length run < 2 then select_range d runs (skip_chunks + length run)
      else if runs \<noteq> [] then (skip_chunks, merge_until run (dc_max_chunk_size d) 1)
      else case find_range run 0 (length run) (dc_max_chunk_size d) (dc_wa_below d) (dc_len_limit d) of
        Some (left, right, _) \<Rightarrow> (skip_chunks + left, right - left)
      | None \<Rightarrow> select_range d runs (skip_chunks + length run))"

definition prepare_merge_plan ::
  "('t, 'v) kv \<Rightarrow> (table_id \<Rightarrow> db_err + source_table) \<Rightarrow> compaction \<Rightarrow> 't \<Rightarrow> db_err + chunk list" where
  "prepare_merge_plan R T d snapshot =
     rbind (scan_loop T d 0 (list_chunks_rev R snapshot (dc_dataset_id d) 0 None) ps_init) (\<lambda>s.
     let (skip_chunks, take_chunks) = select_range d (rev (map rev (ps_runs s))) 0
     in collect_results (take take_chunks (drop skip_chunks (list_chunks R snapshot (dc_dataset_id d) (ps_first_applicable s) None))))"

section \<open>Merging tables\<close>

definition get_table_reader :: "(table_id \<Rightarrow> db_err + source_table) \<Rightarrow> chunk \<Rightarrow> string \<Rightarrow> db_err + source_table" where
  "get_table_reader T c name = rbind (ok_or (get_table c name) TableNotFound) T"

definition merge_table where
  "merge_table S T build merge name t =
     (case collect_results (map (\<lambda>c. get_table_reader T c name) merge) of
        Inl e \<Rightarrow> (Inl e, t)
      | Inr chunks \<Rightarrow>
          (case rbind (tm_prepare chunks) (\<lambda>m. rbind (tm_write S m (replicate (num_columns m) [])) (\<lambda>cols. Inr (m, cols))) of
             Inl e \<Rightarrow> (Inl e, t)
           | Inr (m, cols) \<Rightarrow> build m cols t))"

fun merge_all_tables where
  "merge_all_tables S T build merge [] tabs t = (Inr tabs, t)"
| "merge_all_tables S T build merge (name # names) tabs t =
     (case merge_table S T build merge name t of
        (Inl e, t) \<Rightarrow> (Inl e, t)
      | (Inr tid, t) \<Rightarrow> merge_all_tables S T build merge names (tabs @ [(name, tid)]) t)"

definition make_chunk :: "chunk list \<Rightarrow> tables \<Rightarrow> chunk" where
  "make_chunk merge tabs =
     V1 (first_block (hd merge)) (last_block (last merge)) (last_block_hash (last merge)) (parent_block_hash (hd merge))
       (first_block_time (hd merge)) (last_block_time (last merge)) tabs"

section \<open>The transaction\<close>

fun compare_chunks :: "(db_err + chunk) list \<Rightarrow> chunk list \<Rightarrow> nat \<Rightarrow> db_err + nat option" where
  "compare_chunks (r # rs) (m # ms) compared =
     rbind r (\<lambda>current. if current \<noteq> m then Inr None else compare_chunks rs ms (compared + 1))"
| "compare_chunks _ _ compared = Inr (Some compared)"

definition data_was_changed :: "('t, 'v) kv \<Rightarrow> sid \<Rightarrow> chunk list \<Rightarrow> 't \<Rightarrow> db_err + bool" where
  "data_was_changed R ds merge t =
     rbind (compare_chunks (list_chunks R t ds (first_block (hd merge)) (Some (last_block (last merge)))) merge 0) (\<lambda>r.
     Inr (case r of None \<Rightarrow> True | Some compared \<Rightarrow> compared \<noteq> length merge))"

definition delete_merged_chunks :: "('t, 'v) kv \<Rightarrow> sid \<Rightarrow> chunk list \<Rightarrow> 't \<Rightarrow> 't" where
  "delete_merged_chunks R ds merge t = fold (\<lambda>c t. delete_chunk R t ds c) merge t"

fun largest_table :: "(table_id \<Rightarrow> db_err + source_table) \<Rightarrow> chunk \<Rightarrow> string list \<Rightarrow> nat \<Rightarrow> db_err + nat" where
  "largest_table T c [] acc = Inr acc"
| "largest_table T c (name # names) acc =
     rbind (get_table_reader T c name) (\<lambda>r. largest_table T c names (max acc (st_num_rows r)))"

definition merged_chunk_info :: "(table_id \<Rightarrow> db_err + source_table) \<Rightarrow> chunk \<Rightarrow> db_err + merged_chunk" where
  "merged_chunk_info T c =
     rbind (largest_table T c (map fst (tables c)) 0) (\<lambda>size.
     Inr \<lparr>mc_first_block = first_block c, mc_last_block = last_block c, mc_size = size\<rparr>)"

definition compaction_tx ::
  "('t, 'v) kv \<Rightarrow> (table_id \<Rightarrow> db_err + source_table) \<Rightarrow> sid \<Rightarrow> chunk list \<Rightarrow> chunk \<Rightarrow> 't \<Rightarrow> db_err + compaction_status \<times> 't" where
  "compaction_tx R T ds merge c t =
     rbind (find_label_for_update R t ds) (\<lambda>label.
     case label of
       None \<Rightarrow> Inr (Canceled, t)
     | Some label \<Rightarrow>
         rbind (data_was_changed R ds merge t) (\<lambda>changed.
         if changed then Inr (Canceled, t)
         else
           let t = write_chunk R (delete_merged_chunks R ds merge t) ds c;
               t = write_label R t ds (bump_version label)
           in rbind (collect_results (map (merged_chunk_info T) merge)) (\<lambda>merged.
              Inr (CompactionOk merged, t))))"

definition abandon_new_chunk_tables where
  "abandon_new_chunk_tables R p env c db =
     tx_run p env (\<lambda>t. Inr ((), fold (\<lambda>tid t. delete_table R t tid) (map snd (tables c)) t)) db"

definition execute_compaction where
  "execute_compaction R S T build p E d db =
     (case prepare_merge_plan R T d db of
        Inl e \<Rightarrow> (Inl e, db)
      | Inr merge \<Rightarrow>
          if length merge < 2 then (Inr NotingToCompact, db)
          else
            case merge_all_tables S T build merge (map fst (tables (hd merge))) [] db of
              (Inl e, db) \<Rightarrow> (Inl e, db)
            | (Inr tabs, db) \<Rightarrow>
                let c = make_chunk merge tabs in
                case tx_run p (E 0) (compaction_tx R T (dc_dataset_id d) merge c) db of
                  (Inr (CompactionOk merged), db) \<Rightarrow> (Inr (CompactionOk merged), db)
                | (result, db) \<Rightarrow>
                    (case abandon_new_chunk_tables R p (E (1 :: nat)) c db of
                       (Inl abandon_err, db) \<Rightarrow> (case result of Inr _ \<Rightarrow> Inl abandon_err | Inl e \<Rightarrow> Inl e, db)
                     | (Inr _, db) \<Rightarrow> (result, db)))"

definition perform_dataset_compaction where
  "perform_dataset_compaction R S T build p E ds max_chunk_size wa_below compaction_len_limit db =
     execute_compaction R S T build p E
       \<lparr>dc_dataset_id = ds,
        dc_max_chunk_size = (case max_chunk_size of Some n \<Rightarrow> n | None \<Rightarrow> MAX_CHUNK_SIZE),
        dc_wa_below = (case wa_below of Some w \<Rightarrow> w | None \<Rightarrow> wa_below_default),
        dc_len_limit = (case compaction_len_limit of Some n \<Rightarrow> n | None \<Rightarrow> COMPACTION_LEN_LIMIT)\<rparr> db"

end
