(* ===== verification/MergeContents.thy ===== *)
theory MergeContents
  imports TableMerge Tables
begin

text \<open>
  What a merge that succeeds has written, whatever the schemas: every column holds the cells of its
  chunks in order, up to the width of integers. For the blocks tables this gives the rows of the
  merged table as the rows of the chunks, one after the other.
\<close>

section \<open>Casts that succeed\<close>

abbreviation erased :: "col \<Rightarrow> col" where
  "erased cs \<equiv> map (\<lambda>c. (erase (fst c), snd c)) cs"

lemma uint_ucast_down:
  assumes "x < 2 ^ LENGTH('b)" and "LENGTH('b) < LENGTH('a)"
  shows "uint (ucast (x :: 'a::len word) :: 'b::len word) = uint x"
proof -
  have "uint x < 2 ^ LENGTH('b)"
    using assms word_2p_lem [of "LENGTH('b)" x] by (simp add: word_size)
  then show ?thesis by (simp add: unsigned_ucast_eq take_bit_int_eq_self)
qed

lemma uint_ucast_up: "LENGTH('a) \<le> LENGTH('b) \<Longrightarrow> uint (ucast (x :: 'a::len word) :: 'b::len word) = uint x"
proof -
  assume le: "LENGTH('a) \<le> LENGTH('b)"
  have "uint x < 2 ^ LENGTH('b)" using uint_lt2p [of x] le by (meson less_le_trans one_le_numeral power_increasing)
  then show ?thesis by (simp add: unsigned_ucast_eq take_bit_int_eq_self)
qed

lemma try_from_cell_erase:
  assumes "try_from_cell t v = Some v'"
  shows "erase v' = erase v \<and> cell_ok t v'"
  using assms uint_ucast_down [where 'a = 32 and 'b = 16] uint_ucast_down [where 'a = 64 and 'b = 32]
    uint_ucast_down [where 'a = 64 and 'b = 16] uint_ucast_up [where 'a = 16 and 'b = 32] uint_ucast_up [where 'a = 32 and 'b = 64]
  by (induction t v rule: try_from_cell.induct) (auto split: if_splits)

lemma cast_primitive_erase:
  "cast_primitive t cs = Inr cs' \<Longrightarrow> erased cs' = erased cs \<and> col_ok t cs'"
proof (induction t cs arbitrary: cs' rule: cast_primitive.induct)
  case (2 t v valid cs)
  then obtain v' r where "try_from_cell t v = Some v'" "cast_primitive t cs = Inr r" "cs' = (v', valid) # r" by auto
  then show ?case using 2(1) [of v' r] try_from_cell_erase by (auto simp: col_ok_def)
qed (simp add: col_ok_def)

lemma cast_address_erase:
  "cast_address_impl t cs = Inr cs' \<Longrightarrow> erased cs' = erased cs \<and> col_ok (DList (Field n t u)) cs'"
proof (induction t cs arbitrary: cs' rule: cast_address_impl.induct)
  case (2 t items valid cs)
  then obtain i r where i: "cast_primitive t items = Inr i" "cast_address_impl t cs = Inr r" "cs' = (CList i, valid) # r" by auto
  then show ?case using 2(1) [of i r] cast_primitive_erase [OF i(1)] by (simp add: col_ok_def)
qed (simp_all add: col_ok_def)

lemma cast_item_index_erase:
  assumes "cast_item_index s cs t = Inr cs'"
  shows "erased cs' = erased cs \<and> col_ok t cs'"
proof (cases s)
  case (DList f)
  then have "cast_address (field_type f) t cs = Inr cs'" using assms by (simp add: cast_item_index_def)
  then obtain n ty u where "t = DList (Field n ty u)" "cast_address_impl ty cs = Inr cs'"
    by (auto simp: cast_address_def split: data_type.splits if_splits) (metis field.exhaust_sel)+
  then show ?thesis using cast_address_erase by blast
qed (use assms cast_primitive_erase in \<open>auto simp: cast_item_index_def split: data_type.splits\<close>)

lemma icr_read_slice_erase:
  assumes "icr_read_slice r off len dst = Inr out" and "off + len \<le> length (icr_src r)"
  shows "\<exists>cs. out = dst @ cs \<and> erased cs = erased (take len (drop off (icr_src r))) \<and> col_ok (icr_target_type r) cs"
  using assms
proof (induction len arbitrary: off dst rule: less_induct)
  case (less len)
  show ?case
  proof (cases "len = 0")
    case True
    then show ?thesis using less.prems by (subst (asm) icr_read_slice.simps) (simp add: col_ok_def)
  next
    case False
    define step where "step = min len 1000"
    have step: "0 < step" "step \<le> len" using False by (simp_all add: step_def)
    let ?buf = "take step (drop off (icr_src r))"
    obtain cs where cs: "cast_item_index (icr_src_type r) ?buf (icr_target_type r) = Inr cs"
      "icr_read_slice r (off + step) (len - step) (dst @ cs) = Inr out"
      using less.prems(1) False
      by (subst (asm) icr_read_slice.simps) (auto simp: Let_def step_def [symmetric] col_slice_def split: if_splits)
    obtain cs' where cs': "out = (dst @ cs) @ cs'" "erased cs' = erased (take (len - step) (drop (off + step) (icr_src r)))"
      "col_ok (icr_target_type r) cs'"
      using less.IH [of "len - step" "off + step" "dst @ cs"] cs(2) step less.prems(2) by auto
    have "take len (drop off (icr_src r)) = ?buf @ take (len - step) (drop (off + step) (icr_src r))"
      using take_add [of step "len - step" "drop off (icr_src r)"] step by (simp add: add.commute)
    then show ?thesis
      using cs' cast_item_index_erase [OF cs(1)] by (intro exI [of _ "cs @ cs'"]) (simp add: col_ok_def)
  qed
qed

lemma casted_read_erase:
  assumes "create_maybe_casted_reader t ci ty = Inr r" and "mcr_read r dst = Inr out"
    and "col_ok (field_type (schema_fields (st_schema t) ! ci)) (st_columns t ! ci)"
  shows "\<exists>cs. out = dst @ cs \<and> erased cs = erased (st_columns t ! ci) \<and> col_ok ty cs"
proof (cases "data_types_equal (field_type (schema_fields (st_schema t) ! ci)) ty")
  case True
  then have "out = dst @ st_columns t ! ci"
    using assms(1,2) by (auto simp: create_maybe_casted_reader_def at_def split: if_splits)
  moreover have "col_ok ty (st_columns t ! ci)"
    using assms(3) data_types_equal_cell [OF True] by (auto simp: col_ok_def list_all_iff)
  ultimately show ?thesis by blast
next
  case False
  then obtain s where r: "r = Cast \<lparr>icr_src = st_columns t ! ci, icr_src_type = s, icr_target_type = ty\<rparr>"
    using assms(1) by (auto simp: create_maybe_casted_reader_def at_def split: if_splits)
  then show ?thesis
    using icr_read_slice_erase [of "\<lparr>icr_src = st_columns t ! ci, icr_src_type = s, icr_target_type = ty\<rparr>" 0 "length (st_columns t ! ci)" dst out]
      assms(2) by (simp add: icr_read_def)
qed

section \<open>Columns that were read\<close>

lemma find_index_distinct:
  assumes "distinct (map field_name fs)" "i < length fs"
  shows "find_index (\<lambda>f. field_name f = field_name (fs ! i)) fs = Some (i, fs ! i)"
  using assms
proof (induction fs arbitrary: i)
  case (Cons f fs)
  show ?case
  proof (cases i)
    case (Suc j)
    then have "field_name (fs ! j) \<in> field_name ` set fs" "field_name f \<notin> field_name ` set fs" using Cons.prems by simp_all
    then have "field_name f \<noteq> field_name (fs ! j)" by metis
    then show ?thesis using Suc Cons by simp
  qed simp
qed simp

lemma chunk_columns_named:
  assumes "chunk_columns_of n i ts = Inr is" and "\<forall>t\<in>set ts. source_ok t"
  shows "list_all2 (\<lambda>t ci. \<exists>g. col_named t n = Some (ci, g)) ts is"
  using assms
proof (induction ts arbitrary: "is")
  case (Cons t ts)
  then obtain ci is' where ci: "i < length (schema_fields (st_schema t))" "is = ci # is'" "chunk_columns_of n i ts = Inr is'"
    "(if field_name (schema_fields (st_schema t) ! i) = n then Inr i else index_of_name (st_schema t) n) = Inr ci"
    by (auto simp: at_def split: if_splits)
  have "\<exists>g. col_named t n = Some (ci, g)"
  proof (cases "field_name (schema_fields (st_schema t) ! i) = n")
    case True
    then show ?thesis
      using ci(1,4) find_index_distinct [of "schema_fields (st_schema t)" i] Cons.prems(2)
      by (simp add: col_named_def source_ok_def)
  next
    case False
    then show ?thesis using ci(4) by (auto simp: index_of_name_def col_named_def)
  qed
  then show ?case using Cons ci by simp
qed simp

lemma read_each_erase:
  assumes "list_all2 (\<lambda>t ci. \<exists>g. col_named t n = Some (ci, g)) ts is" and "\<forall>t\<in>set ts. source_ok t"
    and "read_each ty (zip ts is) dst = Inr out"
  shows "\<exists>cs. out = dst @ cs \<and> erased cs = erased (concat (map (source_cells n) ts)) \<and> col_ok ty cs"
  using assms
proof (induction ts "is" arbitrary: dst rule: list_all2_induct)
  case Nil
  then show ?case by (simp add: col_ok_def)
next
  case (Cons t ts ci "is")
  obtain g where g: "col_named t n = Some (ci, g)" using Cons.hyps(1) by blast
  have k: "ci < length (schema_fields (st_schema t))" "schema_fields (st_schema t) ! ci = g"
    using find_index_find [OF g [unfolded col_named_def]] by simp_all
  have ok: "col_ok (field_type (schema_fields (st_schema t) ! ci)) (st_columns t ! ci)"
    using source_col(3) k(1) Cons.prems(1) by simp
  obtain r d where r: "create_maybe_casted_reader t ci ty = Inr r" "mcr_read r dst = Inr d" "read_each ty (zip ts is) d = Inr out"
    using Cons.prems(2) by auto
  obtain cs1 where cs1: "d = dst @ cs1" "erased cs1 = erased (st_columns t ! ci)" "col_ok ty cs1"
    using casted_read_erase [OF r(1,2) ok] by blast
  obtain cs2 where "out = d @ cs2" "erased cs2 = erased (concat (map (source_cells n) ts))" "col_ok ty cs2"
    using Cons.IH [of d] Cons.prems(1) r(3) by auto
  moreover have "source_cells n t = st_columns t ! ci" using g by (simp add: source_cells_def)
  ultimately show ?case using cs1 by (intro exI [of _ "cs1 @ cs2"]) (simp add: col_ok_def)
qed

lemma read_unsorted_erase:
  assumes "read_unsorted_column m i dst = Inr out" and "\<forall>t\<in>set (tm_chunks m). source_ok t"
  shows "i < num_columns m" "\<exists>cs. out = dst @ cs \<and> col_ok (field_type (schema_fields (tm_schema m) ! i)) cs \<and>
    erased cs = erased (concat (map (source_cells (field_name (schema_fields (tm_schema m) ! i))) (tm_chunks m)))"
proof -
  let ?f = "schema_fields (tm_schema m) ! i"
  obtain "is" where "is": "i < num_columns m" "chunk_columns_of (field_name ?f) i (tm_chunks m) = Inr is"
    "read_each (field_type ?f) (zip (tm_chunks m) is) dst = Inr out"
    using assms(1) by (auto simp: read_unsorted_column_def chunk_columns_def at_def num_columns_def split: if_splits)
  show "i < num_columns m" by (rule "is"(1))
  show "\<exists>cs. out = dst @ cs \<and> col_ok (field_type ?f) cs \<and> erased cs = erased (concat (map (source_cells (field_name ?f)) (tm_chunks m)))"
    using read_each_erase [OF chunk_columns_named [OF "is"(2) assms(2)] assms(2) "is"(3)] by blast
qed

lemma write_columns_result:
  assumes "write_columns g is dst = Inr out" "distinct is"
  shows "length out = length dst \<and> (\<forall>j < length dst. if j \<in> set is then g j (dst ! j) = Inr (out ! j) else out ! j = dst ! j)"
  using assms
proof (induction "is" arbitrary: dst)
  case (Cons i "is")
  then obtain c where c: "i < length dst" "g i (dst ! i) = Inr c" "write_columns g is (dst[i := c]) = Inr out"
    by (auto simp: at_def split: if_splits)
  show ?case using Cons.IH [OF c(3)] Cons.prems(2) c by (auto simp: nth_list_update split: if_splits)
qed simp

lemma unsorted_write_erase:
  assumes "tm_write S m (replicate (num_columns m) []) = Inr dst" "tm_sort_key m = []" "\<forall>t\<in>set (tm_chunks m). source_ok t"
  shows "length dst = num_columns m" "\<And>i. i < num_columns m \<Longrightarrow> col_ok (field_type (schema_fields (tm_schema m) ! i)) (dst ! i) \<and>
    erased (dst ! i) = erased (concat (map (source_cells (field_name (schema_fields (tm_schema m) ! i))) (tm_chunks m)))"
proof -
  have w: "write_columns (read_unsorted_column m) [0..<num_columns m] (replicate (num_columns m) []) = Inr dst"
    using assms(1,2) by (simp add: tm_write_def unsorted_write_def)
  show "length dst = num_columns m" using write_columns_result [OF w] by simp
  fix i
  assume i: "i < num_columns m"
  then have "read_unsorted_column m i [] = Inr (dst ! i)" using write_columns_result [OF w] by simp
  then show "col_ok (field_type (schema_fields (tm_schema m) ! i)) (dst ! i) \<and>
      erased (dst ! i) = erased (concat (map (source_cells (field_name (schema_fields (tm_schema m) ! i))) (tm_chunks m)))"
    using read_unsorted_erase(2) [OF _ assms(3), of i "[]" "dst ! i"] by simp
qed


section \<open>Types that the schema merge keeps\<close>

definition keeps_type :: "data_type \<Rightarrow> data_type \<Rightarrow> bool" where
  "keeps_type a b \<longleftrightarrow> (\<forall>n. a = DOther n \<longrightarrow> b = a) \<and> (a = DUInt32 \<or> a = DUInt64 \<longrightarrow> b = DUInt32 \<or> b = DUInt64)"

lemma keeps_type_refl [simp]: "keeps_type a a"
  by (simp add: keeps_type_def)

lemma keeps_type_trans: "keeps_type a b \<Longrightarrow> keeps_type b c \<Longrightarrow> keeps_type a c"
  by (auto simp: keeps_type_def)

lemma common_keeps: "common_item_index_type a b = Some t \<Longrightarrow> keeps_type a t"
  by (cases a; cases b) (auto simp: keeps_type_def common_item_index_type_def common_index_def)

definition keeps_fields :: "field list \<Rightarrow> field list \<Rightarrow> bool" where
  "keeps_fields fs gs \<longleftrightarrow> list_all2 (\<lambda>f g. field_name g = field_name f \<and> keeps_type (field_type f) (field_type g)) fs gs"

lemma keeps_fields_refl [simp]: "keeps_fields fs fs"
  by (simp add: keeps_fields_def list_all2_conv_all_nth)

lemma keeps_fields_trans: "keeps_fields a b \<Longrightarrow> keeps_fields b c \<Longrightarrow> keeps_fields a c"
  unfolding keeps_fields_def by (simp add: list_all2_conv_all_nth, metis keeps_type_trans)

lemma merge_field_list_keeps:
  "merge_field_list gs p = Inr p' \<Longrightarrow> keeps_fields (patch_fields p) (patch_fields p') \<and> patch_metadata p' = patch_metadata p"
proof (induction gs arbitrary: p)
  case (Cons g gs)
  obtain bi bf where b: "find_by_name p (field_name g) = Some (bi, bf)"
    using Cons.prems by (cases "find_by_name p (field_name g)") auto
  have bi: "patch_fields p ! bi = bf" using find_index_find [OF b [unfolded find_by_name_def]] by simp
  show ?case
  proof (cases "bf = g")
    case False
    obtain nf p1 where nf: "merge_fields bf g = Inr (Some nf)" "set_field bi nf p = Inr p1" "merge_field_list gs p1 = Inr p'"
      using Cons.prems b False by (auto simp: ok_or_def split: option.splits)
    have "field_name nf = field_name bf \<and> keeps_type (field_type bf) (field_type nf)"
      using nf(1) common_keeps by (auto simp: merge_fields_def split: if_splits)
    then have "keeps_fields (patch_fields p) (patch_fields p1)"
      using patch_set_field [OF nf(2)] bi by (auto simp: keeps_fields_def list_all2_conv_all_nth nth_list_update)
    then show ?thesis using Cons.IH [OF nf(3)] patch_set_field(3) [OF nf(2)] keeps_fields_trans by auto
  qed (use Cons b in auto)
qed simp

lemma merge_schemas_keeps:
  "merge_schemas ts p = Inr p' \<Longrightarrow> keeps_fields (patch_fields p) (patch_fields p') \<and> patch_metadata p' = patch_metadata p"
proof (induction ts arbitrary: p)
  case (Cons t ts)
  then obtain p1 where p1: "merge_schema p (st_schema t) = Inr p1" "merge_schemas ts p1 = Inr p'" by auto
  have "keeps_fields (patch_fields p) (patch_fields p1) \<and> patch_metadata p1 = patch_metadata p"
    using p1(1) merge_field_list_keeps by (auto simp: merge_schema_def split: if_splits)
  then show ?case using Cons.IH [OF p1(2)] keeps_fields_trans by auto
qed simp

lemma prepare_keeps:
  assumes "tm_prepare ts = Inr m"
  shows "ts \<noteq> []" "tm_chunks m = ts" "keeps_fields (schema_fields (st_schema (last ts))) (schema_fields (tm_schema m))"
    "get_sort_key (st_schema (last ts)) = Inr (tm_sort_key m)"
proof -
  let ?p = "patch_new (strip_unknown_metadata (st_schema (last ts)))"
  obtain p' where p': "merge_schemas (tl (rev ts)) ?p = Inr p'" "tm_schema m = patch_finish p'"
      "get_sort_key (patch_finish p') = Inr (tm_sort_key m)" "ts \<noteq> []" "tm_chunks m = ts"
    using assms by (auto simp: tm_prepare_def Let_def)
  note k = merge_schemas_keeps [OF p'(1)]
  show "ts \<noteq> []" "tm_chunks m = ts" by (rule p')+
  show keep: "keeps_fields (schema_fields (st_schema (last ts))) (schema_fields (tm_schema m))"
    using k by (simp add: p'(2) patch_finish_simps strip_simps)
  have len: "length (schema_fields (tm_schema m)) = length (schema_fields (st_schema (last ts)))"
    using list_all2_lengthD [OF keep [unfolded keeps_fields_def]] by simp
  have "map_of (schema_metadata (tm_schema m)) SQD_SORT_KEY = map_of (schema_metadata (st_schema (last ts))) SQD_SORT_KEY"
    using k by (simp add: p'(2) patch_finish_simps strip_simps)
  then show "get_sort_key (st_schema (last ts)) = Inr (tm_sort_key m)"
    using p'(3) unfolding get_sort_key_def p'(2) [symmetric] len by simp
qed


section \<open>Blocks tables\<close>

text \<open>The decoded form of a table that the block readers see.\<close>

definition to_array :: "data_type \<Rightarrow> col \<Rightarrow> array" where
  "to_array ty cs =
     (case ty of
        DUInt16 \<Rightarrow> UInt16 (map (\<lambda>c. (case fst c of CU16 x \<Rightarrow> x | _ \<Rightarrow> 0, snd c)) cs)
      | DUInt32 \<Rightarrow> UInt32 (map (\<lambda>c. (case fst c of CU32 x \<Rightarrow> x | _ \<Rightarrow> 0, snd c)) cs)
      | DUInt64 \<Rightarrow> UInt64 (map (\<lambda>c. (case fst c of CU64 x \<Rightarrow> x | _ \<Rightarrow> 0, snd c)) cs)
      | DOther n \<Rightarrow>
          if n = ''Utf8'' then Utf8 (map (\<lambda>c. (case fst c of CBytes b \<Rightarrow> b | _ \<Rightarrow> [], snd c)) cs) else OtherArray (length cs)
      | DList _ \<Rightarrow> OtherArray (length cs))"

definition to_table :: "source_table \<Rightarrow> table" where
  "to_table t =
     \<lparr>num_rows = st_num_rows t,
      columns = map2 (\<lambda>f c. (field_name f, to_array (field_type f) c)) (schema_fields (st_schema t)) (st_columns t)\<rparr>"

lemma array_len_to_array [simp]: "array_len (to_array ty cs) = length cs"
  by (simp add: to_array_def split: data_type.splits)

lemma to_table_ok: "source_ok t \<Longrightarrow> table_ok (to_table t)"
  by (auto simp: table_ok_def to_table_def source_ok_def list_all_iff list_all2_conv_all_nth set_zip)

lemma map_of_columns:
  "length fs = length cs \<Longrightarrow>
    map_of (map2 (\<lambda>f c. (field_name f, to_array (field_type f) c)) fs cs) n =
    map_option (\<lambda>(k, g). to_array (field_type g) (cs ! k)) (find_index (\<lambda>f. field_name f = n) fs)"
proof (induction fs cs rule: list_induct2)
  case (Cons f fs c cs)
  then show ?case by (auto simp: map_option_case split: option.splits)
qed simp

lemma column_named:
  assumes "source_ok t"
  shows "map_of (columns (to_table t)) n = map_option (\<lambda>(k, g). to_array (field_type g) (st_columns t ! k)) (col_named t n)"
  unfolding to_table_def col_named_def
  using map_of_columns [of "schema_fields (st_schema t)" "st_columns t" n] assms list_all2_lengthD by (auto simp: source_ok_def)

text \<open>Block numbers and strings do not depend on the width of the column.\<close>

definition number_of :: "cell \<Rightarrow> u64" where
  "number_of c = (case c of CInt i \<Rightarrow> word_of_int i | _ \<Rightarrow> 0)"

definition string_of :: "cell \<Rightarrow> bytes" where
  "string_of c = (case c of CBytes b \<Rightarrow> b | _ \<Rightarrow> [])"

lemma cell_cases:
  "cell_ok DUInt32 c \<Longrightarrow> \<exists>x. c = CU32 x" "cell_ok DUInt64 c \<Longrightarrow> \<exists>y. c = CU64 y"
  by (cases c; simp)+

lemma block_numbers_erased:
  assumes "ty = DUInt32 \<or> ty = DUInt64" "col_ok ty cs"
  shows "block_numbers (to_array ty cs) = map (\<lambda>c. number_of (fst c)) (erased cs)"
  using assms(2)
proof (induction cs)
  case (Cons c cs)
  have "block_numbers (to_array ty [c]) = [number_of (erase (fst c))]"
    using assms(1) Cons.prems cell_cases [of "fst c"] by (auto simp: to_array_def number_of_def col_ok_def)
  moreover have "block_numbers (to_array ty (c # cs)) = block_numbers (to_array ty [c]) @ block_numbers (to_array ty cs)"
    using assms(1) by (auto simp: to_array_def)
  ultimately show ?case using Cons by (simp add: col_ok_def)
qed (use assms(1) in \<open>auto simp: to_array_def\<close>)

lemma strings_erased: "strings (to_array (DOther ''Utf8'') cs) = map (\<lambda>c. string_of (fst c)) (erased cs)"
proof (induction cs)
  case (Cons c cs)
  then show ?case by (cases "fst c") (simp_all add: to_array_def string_of_def)
qed (simp add: to_array_def)

lemma null_count_erased:
  assumes "ty \<in> {DUInt32, DUInt64, DOther ''Utf8''}"
  shows "null_count (to_array ty cs) = 0 \<longleftrightarrow> (\<forall>c\<in>set (erased cs). snd c)"
  using assms by (elim insertE emptyE) (simp_all add: to_array_def filter_empty_conv)

text \<open>A blocks table: its number and hash columns, readable and without nulls.\<close>

definition blocks_columns :: "source_table \<Rightarrow> bool" where
  "blocks_columns t \<longleftrightarrow>
     (\<exists>i f j g. col_named t ''number'' = Some (i, f) \<and> col_named t ''hash'' = Some (j, g) \<and>
        (field_type f = DUInt32 \<or> field_type f = DUInt64) \<and> field_type g = DOther ''Utf8'' \<and>
        (\<forall>c\<in>set (st_columns t ! i). snd c) \<and> (\<forall>c\<in>set (st_columns t ! j). snd c))"

definition erased_rows :: "col \<Rightarrow> col \<Rightarrow> (u64 \<times> bytes) list" where
  "erased_rows ns hs = zip (map (\<lambda>c. number_of (fst c)) (erased ns)) (map (\<lambda>c. string_of (fst c)) (erased hs))"

lemma number_array: "ensure_number_type n (to_array ty cs) = Inr () \<longleftrightarrow> ty = DUInt32 \<or> ty = DUInt64"
  by (cases ty) (simp_all add: ensure_number_type_def to_array_def)

lemma utf8_array: "ensure_utf8_type n (to_array ty cs) = Inr () \<longleftrightarrow> ty = DOther ''Utf8''"
  by (cases ty) (simp_all add: ensure_utf8_type_def to_array_def)

lemma block_rows_columns:
  assumes "source_ok t"
  shows "block_rows (to_table t) =
    (if blocks_columns t then Some (erased_rows (source_cells ''number'' t) (source_cells ''hash'' t)) else None)"
proof (cases "\<exists>i f j g. col_named t ''number'' = Some (i, f) \<and> col_named t ''hash'' = Some (j, g)")
  case True
  then obtain i f j g where c: "col_named t ''number'' = Some (i, f)" "col_named t ''hash'' = Some (j, g)" by blast
  have ok: "col_ok (field_type f) (st_columns t ! i)" "col_ok (field_type g) (st_columns t ! j)"
    using source_col(3) [OF assms] find_index_find [OF c(1) [unfolded col_named_def]] find_index_find [OF c(2) [unfolded col_named_def]]
    by auto
  show ?thesis
  proof (cases "(field_type f = DUInt32 \<or> field_type f = DUInt64) \<and> field_type g = DOther ''Utf8''")
    case True
    then have "block_numbers (to_array (field_type f) (st_columns t ! i)) = map (\<lambda>c. number_of (fst c)) (erased (st_columns t ! i))"
      "strings (to_array (field_type g) (st_columns t ! j)) = map (\<lambda>c. string_of (fst c)) (erased (st_columns t ! j))"
      "null_count (to_array (field_type f) (st_columns t ! i)) = 0 \<longleftrightarrow> (\<forall>c\<in>set (st_columns t ! i). snd c)"
      "null_count (to_array (field_type g) (st_columns t ! j)) = 0 \<longleftrightarrow> (\<forall>c\<in>set (st_columns t ! j). snd c)"
      using block_numbers_erased [OF _ ok(1)] strings_erased [of "st_columns t ! j"]
        null_count_erased [of "field_type f" "st_columns t ! i"] null_count_erased [of "field_type g" "st_columns t ! j"] by auto
    then show ?thesis
      using True c by (simp add: block_rows_def column_named [OF assms] blocks_columns_def source_cells_def erased_rows_def number_array utf8_array)
  next
    case False
    then show ?thesis
      using c by (auto simp: block_rows_def column_named [OF assms] blocks_columns_def number_array utf8_array)
  qed
next
  case False
  then show ?thesis
    by (auto simp: block_rows_def column_named [OF assms] blocks_columns_def split: option.splits)
qed


lemma find_index_sat: "find_index P xs = Some (i, x) \<Longrightarrow> P x"
  by (induction xs arbitrary: i) (auto split: if_splits)

lemma find_index_keeps:
  assumes "keeps_fields fs gs" and "find_index (\<lambda>f. field_name f = n) fs = Some (i, f)"
  shows "\<exists>g. find_index (\<lambda>f. field_name f = n) gs = Some (i, g) \<and> keeps_type (field_type f) (field_type g) \<and> i < length gs \<and> gs ! i = g"
  using assms unfolding keeps_fields_def
proof (induction fs gs arbitrary: i rule: list_all2_induct)
  case (Cons f' fs g' gs)
  then show ?case by (auto split: if_splits)
qed simp

lemma erased_rows_append:
  "length ns = length hs \<Longrightarrow> erased_rows (ns @ ns') (hs @ hs') = erased_rows ns hs @ erased_rows ns' hs'"
  by (simp add: erased_rows_def)

lemma erased_rows_concat:
  assumes "\<forall>t\<in>set ts. length (f t) = length (g t)"
  shows "erased_rows (concat (map f ts)) (concat (map g ts)) = concat (map (\<lambda>t. erased_rows (f t) (g t)) ts)"
  using assms
proof (induction ts)
  case (Cons t ts)
  then show ?case by (simp add: erased_rows_append)
qed (simp add: erased_rows_def)

lemma erased_rows_cong: "erased ns = erased ns' \<Longrightarrow> erased hs = erased hs' \<Longrightarrow> erased_rows ns hs = erased_rows ns' hs'"
  by (simp add: erased_rows_def)

lemma blocks_columnsE:
  assumes "source_ok t" and "blocks_columns t"
  obtains i f j g where "col_named t ''number'' = Some (i, f)" "col_named t ''hash'' = Some (j, g)"
    "field_type f = DUInt32 \<or> field_type f = DUInt64" "field_type g = DOther ''Utf8''"
    "\<forall>c\<in>set (source_cells ''number'' t). snd c" "\<forall>c\<in>set (source_cells ''hash'' t). snd c"
    "length (source_cells ''number'' t) = st_num_rows t" "length (source_cells ''hash'' t) = st_num_rows t"
proof -
  obtain i f j g where c: "col_named t ''number'' = Some (i, f)" "col_named t ''hash'' = Some (j, g)"
    "field_type f = DUInt32 \<or> field_type f = DUInt64" "field_type g = DOther ''Utf8''"
    "\<forall>c\<in>set (st_columns t ! i). snd c" "\<forall>c\<in>set (st_columns t ! j). snd c"
    using assms(2) unfolding blocks_columns_def by metis
  have "length (st_columns t ! i) = st_num_rows t" "length (st_columns t ! j) = st_num_rows t"
    using source_col(2) [OF assms(1)] find_index_find [OF c(1) [unfolded col_named_def]] find_index_find [OF c(2) [unfolded col_named_def]]
    by auto
  then show thesis using that [OF c(1-4)] c by (simp add: source_cells_def)
qed

text \<open>The merged blocks table has the rows of the chunks' blocks tables, in order.\<close>

lemma merged_blocks_rows:
  assumes prep: "tm_prepare ts = Inr m" and wr: "tm_write S m (replicate (num_columns m) []) = Inr dst"
    and src: "\<forall>t\<in>set ts. source_ok t \<and> blocks_columns t" and key: "get_sort_key (st_schema (last ts)) = Inr []"
    and st: "source_ok st" "st_schema st = tm_schema m" "st_columns st = dst"
  shows "block_rows (to_table st) = Some (concat (map (\<lambda>t. erased_rows (source_cells ''number'' t) (source_cells ''hash'' t)) ts))"
proof -
  note p = prepare_keeps [OF prep]
  have k: "tm_sort_key m = []" using p(4) key by simp
  have ok: "\<forall>t\<in>set (tm_chunks m). source_ok t" using src p(2) by simp
  note w = unsorted_write_erase [OF wr k ok]
  have l: "last ts \<in> set ts" using p(1) by simp
  obtain i f j g where c: "col_named (last ts) ''number'' = Some (i, f)" "col_named (last ts) ''hash'' = Some (j, g)"
    "field_type f = DUInt32 \<or> field_type f = DUInt64" "field_type g = DOther ''Utf8''"
    by (rule blocks_columnsE [of "last ts"]) (use src l in blast)+
  obtain f' where f': "col_named st ''number'' = Some (i, f')" "field_type f' = DUInt32 \<or> field_type f' = DUInt64"
      "i < num_columns m" "schema_fields (tm_schema m) ! i = f'"
    using find_index_keeps [OF p(3) c(1) [unfolded col_named_def]] c(3) st(2) by (auto simp: keeps_type_def col_named_def num_columns_def)
  obtain g' where g': "col_named st ''hash'' = Some (j, g')" "field_type g' = DOther ''Utf8''"
      "j < num_columns m" "schema_fields (tm_schema m) ! j = g'"
    using find_index_keeps [OF p(3) c(2) [unfolded col_named_def]] c(4) st(2) by (auto simp: keeps_type_def col_named_def num_columns_def)
  have names: "field_name f' = ''number''" "field_name g' = ''hash''"
    using find_index_sat [OF f'(1) [unfolded col_named_def]] find_index_sat [OF g'(1) [unfolded col_named_def]] by simp_all
  have ns: "erased (dst ! i) = erased (concat (map (source_cells ''number'') ts))" using w(2) [OF f'(3)] f'(4) names p(2) by simp
  have hs: "erased (dst ! j) = erased (concat (map (source_cells ''hash'') ts))" using w(2) [OF g'(3)] g'(4) names p(2) by simp
  have valid: "(\<forall>c\<in>set cs. snd c) \<longleftrightarrow> list_all snd (erased cs)" for cs by (simp add: list_all_iff)
  have all: "\<forall>c\<in>set (source_cells ''number'' t). snd c" "\<forall>c\<in>set (source_cells ''hash'' t). snd c"
      "length (source_cells ''number'' t) = length (source_cells ''hash'' t)" if "t \<in> set ts" for t
    by (rule blocks_columnsE [of t]; use src that in simp)+
  have "\<forall>c\<in>set (dst ! i). snd c" "\<forall>c\<in>set (dst ! j). snd c"
    unfolding valid ns hs using all by (auto simp: list_all_iff)
  then have "blocks_columns st" using f' g' st(3) by (auto simp: blocks_columns_def)
  moreover have "erased_rows (source_cells ''number'' st) (source_cells ''hash'' st) =
      concat (map (\<lambda>t. erased_rows (source_cells ''number'' t) (source_cells ''hash'' t)) ts)"
    using erased_rows_cong [OF ns hs] erased_rows_concat [of ts "source_cells ''number''" "source_cells ''hash''"] all(3) f'(1) g'(1) st(3)
    by (simp add: source_cells_def)
  ultimately show ?thesis using block_rows_columns [OF st(1)] by simp
qed

end
