(* ===== verification/CompactionSafety.thy ===== *)
theory CompactionSafety
  imports Compaction MergeContents
begin

text \<open>
  Compaction keeps the history of a dataset. The transaction only commits when the planned chunks are
  still stored; it then replaces them by one chunk with the same span, whose blocks table holds the
  rows of the merged ones. In the terms of the writer's invariant, every run of a compaction is
  \<open>maintained\<close>.
\<close>

section \<open>Slices of a sorted list of chunks\<close>

lemma sorted_three_parts:
  assumes "chunks_sorted cs" and "fb \<le> lb"
  shows "cs = filter (\<lambda>x. last_block x < fb) cs @ filter (\<lambda>x. fb \<le> last_block x \<and> first_block x \<le> lb) cs @
    filter (\<lambda>x. lb < first_block x) cs"
  using assms(1)
proof (induction cs)
  case (Cons c cs)
  note s = Cons.prems
  have later: "last_block c < first_block x" "first_block x \<le> last_block x" if "x \<in> set cs" for x
    using s that by (auto dest: chunks_sortedD)
  consider "last_block c < fb" | "fb \<le> last_block c" "first_block c \<le> lb" | "lb < first_block c" by fastforce
  then show ?case
  proof cases
    case 1
    have "first_block c \<le> lb" using 1 s assms(2) by (meson chunks_sorted_simps(2) less_imp_le order_trans)
    then show ?thesis using 1 Cons by auto
  next
    case 2
    have "\<not> last_block x < fb" if "x \<in> set cs" for x using later [OF that] 2(1) by auto
    then have "filter (\<lambda>x. last_block x < fb) cs = []" by (simp add: filter_empty_conv)
    then show ?thesis using 2 Cons by auto
  next
    case 3
    have c: "first_block c \<le> last_block c" using s by simp
    have "lb < first_block x" if "x \<in> set cs" for x using later [OF that] 3 c by auto
    then have "filter (\<lambda>x. lb < first_block x) cs = cs" "filter (\<lambda>x. fb \<le> last_block x \<and> first_block x \<le> lb) cs = []"
      by (auto simp: filter_empty_conv not_le)
    moreover have "\<not> last_block x < fb" if "x \<in> set cs" for x using later [OF that] 3 c assms(2) by auto
    then have "filter (\<lambda>x. last_block x < fb) cs = []" by (simp add: filter_empty_conv)
    moreover have "\<not> last_block c < fb" using 3 c assms(2) by auto
    ultimately show ?thesis using 3 by auto
  qed
qed simp

lemma compare_chunks_map:
  "compare_chunks (map Inr xs) ms n =
     Inr (if take (length ms) xs = take (length xs) ms then Some (n + min (length xs) (length ms)) else None)"
proof (induction xs arbitrary: ms n)
  case (Cons x xs)
  then show ?case by (cases ms) auto
qed simp

lemma chain_append:
  "chain (xs @ ys) \<longleftrightarrow> chain xs \<and> chain ys \<and> (xs \<noteq> [] \<longrightarrow> ys \<noteq> [] \<longrightarrow> linked (last xs) (hd ys))"
  by (induction xs rule: chain.induct) (cases ys; auto)+

lemma sorted_without:
  assumes "chunks_sorted (xs @ m # ys)"
  shows "set (xs @ ys) = {x \<in> set (xs @ m # ys). last_block x \<noteq> last_block m}"
    "set (xs @ ys) = {x \<in> set (xs @ ys). last_block x \<noteq> last_block m}"
proof -
  have "distinct (map last_block (xs @ m # ys))" using chunks_sorted_last [OF assms] by (simp only: strict_sorted_iff)
  then have "last_block m \<notin> last_block ` set (xs @ ys)" by auto
  then have "\<forall>x\<in>set (xs @ ys). last_block x \<noteq> last_block m" by (metis image_eqI)
  then show "set (xs @ ys) = {x \<in> set (xs @ m # ys). last_block x \<noteq> last_block m}"
    "set (xs @ ys) = {x \<in> set (xs @ ys). last_block x \<noteq> last_block m}" by auto
qed

section \<open>The merged chunk\<close>

lemma make_chunk_simps [simp]:
  "first_block (make_chunk ms tabs) = first_block (hd ms)" "last_block (make_chunk ms tabs) = last_block (last ms)"
  "last_block_hash (make_chunk ms tabs) = last_block_hash (last ms)" "parent_block_hash (make_chunk ms tabs) = parent_block_hash (hd ms)"
  "tables (make_chunk ms tabs) = tabs"
  by (simp_all add: make_chunk_def)

lemma chunks_sorted_merge:
  assumes "chunks_sorted (pre @ ms @ post)" "ms \<noteq> []"
  shows "chunks_sorted (pre @ make_chunk ms tabs # post)"
proof -
  have s: "chunks_sorted pre" "chunks_sorted ms" "chunks_sorted post" using assms(1) by (simp_all add: chunks_sorted_append)
  have "first_block (hd ms) \<le> first_block (last ms)" using sorted_first [OF s(2), of "last ms"] assms(2) by simp
  then have "first_block (hd ms) \<le> last_block (last ms)" using chunks_sortedD [OF s(2), of "last ms"] assms(2) by simp
  then show ?thesis using assms s by (auto simp: chunks_sorted_append)
qed

lemma chain_merge:
  assumes "chain (pre @ ms @ post)" "ms \<noteq> []"
  shows "chain (pre @ make_chunk ms tabs # post)"
proof -
  have "chain (make_chunk ms tabs # post)"
    using assms by (cases post) (auto simp: chain_append linked_def)
  then show ?thesis using assms by (auto simp: chain_append linked_def)
qed

lemma same_span_merge:
  assumes "chunks_sorted (pre @ ms @ post)" "ms \<noteq> []"
  shows "same_span (pre @ ms @ post) (pre @ make_chunk ms tabs # post)"
proof -
  have "last_block (hd ms) \<le> last_block (last ms)"
    using sorted_last [of ms "hd ms"] assms by (simp add: chunks_sorted_append)
  then show ?thesis
    using assms(2) by (cases pre; cases post) (auto simp: same_span_def get_chunk_head_def)
qed

context kv_store
begin

lemma data_unchanged_slice:
  assumes rep: "rep R t ds cs" and ms: "ms \<noteq> []" and dwc: "data_was_changed R ds ms t = Inr False"
  shows "\<exists>pre post. cs = pre @ ms @ post"
proof -
  let ?fb = "first_block (hd ms)" and ?lb = "last_block (last ms)"
  let ?P = "\<lambda>x. ?fb \<le> last_block x \<and> first_block x \<le> ?lb"
  define ys where "ys = filter ?P cs"
  have "list_chunks R t ds ?fb (Some ?lb) = map Inr ys" by (simp add: list_chunks_rep [OF rep] ys_def)
  then have cmp: "take (length ms) ys = take (length ys) ms" "min (length ys) (length ms) = length ms"
    using dwc by (auto simp: data_was_changed_def compare_chunks_map split: if_splits)
  then have pre: "take (length ms) ys = ms" by simp
  have sorted: "chunks_sorted cs" "chunks_sorted ys" using repD(2) [OF rep] by (simp_all add: ys_def chunks_sorted_filter)
  obtain zs where zs: "ys = ms @ zs" using pre by (metis append_take_drop_id)
  have "zs = []"
  proof (rule ccontr)
    assume "zs \<noteq> []"
    then obtain z where z: "z \<in> set zs" by (cases zs) auto
    have "?lb < first_block z" using sorted(2) z ms unfolding zs by (auto simp: chunks_sorted_append)
    moreover have "z \<in> set ys" using z zs by simp
    then have "first_block z \<le> ?lb" by (simp add: ys_def)
    ultimately show False by simp
  qed
  then have ys: "filter ?P cs = ms" using zs by (simp add: ys_def)
  have sms: "chunks_sorted ms" using sorted(2) zs by (simp add: chunks_sorted_append)
  have "?fb \<le> ?lb"
    using chunks_sortedD [OF sms, of "hd ms"] sorted_last [OF sms, of "hd ms"] ms by (meson hd_in_set order_trans)
  then have "cs = filter (\<lambda>x. last_block x < ?fb) cs @ ms @ filter (\<lambda>x. ?lb < first_block x) cs"
    using sorted_three_parts [OF sorted(1), of ?fb ?lb] unfolding ys by blast
  then show ?thesis by (intro exI)
qed

lemma delete_merged_rep:
  assumes "rep R t ds (pre @ ms @ post)"
  shows "rep R (delete_merged_chunks R ds ms t) ds (pre @ post)"
  using assms
proof (induction ms arbitrary: t)
  case (Cons m ms)
  have sorted: "chunks_sorted (pre @ m # ms @ post)" using repD(2) [OF Cons.prems] by simp
  have rest: "set (pre @ ms @ post) = {x \<in> set (pre @ m # ms @ post). last_block x \<noteq> last_block m}"
    by (rule sorted_without [OF sorted])
  have sorted': "chunks_sorted (pre @ ms @ post)" using sorted by (auto simp: chunks_sorted_append)
  have "rep R t ds (pre @ m # ms @ post)" using Cons.prems by simp
  then have "rep R (delete_chunk R t ds m) ds (pre @ ms @ post)" by (rule rep_delete_chunk [OF _ sorted' rest])
  then show ?case using Cons.IH by (simp add: delete_merged_chunks_def)
qed (simp add: delete_merged_chunks_def)

lemma delete_merged_label: "kv_get R (delete_merged_chunks R ds ms t) CF_DATASETS k = kv_get R t CF_DATASETS k"
  unfolding delete_merged_chunks_def by (induction ms arbitrary: t) (simp_all add: get_delete_chunk)

text \<open>What the transaction commits.\<close>

lemma compaction_tx_view:
  assumes v: "view R t ds cs fin" and ms: "ms \<noteq> []" and tx: "compaction_tx R T ds ms (make_chunk ms tabs) t = Inr (CompactionOk info, t')"
  shows "\<exists>pre post. cs = pre @ ms @ post \<and> view R t' ds (pre @ make_chunk ms tabs # post) fin \<and>
    collect_results (map (merged_chunk_info T) ms) = Inr info"
proof -
  let ?c = "make_chunk ms tabs"
  obtain l where l: "find_label_for_update R t ds = Inr (Some l)" "finalized_head l = fin" and rep: "rep R t ds cs" and ch: "chain cs"
    using v by (auto simp: view_def)
  have dwc: "data_was_changed R ds ms t = Inr False"
    and t': "t' = write_label R (write_chunk R (delete_merged_chunks R ds ms t) ds ?c) ds (bump_version l)"
    and info: "collect_results (map (merged_chunk_info T) ms) = Inr info"
    using tx l(1) by (auto simp: compaction_tx_def Let_def split: if_splits)
  obtain pre post where cs: "cs = pre @ ms @ post" using data_unchanged_slice [OF rep ms dwc] by blast
  let ?cs = "pre @ ?c # post"
  have sorted: "chunks_sorted ?cs" using chunks_sorted_merge ms repD(2) [OF rep] cs by simp
  have "set ?cs = insert ?c {x \<in> set (pre @ post). last_block x \<noteq> last_block ?c}"
    using sorted_without(2) [OF sorted] by auto
  then have "rep R (write_chunk R (delete_merged_chunks R ds ms t) ds ?c) ds ?cs"
    using rep_write_chunk [OF delete_merged_rep sorted] rep cs by blast
  then have "rep R t' ds ?cs"
    by (rule iffD1 [OF rep_cong, rotated]) (simp add: t' write_label_def get_put)
  moreover have "find_label_for_update R t' ds = Inr (Some (bump_version l))"
    by (simp add: t' find_label_for_update_def write_label_def get_put dec_enc_label)
  moreover have "finalized_head (bump_version l) = fin" using l(2) by (cases l) (simp add: bump_version_def)
  moreover have "chain ?cs" using chain_merge ch ms cs by simp
  ultimately show ?thesis using cs info by (auto simp: view_def)
qed

end

section \<open>Contents of the merged chunk\<close>

text \<open>The readers of the writer and of the compaction read the same tables.\<close>

definition reads_from :: "tx_ctx \<Rightarrow> (table_id \<Rightarrow> db_err + source_table) \<Rightarrow> bool" where
  "reads_from X T \<longleftrightarrow> (\<forall>tid. table_reader X tid = rbind (T tid) (\<lambda>st. Inr (to_table st)))"

text \<open>Stored tables are well-formed, and no sort key is set on them.\<close>

definition stored_tables_ok :: "(table_id \<Rightarrow> db_err + source_table) \<Rightarrow> bool" where
  "stored_tables_ok T \<longleftrightarrow> (\<forall>tid st. T tid = Inr st \<longrightarrow> source_ok st \<and> get_sort_key (st_schema st) = Inr [])"

text \<open>The table builder leaves chunks and labels alone, and what it wrote is what a reader gets.\<close>

definition builds where
  "builds R T build \<longleftrightarrow>
     (\<forall>m cols t res t'. build m cols t = (res, t') \<longrightarrow>
        (\<forall>f key. f = CF_CHUNKS \<or> f = CF_DATASETS \<longrightarrow> kv_get R t' f key = kv_get R t f key) \<and>
        (\<forall>tid. res = Inr tid \<longrightarrow> (\<exists>st. T tid = Inr st \<and> st_schema st = tm_schema m \<and> st_columns st = cols)))"

definition chunk_rows :: "tx_ctx \<Rightarrow> chunk \<Rightarrow> (u64 \<times> bytes) list" where
  "chunk_rows X c =
     (case get_table c ''blocks'' of
        None \<Rightarrow> []
      | Some tid \<Rightarrow>
          (case table_reader X tid of
             Inl _ \<Rightarrow> []
           | Inr tab \<Rightarrow> (case block_rows tab of None \<Rightarrow> [] | Some r \<Rightarrow> r)))"

definition same_store where
  "same_store R t t' \<longleftrightarrow> (\<forall>f key. f = CF_CHUNKS \<or> f = CF_DATASETS \<longrightarrow> kv_get R t' f key = kv_get R t f key)"

lemma same_store_refl [simp]: "same_store R t t"
  by (simp add: same_store_def)

lemma same_store_trans: "same_store R a b \<Longrightarrow> same_store R b c \<Longrightarrow> same_store R a c"
  by (simp add: same_store_def)

text \<open>What a merged table is.\<close>

definition merged_table where
  "merged_table S T merge name tid \<longleftrightarrow>
     (\<exists>chunks m cols st. collect_results (map (\<lambda>c. get_table_reader T c name) merge) = Inr chunks \<and>
        tm_prepare chunks = Inr m \<and> tm_write S m (replicate (num_columns m) []) = Inr cols \<and>
        T tid = Inr st \<and> st_schema st = tm_schema m \<and> st_columns st = cols)"

lemma merge_table_result:
  assumes "builds R T build" and "merge_table S T build merge name t = (res, t')"
  shows "same_store R t t' \<and> (\<forall>tid. res = Inr tid \<longrightarrow> merged_table S T merge name tid)"
proof (cases "collect_results (map (\<lambda>c. get_table_reader T c name) merge)")
  case (Inl e)
  then show ?thesis using assms(2) by (auto simp: merge_table_def)
next
  case (Inr chunks)
  let ?p = "rbind (tm_prepare chunks) (\<lambda>m. rbind (tm_write S m (replicate (num_columns m) [])) (\<lambda>cols. Inr (m, cols)))"
  show ?thesis
  proof (cases ?p)
    case (Inl e)
    then show ?thesis using assms(2) Inr by (auto simp: merge_table_def)
  next
    case p: (Inr mc)
    obtain m cols where mc: "mc = (m, cols)" by (cases mc)
    have b: "build m cols t = (res, t')" using assms(2) Inr p mc by (simp add: merge_table_def)
    have "tm_prepare chunks = Inr m" "tm_write S m (replicate (num_columns m) []) = Inr cols" using p mc by auto
    then show ?thesis
      using assms(1) b Inr unfolding builds_def same_store_def merged_table_def by blast
  qed
qed

lemma merge_all_result:
  assumes "builds R T build" and "merge_all_tables S T build merge names tabs t = (res, t')"
  shows "same_store R t t' \<and>
    (\<forall>tabs'. res = Inr tabs' \<longrightarrow> (\<exists>new. tabs' = tabs @ new \<and> map fst new = names \<and> (\<forall>e\<in>set new. merged_table S T merge (fst e) (snd e))))"
  using assms(2)
proof (induction names arbitrary: tabs t)
  case (Cons name names)
  obtain r t1 where r: "merge_table S T build merge name t = (r, t1)" by fastforce
  note first = merge_table_result [OF assms(1) r]
  show ?case
  proof (cases r)
    case (Inl e)
    then show ?thesis using Cons.prems r first by auto
  next
    case (Inr tid)
    then have "merge_all_tables S T build merge names (tabs @ [(name, tid)]) t1 = (res, t')" using Cons.prems r by simp
    note rest = Cons.IH [OF this]
    show ?thesis
    proof (intro conjI allI impI)
      show "same_store R t t'" by (rule same_store_trans [OF conjunct1 [OF first] conjunct1 [OF rest]])
      fix tabs'
      assume "res = Inr tabs'"
      then obtain new where "tabs' = (tabs @ [(name, tid)]) @ new" "map fst new = names" "\<forall>e\<in>set new. merged_table S T merge (fst e) (snd e)"
        using conjunct2 [OF rest] by blast
      then show "\<exists>new. tabs' = tabs @ new \<and> map fst new = name # names \<and> (\<forall>e\<in>set new. merged_table S T merge (fst e) (snd e))"
        using first Inr by (intro exI [of _ "(name, tid) # new"]) simp
    qed
  qed
qed auto

lemma collect_results_map:
  "collect_results (map f xs) = Inr ys \<longleftrightarrow> list_all2 (\<lambda>x y. f x = Inr y) xs ys"
proof (induction xs arbitrary: ys)
  case (Cons x xs)
  then show ?case by (cases ys) auto
qed auto

lemma tables_ok_rows:
  assumes "tables_ok X rows x" "reads_from X T" "stored_tables_ok T" "rows = chunk_rows X"
  obtains tid st where "get_table x ''blocks'' = Some tid" "T tid = Inr st" "source_ok st" "blocks_columns st"
    "rows x = erased_rows (source_cells ''number'' st) (source_cells ''hash'' st)"
proof -
  obtain tid tab where t: "get_table x ''blocks'' = Some tid" "table_reader X tid = Inr tab" "block_rows tab = Some (rows x)"
    using assms(1) by (auto simp: tables_ok_def readable_def)
  then obtain st where st: "T tid = Inr st" "tab = to_table st" using assms(2) by (auto simp: reads_from_def)
  have ok: "source_ok st" using assms(3) st(1) by (simp add: stored_tables_ok_def)
  have "(if blocks_columns st then Some (erased_rows (source_cells ''number'' st) (source_cells ''hash'' st)) else None) = Some (rows x)"
    using t(3) st(2) block_rows_columns [OF ok] by simp
  then show thesis using that [OF t(1) st(1) ok] by (auto split: if_splits)
qed

lemma merged_blocks_table:
  assumes X: "reads_from X T" "stored_tables_ok T" "rows = chunk_rows X" and ms: "ms \<noteq> []" "\<forall>x\<in>set ms. tables_ok X rows x"
    and mt: "merged_table S T ms ''blocks'' tid"
  obtains st where "T tid = Inr st" "source_ok st" "block_rows (to_table st) = Some (blocks_of rows ms)"
proof -
  obtain chunks m cols st where mt: "collect_results (map (\<lambda>c. get_table_reader T c ''blocks'') ms) = Inr chunks"
    "tm_prepare chunks = Inr m" "tm_write S m (replicate (num_columns m) []) = Inr cols"
    "T tid = Inr st" "st_schema st = tm_schema m" "st_columns st = cols" using mt by (auto simp: merged_table_def)
  have all: "list_all2 (\<lambda>x t. get_table_reader T x ''blocks'' = Inr t) ms chunks" using mt(1) by (simp add: collect_results_map)
  have each: "source_ok t \<and> blocks_columns t \<and> get_sort_key (st_schema t) = Inr [] \<and>
      rows x = erased_rows (source_cells ''number'' t) (source_cells ''hash'' t)"
    if x: "x \<in> set ms" and t: "get_table_reader T x ''blocks'' = Inr t" for x t
  proof -
    obtain tx sx where sx: "get_table x ''blocks'' = Some tx" "T tx = Inr sx" "source_ok sx" "blocks_columns sx"
      "rows x = erased_rows (source_cells ''number'' sx) (source_cells ''hash'' sx)"
      by (rule tables_ok_rows [OF bspec [OF ms(2) x] X])
    have "t = sx" using t sx(1,2) by (simp add: get_table_reader_def)
    then show ?thesis using sx X(2) by (simp add: stored_tables_ok_def)
  qed
  have len: "length ms = length chunks" using all by (rule list_all2_lengthD)
  have at_k: "source_ok (chunks ! k) \<and> blocks_columns (chunks ! k) \<and> get_sort_key (st_schema (chunks ! k)) = Inr [] \<and>
      rows (ms ! k) = erased_rows (source_cells ''number'' (chunks ! k)) (source_cells ''hash'' (chunks ! k))"
    if k: "k < length chunks" for k
    by (rule each [OF nth_mem list_all2_nthD [OF all]]) (simp_all add: k len)
  have src: "\<forall>t\<in>set chunks. source_ok t \<and> blocks_columns t" using at_k by (auto simp: in_set_conv_nth)
  have "map rows ms = map (\<lambda>t. erased_rows (source_cells ''number'' t) (source_cells ''hash'' t)) chunks"
    by (rule nth_equalityI) (simp_all add: len at_k)
  then have rows: "blocks_of rows ms = concat (map (\<lambda>t. erased_rows (source_cells ''number'' t) (source_cells ''hash'' t)) chunks)"
    by (simp add: blocks_of_def)
  have "chunks \<noteq> []" using len ms(1) by auto
  then have key: "get_sort_key (st_schema (last chunks)) = Inr []" using at_k [of "length chunks - 1"] by (simp add: last_conv_nth)
  have st_ok: "source_ok st" using X(2) mt(4) by (simp add: stored_tables_ok_def)
  have "block_rows (to_table st) = Some (blocks_of rows ms)"
    unfolding rows by (rule merged_blocks_rows [OF mt(2,3) src key st_ok mt(5,6)])
  then show thesis by (rule that [OF mt(4) st_ok])
qed

lemma merged_chunk_ok:
  assumes X: "reads_from X T" "stored_tables_ok T" "rows = chunk_rows X" and ms: "ms \<noteq> []" "\<forall>x\<in>set ms. tables_ok X rows x"
    and sorted: "chunks_sorted ms"
    and tabs: "map fst tabs = map fst (tables (hd ms))" "\<forall>e\<in>set tabs. merged_table S T ms (fst e) (snd e)"
  shows "tables_ok X rows (make_chunk ms tabs)" "rows (make_chunk ms tabs) = blocks_of rows ms"
proof -
  let ?c = "make_chunk ms tabs"
  obtain tid0 where "get_table (hd ms) ''blocks'' = Some tid0" using tables_ok_rows [OF bspec [OF ms(2), of "hd ms"] X] ms(1) by auto
  then have "''blocks'' \<in> set (map fst tabs)" unfolding tabs(1) get_table_def by (metis map_of_eq_None_iff option.distinct(1) set_map)
  then obtain tid where tid: "map_of tabs ''blocks'' = Some tid" by (metis map_of_eq_None_iff not_Some_eq set_map)
  then have "merged_table S T ms ''blocks'' tid" using tabs(2) by (force dest: map_of_SomeD)
  then obtain st where st: "T tid = Inr st" "source_ok st" "block_rows (to_table st) = Some (blocks_of rows ms)"
    by (rule merged_blocks_table [OF X ms])
  have reader: "table_reader X tid = Inr (to_table st)" using X(1) st(1) by (simp add: reads_from_def)
  have gt: "get_table ?c ''blocks'' = Some tid" using tid by (simp add: get_table_def)
  show rc: "rows ?c = blocks_of rows ms" by (simp add: X(3) chunk_rows_def gt reader st(3) [unfolded X(3)])
  have "readable X ?c (rows ?c)" using gt reader st(3) rc to_table_ok [OF st(2)] by (auto simp: readable_def)
  moreover have "first_block (hd ms) \<le> fst r \<and> fst r \<le> last_block (last ms)" if r: "r \<in> set (blocks_of rows ms)" for r
  proof -
    obtain x where x: "x \<in> set ms" "r \<in> set (rows x)" using r by (auto simp: blocks_of_def)
    then have "first_block x \<le> fst r" "fst r \<le> last_block x" using ms(2) by (auto simp: tables_ok_def)
    then show ?thesis using sorted_first [OF sorted x(1)] sorted_last [OF sorted x(1)] by auto
  qed
  moreover have "(last_block (last ms), last_block_hash (last ms)) \<in> set (blocks_of rows ms)"
    using ms by (auto simp: blocks_of_def tables_ok_def intro!: bexI [of _ "last ms"])
  ultimately show "tables_ok X rows ?c" using rc by (simp add: tables_ok_def)
qed

section \<open>The whole operation\<close>

lemma blocks_of_simps [simp]:
  "blocks_of rows [] = []" "blocks_of rows (x # xs) = rows x @ blocks_of rows xs"
  "blocks_of rows (xs @ ys) = blocks_of rows xs @ blocks_of rows ys"
  by (simp_all add: blocks_of_def)

text \<open>The chunk handed to the transaction was built from the tables of the plan.\<close>

definition built_from where
  "built_from S T ms tabs \<longleftrightarrow>
     ms \<noteq> [] \<and> map fst tabs = map fst (tables (hd ms)) \<and> (\<forall>e\<in>set tabs. merged_table S T ms (fst e) (snd e))"

lemma merge_all_built:
  assumes "builds R T build" "ms \<noteq> []" "merge_all_tables S T build ms (map fst (tables (hd ms))) [] t = (Inr tabs, t')"
  shows "built_from S T ms tabs"
  using merge_all_result [OF assms(1,3)] assms(2) by (auto simp: built_from_def)

context kv_store
begin

lemma compaction_tx_commit:
  assumes X: "reads_from X T" "stored_tables_ok T" "rows = chunk_rows X" and b: "built_from S T ms tabs"
    and v: "view R t ds cs fin" and h: "history X rows cs"
    and tx: "compaction_tx R T ds ms (make_chunk ms tabs) t = Inr (CompactionOk info, t')"
  obtains pre post where "cs = pre @ ms @ post" "view R t' ds (pre @ make_chunk ms tabs # post) fin"
    "history X rows (pre @ make_chunk ms tabs # post)" "rows (make_chunk ms tabs) = blocks_of rows ms"
    "same_span cs (pre @ make_chunk ms tabs # post)"
proof -
  have ms: "ms \<noteq> []" using b by (simp add: built_from_def)
  obtain pre post where cs: "cs = pre @ ms @ post" and v': "view R t' ds (pre @ make_chunk ms tabs # post) fin"
    using compaction_tx_view [OF v ms tx] by blast
  have sorted: "chunks_sorted (pre @ ms @ post)" using repD(2) [of R t ds cs] v cs by (simp add: view_def)
  have ok: "\<forall>x\<in>set ms. tables_ok X rows x" using h cs by (simp add: history_def)
  have "chunks_sorted ms" using sorted by (simp add: chunks_sorted_append)
  then have c: "tables_ok X rows (make_chunk ms tabs)" "rows (make_chunk ms tabs) = blocks_of rows ms"
    using merged_chunk_ok [OF X ms ok, of tabs S] b by (simp_all add: built_from_def)
  have "history X rows (pre @ make_chunk ms tabs # post)" using c(1) h cs by (auto simp: history_def)
  moreover have "same_span cs (pre @ make_chunk ms tabs # post)" using same_span_merge [OF sorted ms] cs by simp
  ultimately show thesis using that [OF cs v'] c by simp
qed

lemma compaction_tx_maintained:
  assumes X: "reads_from X T" "stored_tables_ok T" "rows = chunk_rows X" and b: "built_from S T ms tabs"
    and tx: "compaction_tx R T ds ms (make_chunk ms tabs) t = Inr (s, t')"
  shows "maintained R X rows ds t t'"
proof (cases "\<exists>info. s = CompactionOk info")
  case True
  then obtain info where s: "s = CompactionOk info" by blast
  show ?thesis
    unfolding maintained_def
  proof (intro allI impI, elim conjE)
    fix cs fin
    assume "view R t ds cs fin" "history X rows cs"
    then obtain pre post where c: "cs = pre @ ms @ post" "view R t' ds (pre @ make_chunk ms tabs # post) fin"
      "history X rows (pre @ make_chunk ms tabs # post)" "rows (make_chunk ms tabs) = blocks_of rows ms"
      "same_span cs (pre @ make_chunk ms tabs # post)"
      by (rule compaction_tx_commit [OF X b _ _ tx [unfolded s]])
    have "blocks_of rows (pre @ make_chunk ms tabs # post) = blocks_of rows cs" using c(1,4) by simp
    then show "\<exists>cs'. view R t' ds cs' fin \<and> history X rows cs' \<and> same_span cs cs' \<and> blocks_of rows cs' = blocks_of rows cs"
      using c(2,3,5) by blast
  qed
next
  case False
  then have "t' = t" using tx by (auto simp: compaction_tx_def Let_def split: option.splits if_splits)
  then show ?thesis by simp
qed

lemma abandon_maintained:
  assumes "maintaining R X rows ds env"
  shows "maintained R X rows ds db (snd (abandon_new_chunk_tables R p env c db))"
  using delete_tables_maintained [OF assms] by (simp add: abandon_new_chunk_tables_def delete_tables_def)

text \<open>Whatever the operation returns, readers of the dataset see the blocks they saw before.\<close>

lemma execute_maintained:
  assumes X: "reads_from X T" "stored_tables_ok T" "rows = chunk_rows X" and b: "builds R T build"
    and env: "\<And>k. maintaining R X rows (dc_dataset_id d) (E k)"
  shows "maintained R X rows (dc_dataset_id d) db (snd (execute_compaction R S T build p E d db))"
proof (cases "prepare_merge_plan R T d db")
  case (Inl e)
  then show ?thesis by (simp add: execute_compaction_def)
next
  case (Inr ms)
  show ?thesis
  proof (cases "length ms < 2")
    case True
    then show ?thesis using Inr by (simp add: execute_compaction_def)
  next
    case False
    obtain res db1 where m: "merge_all_tables S T build ms (map fst (tables (hd ms))) [] db = (res, db1)" by fastforce
    have m1: "maintained R X rows (dc_dataset_id d) db db1"
      by (rule maintained_cong) (use merge_all_result [OF b m] in \<open>auto simp: same_store_def\<close>)
    show ?thesis
    proof (cases res)
      case (Inl e)
      then show ?thesis using Inr False m m1 by (simp add: execute_compaction_def)
    next
      case tabs: (Inr tabs)
      have bf: "built_from S T ms tabs" by (rule merge_all_built [OF b _ m [unfolded tabs]]) (use False in auto)
      let ?run = "tx_run p (E 0) (compaction_tx R T (dc_dataset_id d) ms (make_chunk ms tabs)) db1"
      let ?drop = "\<lambda>db. snd (abandon_new_chunk_tables R p (E 1) (make_chunk ms tabs) db)"
      have m2: "maintained R X rows (dc_dataset_id d) db (snd ?run)"
        by (rule maintained_trans [OF m1 tx_run_maintained [OF env compaction_tx_maintained [OF X bf]]])
      have m3: "maintained R X rows (dc_dataset_id d) db (?drop (snd ?run))"
        by (rule maintained_trans [OF m2 abandon_maintained [OF env]])
      have "snd (execute_compaction R S T build p E d db) \<in> {snd ?run, ?drop (snd ?run)}"
        using Inr False m tabs
        by (auto simp: execute_compaction_def Let_def split: prod.splits sum.splits compaction_status.splits)
      then show ?thesis using m2 m3 by auto
    qed
  qed
qed

end

end
