(* ===== verification/CompactionPlan.thy ===== *)
theory CompactionPlan
  imports Compaction
begin

text \<open>
  What the compaction planner chooses (\<open>find_range\<close> and \<open>prepare_merge_plan\<close> of
  \<open>storage/src/db/ops/compaction.rs\<close>): a range of neighbouring chunks, scored as the source scores it, whose
  block ranges follow each other without a gap.
\<close>

section \<open>Range search\<close>

text \<open>A range worth merging: inside the bounds, not longer than the limit, with the score of its slice.\<close>

definition good_range ::
  "nat list \<Rightarrow> (nat \<Rightarrow> nat \<Rightarrow> bool) \<Rightarrow> nat \<Rightarrow> nat \<Rightarrow> nat \<Rightarrow> nat \<times> nat \<times> nat \<Rightarrow> bool" where
  "good_range sizes wa start stop len_limit r \<longleftrightarrow>
     (case r of (left, right, score) \<Rightarrow>
        start \<le> left \<and> left < right \<and> right \<le> stop \<and> right - left \<le> max 1 len_limit \<and>
        score = score_merge (sizes_between sizes left right) (Some wa))"

lemma grow_range_found:
  "grow_range sizes left right right_limit threshold wa = Inl (l, r, score) \<Longrightarrow>
     l = left \<and> right \<le> r \<and> r \<le> max right right_limit \<and> score = score_merge (sizes_between sizes l r) (Some wa) \<and>
     (threshold \<le> score \<or> 0 < score)"
proof (induction sizes left right right_limit threshold wa rule: grow_range.induct)
  case (1 sizes left right right_limit threshold wa)
  then show ?case
    by (subst (asm) (2) grow_range.simps) (fastforce simp: Let_def split: if_splits)
qed

lemma grow_range_zero:
  "grow_range sizes left right right_limit threshold wa = Inr r \<Longrightarrow> score_merge (sizes_between sizes left r) (Some wa) = 0"
proof (induction sizes left right right_limit threshold wa rule: grow_range.induct)
  case (1 sizes left right right_limit threshold wa)
  then show ?case
    by (subst (asm) (2) grow_range.simps) (fastforce simp: Let_def split: if_splits)
qed

lemma find_range_sound:
  "find_range sizes start stop threshold wa len_limit = Some r \<Longrightarrow>
     good_range sizes wa start stop len_limit r \<and> (0 < threshold \<longrightarrow> 0 < snd (snd r))"
proof (induction sizes start stop threshold wa len_limit rule: find_range.induct)
  case (1 sizes start stop threshold wa len_limit)
  let ?g = "grow_range sizes start (start + 1) (min stop (start + len_limit)) threshold wa"
  have lt: "start + 1 < stop" using "1.prems" by (subst (asm) find_range.simps) (auto split: if_splits)
  show ?case
  proof (cases ?g)
    case (Inl t)
    then have "t = r" using "1.prems" lt by (subst (asm) find_range.simps) simp
    moreover obtain l e s where "t = (l, e, s)" by (cases t)
    ultimately show ?thesis using grow_range_found [of sizes start "start + 1"] Inl lt by (fastforce simp: good_range_def)
  next
    case (Inr right)
    let ?seg = "sizes_between sizes start right"
    have ne: "?seg \<noteq> []" using "1.prems" lt Inr by (subst (asm) find_range.simps) (auto simp: Let_def split: if_splits)
    note b = max_index_bound [OF Inr _ lt ne]
    have gr: "start + 1 < stop" "\<not> start + 1 \<ge> stop" using lt by auto
    have thr: "0 < threshold \<longrightarrow> 0 < max_size ?seg"
    proof (rule ccontr)
      assume n: "\<not> (0 < threshold \<longrightarrow> 0 < max_size ?seg)"
      have "score_merge ?seg (Some wa) = 0" using grow_range_zero [OF Inr] .
      then show False using n by (simp add: score_merge_def Let_def)
    qed
    show ?thesis
    proof (cases "find_range sizes start (start + max_index ?seg) (max_size ?seg) wa len_limit")
      case (Some r')
      then have "r' = r" using "1.prems" lt Inr ne by (subst (asm) find_range.simps) (simp add: Let_def)
      then show ?thesis using "1.IH"(1) [OF gr(2) Inr refl refl refl ne] Some b thr by (auto simp: good_range_def)
    next
      case None
      then have "find_range sizes (start + max_index ?seg + 1) stop (max_size ?seg) wa len_limit = Some r"
        using "1.prems" lt Inr ne by (subst (asm) find_range.simps) (simp add: Let_def)
      then show ?thesis using "1.IH"(2) [OF gr(2) Inr refl refl refl ne None] thr by (auto simp: good_range_def)
    qed
  qed
qed

section \<open>The chosen slice\<close>

lemma merge_until_bounds: "right \<le> length run \<Longrightarrow> right \<le> merge_until run limit right \<and> merge_until run limit right \<le> length run"
proof (induction run limit right rule: merge_until.induct)
  case (1 run limit right)
  then show ?case by (subst (1 2) merge_until.simps) auto
qed

text \<open>The selection lies inside one run.\<close>

lemma select_range_run:
  assumes "select_range d runs skip = (sk, tk)"
  shows "tk = 0 \<or> (\<exists>pre run post l. runs = pre @ run # post \<and> sk = skip + length (concat pre) + l \<and> l + tk \<le> length run \<and> 2 \<le> length run)"
  using assms
proof (induction runs arbitrary: skip)
  case (Cons run runs)
  have later: "tk = 0 \<or> (\<exists>pre r post l. run # runs = pre @ r # post \<and> sk = skip + length (concat pre) + l \<and> l + tk \<le> length r \<and> 2 \<le> length r)"
    if later: "select_range d runs (skip + length run) = (sk, tk)"
  proof -
    from Cons.IH [OF later] consider "tk = 0"
      | pre r post l where "runs = pre @ r # post" "sk = skip + length run + length (concat pre) + l" "l + tk \<le> length r" "2 \<le> length r"
      by blast
    then show ?thesis
    proof cases
      case 2
      then show ?thesis by (intro disjI2 exI [of _ "run # pre"] exI [of _ r] exI [of _ post] exI [of _ l]) simp
    qed simp
  qed
  have here: "\<exists>pre r post l. run # runs = pre @ r # post \<and> sk = skip + length (concat pre) + l \<and> l + tk \<le> length r \<and> 2 \<le> length r"
    if "sk = skip + l" "l + tk \<le> length run" "2 \<le> length run" for l
    using that by (intro exI [of _ "[]"] exI [of _ run] exI [of _ runs] exI [of _ l]) simp
  let ?f = "find_range run 0 (length run) (dc_max_chunk_size d) (dc_wa_below d) (dc_len_limit d)"
  consider "length run < 2" | "2 \<le> length run" "runs \<noteq> []" | "2 \<le> length run" "runs = []" by linarith
  then show ?case
  proof cases
    case 1
    then show ?thesis using Cons.prems later by simp
  next
    case 2
    have "1 \<le> length run" using 2 by linarith
    then show ?thesis using Cons.prems here [of 0] 2 merge_until_bounds [of 1 run "dc_max_chunk_size d"] by auto
  next
    case 3
    show ?thesis
    proof (cases ?f)
      case None
      then show ?thesis using 3 Cons.prems later by simp
    next
      case (Some r)
      then have "good_range run (dc_wa_below d) 0 (length run) (dc_len_limit d) r" using find_range_sound by blast
      then show ?thesis using 3 Cons.prems Some here [of "fst r"] by (auto simp: good_range_def)
    qed
  qed
qed simp

section \<open>Runs\<close>

text \<open>The size the planner gives a chunk: the rows of its largest table, or its number of blocks.\<close>

definition plan_size :: "(table_id \<Rightarrow> db_err + source_table) \<Rightarrow> chunk \<Rightarrow> nat" where
  "plan_size T c =
     (let m = fold (\<lambda>(_, v) m. case T v of Inr r \<Rightarrow> max (st_num_rows r) m | Inl _ \<Rightarrow> m) (tables c) 0
      in if m = 0 then unat (blocks_count c) else m)"

lemma scan_tables_rows:
  "scan_tables T e tabs m b schemas = Inr (m', b', schemas') \<Longrightarrow>
     m' = fold (\<lambda>(_, v) m. case T v of Inr r \<Rightarrow> max (st_num_rows r) m | Inl _ \<Rightarrow> m) tabs m"
  by (induction T e tabs m b schemas rule: scan_tables.induct) (auto simp: Let_def)

text \<open>Chunks listed from the newest: each ends right before the one listed before it.\<close>

fun contiguous_down :: "chunk list \<Rightarrow> bool" where
  "contiguous_down (a # b # cs) \<longleftrightarrow> last_block b + 1 = first_block a \<and> contiguous_down (b # cs)"
| "contiguous_down _ \<longleftrightarrow> True"

lemma contiguous_snoc:
  "contiguous_down cs \<Longrightarrow> cs \<noteq> [] \<Longrightarrow> last_block c + 1 = first_block (last cs) \<Longrightarrow> contiguous_down (cs @ [c])"
  by (induction cs rule: contiguous_down.induct) auto

lemma scan_chunk_result:
  assumes "scan_chunk T d el s = Inr s'"
  shows "\<exists>ok. ps_runs s' = push_run (ok \<and> (case ps_first_block s of Some b \<Rightarrow> last_block el + 1 = b | None \<Rightarrow> True))
      (plan_size T el) (dc_max_chunk_size d) (ps_runs s)"
    "ps_first_block s' = Some (first_block el)" "ps_first_applicable s' = first_block el"
proof -
  let ?r = "ps_schemas s \<noteq> [] \<and> length (tables el) \<noteq> length (ps_schemas s)"
  obtain m b sc where t: "scan_tables T (ps_schemas s = []) (tables el) 0 (\<not> ?r) (if ?r then [] else ps_schemas s) = Inr (m, b, sc)"
    and s': "s' = \<lparr>ps_first_applicable = first_block el,
                 ps_runs = push_run (b \<and> (case ps_first_block s of Some x \<Rightarrow> last_block el + 1 = x | None \<Rightarrow> True))
                   (if m = 0 then unat (blocks_count el) else m) (dc_max_chunk_size d) (ps_runs s),
                 ps_schemas = sc, ps_first_block = Some (first_block el)\<rparr>"
    using assms unfolding scan_chunk_def Let_def by (auto simp del: scan_tables.simps)
  have "plan_size T el = (if m = 0 then unat (blocks_count el) else m)"
    using scan_tables_rows [OF t] by (simp add: plan_size_def Let_def)
  then show "\<exists>ok. ps_runs s' = push_run (ok \<and> (case ps_first_block s of Some b \<Rightarrow> last_block el + 1 = b | None \<Rightarrow> True))
      (plan_size T el) (dc_max_chunk_size d) (ps_runs s)"
    "ps_first_block s' = Some (first_block el)" "ps_first_applicable s' = first_block el"
    using s' by auto
qed

text \<open>The runs are the sizes of segments of the scanned chunks.\<close>

definition run_ok :: "(table_id \<Rightarrow> db_err + source_table) \<Rightarrow> nat \<Rightarrow> chunk list \<Rightarrow> bool" where
  "run_ok T limit seg \<longleftrightarrow> contiguous_down seg \<and> (2 \<le> length seg \<longrightarrow> (\<forall>x\<in>set seg. plan_size T x < limit))"

definition scanned :: "(table_id \<Rightarrow> db_err + source_table) \<Rightarrow> nat \<Rightarrow> chunk list \<Rightarrow> plan_state \<Rightarrow> bool" where
  "scanned T limit xs s \<longleftrightarrow>
     (\<exists>segs. segs \<noteq> [] \<and> concat segs = xs \<and> ps_runs s = map (map (plan_size T)) segs \<and> (\<forall>seg\<in>set segs. run_ok T limit seg) \<and>
        (\<forall>x\<in>set (last segs). plan_size T x < limit)) \<and>
     ps_first_block s = (if xs = [] then None else Some (first_block (last xs))) \<and>
     ps_first_applicable s = (if xs = [] then - 1 else first_block (last xs))"

lemma scanned_init: "scanned T limit [] ps_init"
  by (auto simp: scanned_def ps_init_def run_ok_def intro!: exI [of _ "[[]]"])

lemma push_run_segments:
  assumes segs: "segs \<noteq> []" "\<forall>seg\<in>set segs. run_ok T limit seg" "\<forall>x\<in>set (last segs). plan_size T x < limit"
    and next_to: "joins \<Longrightarrow> last segs \<noteq> [] \<Longrightarrow> last_block el + 1 = first_block (last (last segs))"
  shows "\<exists>segs'. segs' \<noteq> [] \<and> concat segs' = concat segs @ [el] \<and>
    push_run joins (plan_size T el) limit (map (map (plan_size T)) segs) = map (map (plan_size T)) segs' \<and>
    (\<forall>seg\<in>set segs'. run_ok T limit seg) \<and> (\<forall>x\<in>set (last segs'). plan_size T x < limit)"
proof (cases "joins \<and> plan_size T el < limit")
  case True
  let ?segs = "butlast segs @ [last segs @ [el]]"
  have "contiguous_down (last segs @ [el])"
    using contiguous_snoc [of "last segs" el] segs next_to True by (cases "last segs = []") (auto simp: run_ok_def)
  then have "run_ok T limit (last segs @ [el])" using segs(3) True by (auto simp: run_ok_def)
  moreover have "concat ?segs = concat segs @ [el]"
    using arg_cong [OF append_butlast_last_id [OF segs(1)], of concat] by simp
  moreover have "push_run joins (plan_size T el) limit (map (map (plan_size T)) segs) = map (map (plan_size T)) ?segs"
    using True segs(1) by (simp add: push_run_def map_butlast last_map)
  ultimately show ?thesis
    using segs True by (intro exI [of _ ?segs]) (auto dest: in_set_butlastD)
next
  case False
  let ?segs = "segs @ [[el]] @ (if limit \<le> plan_size T el then [[]] else [])"
  have "push_run joins (plan_size T el) limit (map (map (plan_size T)) segs) = map (map (plan_size T)) ?segs"
    using False by (auto simp: push_run_def)
  then show ?thesis using segs by (intro exI [of _ ?segs]) (auto simp: run_ok_def)
qed

lemma scan_chunk_scanned:
  assumes sc: "scanned T (dc_max_chunk_size d) xs s" and st: "scan_chunk T d el s = Inr s'"
  shows "scanned T (dc_max_chunk_size d) (xs @ [el]) s'"
proof -
  obtain segs where segs: "segs \<noteq> []" "concat segs = xs" "ps_runs s = map (map (plan_size T)) segs"
    "\<forall>seg\<in>set segs. run_ok T (dc_max_chunk_size d) seg" "\<forall>x\<in>set (last segs). plan_size T x < dc_max_chunk_size d"
    using sc unfolding scanned_def by blast
  let ?near = "case ps_first_block s of Some b \<Rightarrow> last_block el + 1 = b | None \<Rightarrow> True"
  obtain ok where runs: "ps_runs s' = push_run (ok \<and> ?near) (plan_size T el) (dc_max_chunk_size d) (map (map (plan_size T)) segs)"
    using scan_chunk_result(1) [OF st] segs(3) by auto
  have "last_block el + 1 = first_block (last (last segs))" if "ok \<and> ?near" "last segs \<noteq> []"
  proof -
    have "xs = concat (butlast segs) @ last segs"
      using arg_cong [OF append_butlast_last_id [OF segs(1)], of concat] segs(2) by simp
    then have "xs \<noteq> []" "last xs = last (last segs)" using that(2) by simp_all
    then show ?thesis using sc that(1) by (simp add: scanned_def)
  qed
  note push_run_segments [OF segs(1,4,5) this]
  then show ?thesis using runs scan_chunk_result(2,3) [OF st] segs(2) unfolding scanned_def by auto
qed

lemma scan_loop_scanned:
  assumes "scanned T (dc_max_chunk_size d) xs s" and "scan_loop T d k (map Inr ys) s = Inr s'"
  shows "scanned T (dc_max_chunk_size d) (xs @ take (MERGE_HORIZON - k) ys) s'"
  using assms
proof (induction ys arbitrary: xs s k)
  case (Cons y ys)
  show ?case
  proof (cases "k < MERGE_HORIZON")
    case True
    obtain s1 where s1: "scan_chunk T d y s = Inr s1" "scan_loop T d (k + 1) (map Inr ys) s1 = Inr s'"
      using Cons.prems(2) True by auto
    have "MERGE_HORIZON - k = Suc (MERGE_HORIZON - (k + 1))" using True by simp
    then have "take (MERGE_HORIZON - k) (y # ys) = y # take (MERGE_HORIZON - (k + 1)) ys" by simp
    then show ?thesis using Cons.IH [OF scan_chunk_scanned [OF Cons.prems(1) s1(1)] s1(2)] by simp
  next
    case False
    then show ?thesis using Cons.prems by simp
  qed
qed simp

section \<open>The plan\<close>

lemma contiguous_append: "contiguous_down (xs @ ys) \<Longrightarrow> contiguous_down xs \<and> contiguous_down ys"
  by (induction xs rule: contiguous_down.induct) (cases ys; auto)+

text \<open>A plan that the runs allow: no gap between neighbours, and every chunk below the size limit.\<close>

definition plan_ok :: "(table_id \<Rightarrow> db_err + source_table) \<Rightarrow> compaction \<Rightarrow> chunk list \<Rightarrow> bool" where
  "plan_ok T d ms \<longleftrightarrow>
     length ms \<le> MERGE_HORIZON \<and> contiguous_down (rev ms) \<and> (\<forall>x\<in>set ms. plan_size T x < dc_max_chunk_size d)"

lemma selected_slice:
  assumes sc: "scanned T (dc_max_chunk_size d) xs s" and len: "length xs \<le> MERGE_HORIZON"
    and sel: "select_range d (rev (map rev (ps_runs s))) 0 = (sk, tk)"
  shows "plan_ok T d (take tk (drop sk (rev xs)))"
proof (cases "tk = 0")
  case True
  then show ?thesis by (simp add: plan_ok_def)
next
  case False
  obtain segs where segs: "concat segs = xs" "ps_runs s = map (map (plan_size T)) segs" "\<forall>seg\<in>set segs. run_ok T (dc_max_chunk_size d) seg"
    using sc unfolding scanned_def by blast
  let ?G = "rev (map rev segs)" and ?ms = "take tk (drop sk (rev xs))"
  have runs: "rev (map rev (ps_runs s)) = map (map (plan_size T)) ?G" by (simp add: segs(2) rev_map)
  have G: "concat ?G = rev xs" by (simp add: segs(1) [symmetric] rev_concat rev_map)
  obtain pre run post l where r: "map (map (plan_size T)) ?G = pre @ run # post" "sk = length (concat pre) + l" "l + tk \<le> length run" "2 \<le> length run"
    using select_range_run [OF sel [unfolded runs]] False by auto
  obtain gp g gq where g: "?G = gp @ g # gq" "pre = map (map (plan_size T)) gp" "run = map (plan_size T) g"
    using r(1) by (auto simp: map_eq_append_conv map_eq_Cons_conv)
  have pre: "length (concat pre) = length (concat gp)" by (simp add: g(2) length_concat o_def)
  have "rev xs = concat gp @ g @ concat gq" using arg_cong [OF g(1), of concat] unfolding G by simp
  then have ms: "?ms = take tk (drop l g)" using r(2,3) g(3) by (simp add: pre)
  have "g \<in> rev ` set segs" using arg_cong [OF g(1), of set] by simp
  then have "rev g \<in> set segs" by auto
  then have ok: "contiguous_down (rev g)" "\<forall>x\<in>set g. plan_size T x < dc_max_chunk_size d"
    using segs(3) r(4) g(3) by (auto simp: run_ok_def)
  have "g = take l g @ take tk (drop l g) @ drop tk (drop l g)" by (simp only: append_take_drop_id)
  then have "rev g = (rev (drop tk (drop l g)) @ rev ?ms) @ rev (take l g)" unfolding ms by (metis append.assoc rev_append)
  then have "contiguous_down (rev ?ms)" using ok(1) contiguous_append by metis
  moreover have "\<forall>x\<in>set ?ms. plan_size T x < dc_max_chunk_size d"
    unfolding ms using ok(2) by (auto dest: in_set_takeD in_set_dropD)
  moreover have "length ?ms \<le> MERGE_HORIZON" using len by simp
  ultimately show ?thesis by (simp add: plan_ok_def)
qed

context kv_store
begin

lemma plan_slice:
  assumes rep: "rep R t (dc_dataset_id d) cs" and plan: "prepare_merge_plan R T d t = Inr ms"
  shows "plan_ok T d ms \<and> (\<exists>pre post. cs = pre @ ms @ post)"
proof -
  let ?xs = "take MERGE_HORIZON (rev cs)" and ?pre = "take (length cs - MERGE_HORIZON) cs"
  have cs: "cs = ?pre @ rev ?xs" by (simp add: take_rev)
  have sorted: "chunks_sorted (?pre @ rev ?xs)" using repD(2) [OF rep] cs by simp
  let ?rest = "\<lambda>s. list_chunks R t (dc_dataset_id d) (ps_first_applicable s) None"
  obtain s where s: "scan_loop T d 0 (map Inr (rev cs)) ps_init = Inr s"
    and p: "(let (sk, tk) = select_range d (rev (map rev (ps_runs s))) 0 in collect_results (take tk (drop sk (?rest s)))) = Inr ms"
    using plan unfolding prepare_merge_plan_def by (auto simp: list_chunks_rev_rep [OF rep])
  obtain sk tk where sel: "select_range d (rev (map rev (ps_runs s))) 0 = (sk, tk)" by fastforce
  have ms: "collect_results (take tk (drop sk (?rest s))) = Inr ms" using p sel by simp
  have sc: "scanned T (dc_max_chunk_size d) ?xs s" using scan_loop_scanned [OF scanned_init s] by simp
  have "filter (\<lambda>c. ps_first_applicable s \<le> last_block c) cs = rev ?xs"
  proof (cases "cs = []")
    case False
    then have ne: "rev ?xs \<noteq> []" by (simp add: MERGE_HORIZON_def)
    then have fa: "ps_first_applicable s = first_block (hd (rev ?xs))" using sc by (simp add: scanned_def hd_rev)
    have "\<not> first_block (hd (rev ?xs)) \<le> last_block x" if "x \<in> set ?pre" for x
      using sorted ne that hd_in_set [OF ne] by (fastforce simp: chunks_sorted_append)
    moreover have "first_block (hd (rev ?xs)) \<le> last_block x" if x: "x \<in> set (rev ?xs)" for x
    proof -
      have so: "chunks_sorted (rev ?xs)" using sorted by (simp add: chunks_sorted_append)
      show ?thesis using sorted_first [OF so x] chunks_sortedD [OF so x] by (rule order_trans)
    qed
    ultimately have "filter (\<lambda>c. ps_first_applicable s \<le> last_block c) (?pre @ rev ?xs) = rev ?xs"
      unfolding filter_append fa by (simp add: filter_empty_conv filter_id_conv)
    then show ?thesis using cs by simp
  qed simp
  then have slice: "ms = take tk (drop sk (rev ?xs))"
    using ms by (simp add: list_chunks_rep [OF rep] take_map drop_map collect_results_Inr)
  then have "cs = (?pre @ take sk (rev ?xs)) @ ms @ drop tk (drop sk (rev ?xs))"
    using cs by (simp only: append_assoc append_take_drop_id)
  moreover have "plan_ok T d ms" unfolding slice by (rule selected_slice [OF sc _ sel]) simp
  ultimately show ?thesis by blast
qed

end

end
