(* ===== verification/MergePrepare.thy ===== *)
theory MergePrepare
  imports TableMerge
begin

text \<open>
  Preparing a table merge (\<open>TableMerge::prepare\<close>): when the schemas of the chunks merge pairwise, the fold
  of the schema merge over the chunks succeeds, and every type of every chunk widens to the type of the
  column in the merged schema.
\<close>

section \<open>Preparing a merge\<close>

text \<open>The types that the schema merge leaves below a target type.\<close>

definition narrow :: "data_type \<Rightarrow> data_type \<Rightarrow> bool" where
  "narrow x t \<longleftrightarrow> x = t \<or> castable x t \<or> (\<exists>n m u v i. x = DList (Field n i u) \<and> t = DList (Field m i v))"

lemma data_types_equal_refl [simp]: "data_types_equal a a"
  by (cases "(a, a)" rule: data_types_equal.cases) auto

lemma narrow_widens: "narrow x t \<Longrightarrow> widens x t"
  by (auto simp: narrow_def widens_def)

lemma join_index: "common_index a b = Some w \<Longrightarrow> a \<noteq> b \<Longrightarrow> join_type a b = w"
  by (cases a; cases b) (auto simp: join_type_def common_type_other)

lemma join_list:
  assumes "common_index x y = Some w"
  obtains k q where "join_type (DList (Field n x u)) (DList (Field m y v)) = DList (Field k w q)"
proof (cases "DList (Field n x u) = DList (Field m y v)")
  case True
  then have "w = x" using assms by (cases x) (auto simp: common_index_def)
  then show ?thesis using that True by (simp add: join_type_def)
next
  case False
  then have "join_type (DList (Field n x u)) (DList (Field m y v)) = DList (Field n w (u \<or> v))"
    using assms by (auto simp: join_type_def common_type_simps)
  then show ?thesis by (rule that)
qed

lemma castable_simps [simp]:
  "castable DUInt16 t \<longleftrightarrow> t = DUInt32" "castable DUInt32 t \<longleftrightarrow> t = DUInt64" "\<not> castable DUInt64 t" "\<not> castable (DOther o') t"
  "castable (DList (Field n i u)) t \<longleftrightarrow> i = DUInt16 \<and> (\<exists>m v. t = DList (Field m DUInt32 v))"
  by (auto elim: castable.cases intro: castable.intros)

lemma narrow_simps [simp]:
  "narrow DUInt16 t \<longleftrightarrow> t = DUInt16 \<or> t = DUInt32" "narrow DUInt32 t \<longleftrightarrow> t = DUInt32 \<or> t = DUInt64" "narrow DUInt64 t \<longleftrightarrow> t = DUInt64"
  "narrow (DOther o') t \<longleftrightarrow> t = DOther o'"
  "narrow (DList (Field n i u)) t \<longleftrightarrow> (\<exists>m v. t = DList (Field m i v) \<or> i = DUInt16 \<and> t = DList (Field m DUInt32 v))"
  by (auto simp: narrow_def)

lemma narrow_self [simp]: "narrow t t"
  by (simp add: narrow_def)

lemma compat_lists: "compat (DList (Field n a u)) (DList (Field m b v)) \<longleftrightarrow> (n = m \<and> a = b \<and> u = v) \<or> common_index a b \<noteq> None"
  by (auto simp: compat_def common_type_simps)

lemma compat_other: "\<not> (\<exists>f g. a = DList f \<and> b = DList g) \<Longrightarrow> compat a b \<longleftrightarrow> a = b \<or> common_index a b \<noteq> None"
  by (auto simp: compat_def common_type_other)

lemma narrow_join:
  assumes x: "narrow x t" and tz: "compat t z" and xz: "compat x z"
    and items: "list_items_ok x" "list_items_ok t" "list_items_ok z"
  shows "narrow x (join_type t z) \<and> list_items_ok (join_type t z)"
  using tz
proof (cases rule: compat_elim)
  case 1
  then show ?thesis using x items by (simp add: join_type_def)
next
  case 2
  then obtain w where w: "common_index t z = Some w" by auto
  show ?thesis
  proof (cases "t = z")
    case True
    then show ?thesis using x items by (simp add: join_type_def)
  next
    case False
    have j: "join_type t z = w" by (rule join_index [OF w False])
    have "x = t \<or> castable x t" using x w by (auto simp: narrow_def)
    moreover have "compat x z \<longleftrightarrow> x = z \<or> common_index x z \<noteq> None" using w by (intro compat_other) auto
    ultimately show ?thesis unfolding j using w xz False
      by (cases t; cases z; cases x) (auto simp: common_index_def list_items_ok_def elim: castable.cases)
  qed
next
  case (3 n a u m b v)
  then obtain w where w: "common_index a b = Some w" by auto
  obtain k q where j: "join_type t z = DList (Field k w q)" using join_list [OF w] 3 by metis
  obtain n' c u' where c: "x = DList (Field n' c u')" "c = a \<or> c = DUInt16 \<and> a = DUInt32"
    using x 3(1) unfolding narrow_def by (auto elim!: castable.cases)
  have "common_index c b \<noteq> None"
    using xz c 3 w common_index_self [of a b] by (auto simp: compat_lists)
  then show ?thesis using c w items 3 unfolding j
    by (cases a; cases b) (auto simp: common_index_def list_items_ok_def)
qed

lemma narrow_new:
  assumes "compat t z" "list_items_ok t" "list_items_ok z"
  shows "narrow z (join_type t z)"
  using assms(1)
proof (cases rule: compat_elim)
  case 1
  then show ?thesis by (simp add: join_type_def)
next
  case 2
  then obtain w where w: "common_index t z = Some w" by auto
  then show ?thesis
    using join_index [OF w] by (cases "t = z"; cases t; cases z) (auto simp: common_index_def join_type_def)
next
  case (3 n a u m b v)
  then obtain w where w: "common_index a b = Some w" by auto
  obtain k q where j: "join_type t z = DList (Field k w q)" using join_list [OF w] 3 by metis
  show ?thesis using w assms(2,3) 3 unfolding j by (cases a; cases b) (auto simp: common_index_def list_items_ok_def)
qed


lemma merge_field_list_names:
  "merge_field_list gs p = Inr p' \<Longrightarrow>
     map field_name (patch_fields p') = map field_name (patch_fields p) \<and> patch_metadata p' = patch_metadata p"
proof (induction gs p arbitrary: p' rule: merge_field_list.induct)
  case (2 g gs p)
  obtain bi bf where b: "find_by_name p (field_name g) = Some (bi, bf)"
    using 2(3) by (cases "find_by_name p (field_name g)") auto
  show ?case
  proof (cases "bf = g")
    case True
    then show ?thesis using 2(1) [of "(bi, bf)" bi bf] 2(3) b by simp
  next
    case False
    obtain nf where nf: "merge_fields bf g = Inr (Some nf)" using 2(3) b False by (auto simp: ok_or_def split: option.splits)
    then obtain p1 where p1: "set_field bi nf p = Inr p1" "merge_field_list gs p1 = Inr p'"
      using 2(3) b False by (auto simp: ok_or_def split: option.splits)
    have "field_name nf = field_name bf" using nf by (auto simp: merge_fields_def ensure_def split: if_splits)
    moreover have "patch_fields p ! bi = bf" using find_index_find [OF b [unfolded find_by_name_def]] by simp
    ultimately have "map field_name (patch_fields p1) = map field_name (patch_fields p)"
      using patch_set_field [OF p1(1)] by (simp add: map_update list_update_same_conv)
    then show ?thesis
      using 2(2) [of "(bi, bf)" bi bf "Some nf" nf p1 p'] b False nf p1 patch_set_field(3) [OF p1(1)] by simp
  qed
qed simp


definition mergeable :: "source_table list \<Rightarrow> bool" where
  "mergeable ts \<longleftrightarrow> (\<forall>a\<in>set ts. \<forall>b\<in>set ts. can_merge_schemas (st_schema a) (st_schema b))"

text \<open>The field of a name in a table, and the agreement of two lists of fields by name.\<close>

definition agree :: "field list \<Rightarrow> field list \<Rightarrow> bool" where
  "agree fs gs \<longleftrightarrow> length fs = length gs \<and>
     (\<forall>n. case field_of fs n of
        None \<Rightarrow> field_of gs n = None
      | Some f \<Rightarrow> \<exists>g. field_of gs n = Some g \<and> compat (field_type f) (field_type g))"

lemma field_of_mem: "distinct (map field_name fs) \<Longrightarrow> f \<in> set fs \<Longrightarrow> field_of fs (field_name f) = Some f"
  unfolding field_of_def by (induction fs) (auto simp: image_iff)

lemma field_of_None: "field_of fs n = None \<longleftrightarrow> n \<notin> field_name ` set fs"
  by (auto simp: field_of_def find_None_iff)

lemma can_merge_agree:
  assumes "can_merge_schemas a b" and "distinct (map field_name (schema_fields a))" "distinct (map field_name (schema_fields b))"
  shows "agree (schema_fields a) (schema_fields b)"
proof (cases "a = b")
  case True
  then show ?thesis by (auto simp: agree_def split: option.splits)
next
  case False
  let ?A = "schema_fields a" and ?B = "schema_fields b"
  have len: "length ?A = length ?B" and all: "\<forall>g\<in>set ?B. case field_of ?A (field_name g) of
      Some f \<Rightarrow> field_type f = field_type g \<or> common_item_index_type (field_type f) (field_type g) \<noteq> None | None \<Rightarrow> False"
    using assms(1) False by (auto simp: can_merge_schemas_def list_all_iff field_of_def split: sum.splits)
  have "field_name ` set ?B \<subseteq> field_name ` set ?A"
  proof
    fix n
    assume "n \<in> field_name ` set ?B"
    then obtain g where g: "g \<in> set ?B" "n = field_name g" by blast
    have "field_of ?A n \<noteq> None" using bspec [OF all g(1)] g(2) by (cases "field_of ?A n") simp_all
    then show "n \<in> field_name ` set ?A" by (simp add: field_of_None)
  qed
  moreover have "card (field_name ` set ?A) = card (field_name ` set ?B)"
    using assms(2,3) len distinct_card [of "map field_name ?A"] distinct_card [of "map field_name ?B"] by simp
  ultimately have names: "field_name ` set ?B = field_name ` set ?A"
    by (intro card_subset_eq finite_imageI finite_set) simp_all
  show ?thesis
    unfolding agree_def
  proof (intro conjI allI len)
    fix n
    show "case field_of ?A n of None \<Rightarrow> field_of ?B n = None
        | Some f \<Rightarrow> \<exists>g. field_of ?B n = Some g \<and> compat (field_type f) (field_type g)"
    proof (cases "field_of ?A n")
      case None
      then have "field_of ?B n = None" using names by (simp only: field_of_None not_False_eq_True simp_thms)
      then show ?thesis using None by simp
    next
      case (Some f)
      then obtain g where g: "field_of ?B n = Some g" using names field_of_None [of ?A n] field_of_None [of ?B n] by (cases "field_of ?B n") simp_all
      have gB: "g \<in> set ?B" "field_name g = n" using field_of_name [OF g] by simp_all
      show ?thesis using bspec [OF all gB(1)] gB(2) Some g by (simp add: compat_def)
    qed
  qed
qed

lemma agree_at:
  "agree fs gs \<Longrightarrow>
    (case field_of fs n of None \<Rightarrow> field_of gs n = None | Some f \<Rightarrow> \<exists>g. field_of gs n = Some g \<and> compat (field_type f) (field_type g))"
  by (simp add: agree_def)

lemma agreeD:
  assumes "agree fs gs" and "field_of fs n = Some f"
  obtains g where "field_of gs n = Some g" "compat (field_type f) (field_type g)"
  using agree_at [OF assms(1), of n] assms(2) that by auto

lemma agree_None: "agree fs gs \<Longrightarrow> field_of fs n = None \<Longrightarrow> field_of gs n = None"
  using agree_at [of fs gs n] by simp

lemma agree_fields_compat:
  assumes a: "agree fs gs" and d: "distinct (map field_name gs)"
  shows "fields_compat fs gs"
  unfolding fields_compat_def
proof
  fix g
  assume g: "g \<in> set gs"
  have "field_of gs (field_name g) = Some g" by (rule field_of_mem [OF d g])
  then show "\<exists>f. field_of fs (field_name g) = Some f \<and> compat (field_type f) (field_type g)"
    using agree_at [OF a, of "field_name g"] by (cases "field_of fs (field_name g)") simp_all
qed

lemma merge_schema_ok:
  assumes agree: "agree (patch_fields p) (schema_fields s)" and d: "distinct (map field_name (schema_fields s))"
  obtains p' where "merge_schema p s = Inr p'" "map field_name (patch_fields p') = map field_name (patch_fields p)"
    "patch_metadata p' = patch_metadata p"
    "\<And>n f g. field_of (patch_fields p) n = Some f \<Longrightarrow> field_of (schema_fields s) n = Some g \<Longrightarrow>
       \<exists>f'. field_of (patch_fields p') n = Some f' \<and> field_type f' = join_type (field_type f) (field_type g)"
proof (cases "patch_fields p = schema_fields s")
  case True
  then show ?thesis using that [of p] by (simp add: merge_schema_def join_type_def)
next
  case False
  obtain p' where p': "merge_field_list (schema_fields s) p = Inr p'" and spec: "\<And>n. case field_of (patch_fields p) n of
       None \<Rightarrow> field_of (patch_fields p') n = None
     | Some f \<Rightarrow> \<exists>f'. field_of (patch_fields p') n = Some f' \<and>
         field_type f' = (case field_of (schema_fields s) n of Some g \<Rightarrow> join_type (field_type f) (field_type g) | None \<Rightarrow> field_type f)"
    using merge_field_list_ok [OF d agree_fields_compat [OF agree d]] by auto
  show ?thesis
  proof (rule that [of p'])
    show "merge_schema p s = Inr p'" using False p' by (simp add: merge_schema_def)
    show "map field_name (patch_fields p') = map field_name (patch_fields p)" "patch_metadata p' = patch_metadata p"
      using merge_field_list_names [OF p'] by auto
    show "\<exists>f'. field_of (patch_fields p') n = Some f' \<and> field_type f' = join_type (field_type f) (field_type g)"
      if "field_of (patch_fields p) n = Some f" "field_of (schema_fields s) n = Some g" for n f g
      using spec [of n] that by simp
  qed
qed


text \<open>The types of the chunks that are still to be merged, at one column name.\<close>

definition types_at :: "string \<Rightarrow> source_table list \<Rightarrow> data_type set" where
  "types_at n ts = {field_type g | t g. t \<in> set ts \<and> field_of (schema_fields (st_schema t)) n = Some g}"

lemma field_items_ok: "source_ok t \<Longrightarrow> field_of (schema_fields (st_schema t)) n = Some g \<Longrightarrow> list_items_ok (field_type g)"
  using field_of_name [of "schema_fields (st_schema t)" n g] source_col(4) [of t]
  by (auto simp: in_set_conv_nth)

text \<open>One step of the schema merge: what it does at every name, and that it still agrees with the other chunks.\<close>

lemma merge_schema_step:
  assumes s: "agree (patch_fields p) (schema_fields s)" "distinct (map field_name (schema_fields s))"
  obtains p1 where "merge_schema p s = Inr p1" "map field_name (patch_fields p1) = map field_name (patch_fields p)"
    "patch_metadata p1 = patch_metadata p"
    "\<And>n f1. field_of (patch_fields p1) n = Some f1 \<Longrightarrow>
       \<exists>f g. field_of (patch_fields p) n = Some f \<and> field_of (schema_fields s) n = Some g \<and>
         compat (field_type f) (field_type g) \<and> field_type f1 = join_type (field_type f) (field_type g)"
    "\<And>n. field_of (patch_fields p1) n = None \<longleftrightarrow> field_of (patch_fields p) n = None"
proof -
  obtain p1 where p1: "merge_schema p s = Inr p1" "map field_name (patch_fields p1) = map field_name (patch_fields p)"
      "patch_metadata p1 = patch_metadata p"
    and spec: "\<And>n f g. field_of (patch_fields p) n = Some f \<Longrightarrow> field_of (schema_fields s) n = Some g \<Longrightarrow>
       \<exists>f'. field_of (patch_fields p1) n = Some f' \<and> field_type f' = join_type (field_type f) (field_type g)"
    by (rule merge_schema_ok [OF s]) blast
  have none: "field_of (patch_fields p1) n = None \<longleftrightarrow> field_of (patch_fields p) n = None" for n
    unfolding field_of_None using p1(2) by (metis list.set_map)
  have "\<exists>f g. field_of (patch_fields p) n = Some f \<and> field_of (schema_fields s) n = Some g \<and>
      compat (field_type f) (field_type g) \<and> field_type f1 = join_type (field_type f) (field_type g)"
    if f1: "field_of (patch_fields p1) n = Some f1" for n f1
  proof -
    obtain f where f: "field_of (patch_fields p) n = Some f" using f1 none [of n] by (cases "field_of (patch_fields p) n") auto
    obtain g where g: "field_of (schema_fields s) n = Some g" "compat (field_type f) (field_type g)" by (rule agreeD [OF s(1) f])
    then show ?thesis using f spec [OF f g(1)] f1 by auto
  qed
  then show thesis using that p1 none by blast
qed

lemma agree_step:
  assumes names: "map field_name fs1 = map field_name fs"
    and step: "\<And>n f1. field_of fs1 n = Some f1 \<Longrightarrow>
       \<exists>f g. field_of fs n = Some f \<and> field_of gs n = Some g \<and> compat (field_type f) (field_type g) \<and>
         field_type f1 = join_type (field_type f) (field_type g)"
    and none: "\<And>n. field_of fs1 n = None \<longleftrightarrow> field_of fs n = None"
    and u: "agree fs us" "agree gs us"
  shows "agree fs1 us"
  unfolding agree_def
proof (intro conjI allI)
  show "length fs1 = length us" using names u(1) by (metis agree_def length_map)
  fix n
  show "case field_of fs1 n of None \<Rightarrow> field_of us n = None
      | Some f \<Rightarrow> \<exists>g. field_of us n = Some g \<and> compat (field_type f) (field_type g)"
  proof (cases "field_of fs1 n")
    case None
    then show ?thesis using none [of n] agree_None [OF u(1), of n] by simp
  next
    case (Some f1)
    obtain f g where fg: "field_of fs n = Some f" "field_of gs n = Some g" "compat (field_type f) (field_type g)"
      "field_type f1 = join_type (field_type f) (field_type g)" using step [OF Some] by blast
    obtain h where h: "field_of us n = Some h" "compat (field_type f) (field_type h)" by (rule agreeD [OF u(1) fg(1)])
    obtain h' where "field_of us n = Some h'" "compat (field_type g) (field_type h')" by (rule agreeD [OF u(2) fg(2)])
    then have "compat (field_type f1) (field_type h)" unfolding fg(4) using compat_join [OF fg(3) _ h(2)] h(1) by simp
    then show ?thesis using Some h(1) by simp
  qed
qed

text \<open>Every type at or below the current type of a name stays below it, and so do the types of the chunks.\<close>

definition absorbs :: "source_table list \<Rightarrow> schema_patch \<Rightarrow> schema_patch \<Rightarrow> bool" where
  "absorbs ts p p' \<longleftrightarrow>
    (\<forall>n f. field_of (patch_fields p) n = Some f \<longrightarrow>
       (\<exists>f'. field_of (patch_fields p') n = Some f' \<and>
          (\<forall>x. narrow x (field_type f) \<and> list_items_ok x \<and> (\<forall>y\<in>types_at n ts. compat x y) \<longrightarrow> narrow x (field_type f')) \<and>
          (\<forall>y\<in>types_at n ts. narrow y (field_type f'))))"

lemma absorbsD:
  assumes "absorbs ts p p'" and "field_of (patch_fields p) n = Some f"
  obtains f' where "field_of (patch_fields p') n = Some f'"
    "\<And>x. narrow x (field_type f) \<Longrightarrow> list_items_ok x \<Longrightarrow> (\<forall>y\<in>types_at n ts. compat x y) \<Longrightarrow> narrow x (field_type f')"
    "\<And>y. y \<in> types_at n ts \<Longrightarrow> narrow y (field_type f')"
  using assms unfolding absorbs_def by blast

lemma types_at_compat:
  assumes "\<forall>u\<in>set ts. agree gs (schema_fields (st_schema u))" and "field_of gs n = Some g"
  shows "\<forall>y\<in>types_at n ts. compat (field_type g) y"
proof
  fix y
  assume "y \<in> types_at n ts"
  then obtain u h where u: "u \<in> set ts" "field_of (schema_fields (st_schema u)) n = Some h" "y = field_type h" by (auto simp: types_at_def)
  obtain h' where "field_of (schema_fields (st_schema u)) n = Some h'" "compat (field_type g) (field_type h')"
    using agreeD [OF _ assms(2)] assms(1) u(1) by blast
  then show "compat (field_type g) y" using u by simp
qed

lemma absorbs_step:
  assumes step: "\<And>n f1. field_of (patch_fields p1) n = Some f1 \<Longrightarrow>
       \<exists>f g. field_of (patch_fields p) n = Some f \<and> field_of (schema_fields (st_schema t)) n = Some g \<and>
         compat (field_type f) (field_type g) \<and> field_type f1 = join_type (field_type f) (field_type g)"
    and none: "\<And>n. field_of (patch_fields p1) n = None \<longleftrightarrow> field_of (patch_fields p) n = None"
    and items: "\<forall>n f. field_of (patch_fields p) n = Some f \<longrightarrow> list_items_ok (field_type f)" "source_ok t"
    and ts: "\<forall>u\<in>set ts. agree (schema_fields (st_schema t)) (schema_fields (st_schema u))"
    and rest: "absorbs ts p1 p'"
  shows "absorbs (t # ts) p p'"
  unfolding absorbs_def
proof (intro allI impI)
  fix n f
  assume f: "field_of (patch_fields p) n = Some f"
  obtain f1 where f1: "field_of (patch_fields p1) n = Some f1" using f none [of n] by (cases "field_of (patch_fields p1) n") auto
  obtain g where g: "field_of (schema_fields (st_schema t)) n = Some g" "compat (field_type f) (field_type g)"
    "field_type f1 = join_type (field_type f) (field_type g)" using step [OF f1] f by auto
  have ok: "list_items_ok (field_type f)" "list_items_ok (field_type g)" using items(1) f field_items_ok [OF items(2) g(1)] by blast+
  obtain f' where f': "field_of (patch_fields p') n = Some f'"
    "\<And>x. narrow x (field_type f1) \<Longrightarrow> list_items_ok x \<Longrightarrow> (\<forall>y\<in>types_at n ts. compat x y) \<Longrightarrow> narrow x (field_type f')"
    "\<And>y. y \<in> types_at n ts \<Longrightarrow> narrow y (field_type f')" by (rule absorbsD [OF rest f1]) blast
  have types: "types_at n (t # ts) = insert (field_type g) (types_at n ts)" using g(1) by (auto simp: types_at_def)
  have "narrow (field_type g) (field_type f1)" unfolding g(3) by (rule narrow_new [OF g(2) ok])
  then have new: "narrow (field_type g) (field_type f')" by (rule f'(2) [OF _ ok(2) types_at_compat [OF ts g(1)]])
  have old: "narrow x (field_type f')" if x: "narrow x (field_type f)" "list_items_ok x" "\<forall>y\<in>types_at n (t # ts). compat x y" for x
  proof -
    have "narrow x (field_type f1)" unfolding g(3) using narrow_join [OF x(1) g(2) _ x(2) ok] x(3) types by simp
    then show ?thesis using f'(2) x(2,3) types by simp
  qed
  show "\<exists>f'. field_of (patch_fields p') n = Some f' \<and>
      (\<forall>x. narrow x (field_type f) \<and> list_items_ok x \<and> (\<forall>y\<in>types_at n (t # ts). compat x y) \<longrightarrow> narrow x (field_type f')) \<and>
      (\<forall>y\<in>types_at n (t # ts). narrow y (field_type f'))"
    using f'(1,3) old new types by (intro exI [of _ f']) auto
qed

lemma merge_schemas_ok:
  assumes "\<forall>t\<in>set ts. source_ok t \<and> agree (patch_fields p) (schema_fields (st_schema t))"
    and "\<forall>a\<in>set ts. \<forall>b\<in>set ts. agree (schema_fields (st_schema a)) (schema_fields (st_schema b))"
    and "\<forall>n f. field_of (patch_fields p) n = Some f \<longrightarrow> list_items_ok (field_type f)"
  shows "\<exists>p'. merge_schemas ts p = Inr p' \<and> map field_name (patch_fields p') = map field_name (patch_fields p) \<and>
    patch_metadata p' = patch_metadata p \<and> absorbs ts p p'"
  using assms
proof (induction ts arbitrary: p)
  case Nil
  then show ?case by (simp add: types_at_def absorbs_def)
next
  case (Cons t ts)
  let ?s = "st_schema t"
  have t: "source_ok t" "agree (patch_fields p) (schema_fields ?s)" "distinct (map field_name (schema_fields ?s))"
    using Cons.prems(1) by (simp_all add: source_ok_def)
  have ts: "\<forall>u\<in>set ts. agree (schema_fields ?s) (schema_fields (st_schema u))" using Cons.prems(2) by simp
  obtain p1 where p1: "merge_schema p ?s = Inr p1" "map field_name (patch_fields p1) = map field_name (patch_fields p)"
      "patch_metadata p1 = patch_metadata p"
    and step: "\<And>n f1. field_of (patch_fields p1) n = Some f1 \<Longrightarrow>
       \<exists>f g. field_of (patch_fields p) n = Some f \<and> field_of (schema_fields ?s) n = Some g \<and>
         compat (field_type f) (field_type g) \<and> field_type f1 = join_type (field_type f) (field_type g)"
    and none: "\<And>n. field_of (patch_fields p1) n = None \<longleftrightarrow> field_of (patch_fields p) n = None"
    by (rule merge_schema_step [OF t(2,3)]) blast
  have "\<forall>u\<in>set ts. source_ok u \<and> agree (patch_fields p1) (schema_fields (st_schema u))"
    using agree_step [OF p1(2) step none] Cons.prems(1) ts by auto
  moreover have "list_items_ok (field_type f1)" if f1: "field_of (patch_fields p1) n = Some f1" for n f1
  proof -
    obtain f g where fg: "field_of (patch_fields p) n = Some f" "field_of (schema_fields ?s) n = Some g"
      "compat (field_type f) (field_type g)" "field_type f1 = join_type (field_type f) (field_type g)" using step [OF f1] by blast
    have "list_items_ok (field_type f)" "list_items_ok (field_type g)"
      using Cons.prems(3) fg(1) field_items_ok [OF t(1) fg(2)] by blast+
    then show ?thesis unfolding fg(4) using narrow_join [OF narrow_self fg(3) fg(3)] by blast
  qed
  ultimately obtain p' where p': "merge_schemas ts p1 = Inr p'" "map field_name (patch_fields p') = map field_name (patch_fields p1)"
      "patch_metadata p' = patch_metadata p1" "absorbs ts p1 p'"
    using Cons.IH [of p1] Cons.prems(2) by auto
  have "absorbs (t # ts) p p'" by (rule absorbs_step [OF step none Cons.prems(3) t(1) ts p'(4)])
  then show ?case using p1 p' by (intro exI [of _ p']) simp
qed


definition stats_ok :: "source_table \<Rightarrow> bool" where
  "stats_ok t \<longleftrightarrow> (\<forall>i < length (schema_fields (st_schema t)). \<exists>b. st_stats t i = Inr b)"

definition inputs_ok :: "source_table list \<Rightarrow> nat list \<Rightarrow> bool" where
  "inputs_ok ts key \<longleftrightarrow> ts \<noteq> [] \<and> (\<forall>t\<in>set ts. source_ok t) \<and> mergeable ts \<and>
     stats_ok (last ts) \<and> get_sort_key (st_schema (last ts)) = Inr key"

lemma collect_stats_ok: "\<forall>i\<in>set is. \<exists>b. st_stats t i = Inr b \<Longrightarrow> \<exists>r. collect_stats t is = Inr r"
proof (induction "is")
  case (Cons i "is")
  then obtain b r where "st_stats t i = Inr b" "collect_stats t is = Inr r" by auto
  then show ?case by simp
qed simp

lemma agree_refl [simp]: "agree fs fs"
  by (auto simp: agree_def split: option.splits)

lemma col_named_field_of:
  assumes "field_of (schema_fields (st_schema t)) n = Some g"
  obtains k where "col_named t n = Some (k, g)"
  using find_find_index [OF assms [unfolded field_of_def]] that by (auto simp: col_named_def)

lemma prepare_ok:
  assumes "inputs_ok ts key"
  obtains m where "tm_prepare ts = Inr m" "tm_chunks m = ts" "tm_sort_key m = key" "fits m"
    "map field_name (schema_fields (tm_schema m)) = map field_name (schema_fields (st_schema (last ts)))"
proof -
  let ?l = "last ts"
  let ?p = "patch_new (strip_unknown_metadata (st_schema ?l))"
  have ne: "ts \<noteq> []" and src: "\<forall>t\<in>set ts. source_ok t" using assms by (simp_all add: inputs_ok_def)
  have pf: "patch_fields ?p = schema_fields (st_schema ?l)" by (simp add: strip_simps)
  have rev: "set (tl (rev ts)) \<subseteq> set ts" "set ts = insert ?l (set (tl (rev ts)))"
    using ne by (cases ts rule: rev_cases; auto)+
  have agree: "agree (schema_fields (st_schema a)) (schema_fields (st_schema b))" if ab: "a \<in> set ts" "b \<in> set ts" for a b
  proof (rule can_merge_agree)
    show "can_merge_schemas (st_schema a) (st_schema b)" using assms ab by (simp add: inputs_ok_def mergeable_def)
    show "distinct (map field_name (schema_fields (st_schema a)))" "distinct (map field_name (schema_fields (st_schema b)))"
      using src ab by (simp_all add: source_ok_def)
  qed
  have l: "?l \<in> set ts" using ne by simp
  have items: "\<forall>n f. field_of (patch_fields ?p) n = Some f \<longrightarrow> list_items_ok (field_type f)"
    unfolding pf using field_items_ok [OF bspec [OF src l]] by simp
  have all: "\<forall>t\<in>set (tl (rev ts)). source_ok t \<and> agree (patch_fields ?p) (schema_fields (st_schema t))"
  proof
    fix t
    assume "t \<in> set (tl (rev ts))"
    then have "t \<in> set ts" using rev(1) by (rule rev_subsetD)
    then show "source_ok t \<and> agree (patch_fields ?p) (schema_fields (st_schema t))" unfolding pf using src agree [OF l] by simp
  qed
  have pairs: "\<forall>a\<in>set (tl (rev ts)). \<forall>b\<in>set (tl (rev ts)). agree (schema_fields (st_schema a)) (schema_fields (st_schema b))"
    using agree rev(1) by (simp add: subset_iff)
  obtain p' where p': "merge_schemas (tl (rev ts)) ?p = Inr p'" "map field_name (patch_fields p') = map field_name (patch_fields ?p)"
      "patch_metadata p' = patch_metadata ?p" "absorbs (tl (rev ts)) ?p p'"
    using merge_schemas_ok [OF all pairs items] by (elim exE conjE)
  obtain cols where cols: "collect_stats ?l [0..<length (schema_fields (st_schema ?l))] = Inr cols"
    using collect_stats_ok [of "[0..<length (schema_fields (st_schema ?l))]" ?l] assms by (auto simp: inputs_ok_def stats_ok_def)
  have len: "length (patch_fields p') = length (schema_fields (st_schema ?l))" using p'(2) pf by (metis length_map)
  have key: "get_sort_key (patch_finish p') = Inr key"
    unfolding get_sort_key_def patch_finish_simps p'(3) len
    using assms by (simp add: inputs_ok_def get_sort_key_def strip_simps)
  define m where "m = \<lparr>tm_chunks = ts, tm_schema = patch_finish p', tm_sort_key = key, tm_columns_with_stats = cols\<rparr>"
  have prep: "tm_prepare ts = Inr m" using ne p'(1) key cols by (simp add: tm_prepare_def m_def Let_def)
  have names: "map field_name (schema_fields (tm_schema m)) = map field_name (schema_fields (st_schema ?l))"
    using p'(2) pf by (simp add: m_def patch_finish_simps)
  have below: "\<exists>k g. col_named t (field_name f) = Some (k, g) \<and> widens (field_type g) (field_type f)"
    if t: "t \<in> set ts" and f: "f \<in> set (schema_fields (tm_schema m))" for t f
  proof -
    have "distinct (map field_name (schema_fields (tm_schema m)))" using names src l by (simp add: source_ok_def)
    then have f': "field_of (patch_fields p') (field_name f) = Some f"
      using field_of_mem f by (auto simp: m_def patch_finish_simps)
    then obtain f0 where f0: "field_of (schema_fields (st_schema ?l)) (field_name f) = Some f0"
      using names field_of_None [of "patch_fields p'" "field_name f"] field_of_None [of "schema_fields (st_schema ?l)" "field_name f"]
      by (cases "field_of (schema_fields (st_schema ?l)) (field_name f)") (simp_all add: m_def patch_finish_simps, metis list.set_map)
    obtain g where g: "field_of (schema_fields (st_schema t)) (field_name f) = Some g" by (rule agreeD [OF agree [OF l t] f0])
    have f0p: "field_of (patch_fields ?p) (field_name f) = Some f0" using f0 pf by simp
    obtain f'' where f'': "field_of (patch_fields p') (field_name f) = Some f''"
      and old: "\<And>x. narrow x (field_type f0) \<Longrightarrow> list_items_ok x \<Longrightarrow>
        (\<forall>y\<in>types_at (field_name f) (tl (rev ts)). compat x y) \<Longrightarrow> narrow x (field_type f'')"
      and new: "\<And>y. y \<in> types_at (field_name f) (tl (rev ts)) \<Longrightarrow> narrow y (field_type f'')"
      by (rule absorbsD [OF p'(4) f0p]) blast
    have same: "f'' = f" using f' f'' by simp
    have "narrow (field_type g) (field_type f)"
    proof (cases "t \<in> set (tl (rev ts))")
      case True
      then have "field_type g \<in> types_at (field_name f) (tl (rev ts))" using g by (auto simp: types_at_def)
      then show ?thesis using new same by simp
    next
      case False
      then have "g = f0" using t rev(2) g f0 by auto
      moreover have "list_items_ok (field_type f0)" using items f0p by simp
      moreover have "\<forall>y\<in>types_at (field_name f) (tl (rev ts)). compat (field_type f0) y"
        using types_at_compat [OF _ f0, of "tl (rev ts)"] agree [OF l] rev(1) by (simp add: subset_iff)
      ultimately show ?thesis using old [of "field_type f0"] same by simp
    qed
    moreover obtain k where "col_named t (field_name f) = Some (k, g)" by (rule col_named_field_of [OF g])
    ultimately show ?thesis using narrow_widens [of "field_type g" "field_type f"] by simp
  qed
  have "fits m"
    unfolding fits_def
  proof (intro ballI conjI)
    fix t
    assume "t \<in> set (tm_chunks m)"
    then have t: "t \<in> set ts" by (simp add: m_def)
    show "source_ok t" using src t by simp
    show "length (schema_fields (st_schema t)) = num_columns m"
      using agree [OF t l] len by (simp add: num_columns_def m_def patch_finish_simps agree_def)
    show "\<exists>k g. col_named t (field_name f) = Some (k, g) \<and> widens (field_type g) (field_type f)"
      if "f \<in> set (schema_fields (tm_schema m))" for f using below [OF t that] .
  qed
  then show thesis using that [of m] prep names by (simp add: m_def)
qed

end
