(* ===== verification/TableMergeProps.thy ===== *)
theory TableMergeProps
  imports MergePrepare "HOL-Library.Product_Lexorder"
begin

text \<open>
  Writing a table merge: the order of the rows, the unsorted and the sorted write, and the correctness
  of the merge as a whole.
\<close>

section \<open>Row order\<close>

definition order_ok :: "(nat \<Rightarrow> nat \<Rightarrow> ordering) \<Rightarrow> bool" where
  "order_ok c \<longleftrightarrow>
     (\<forall>a b. c a b = Greater \<longleftrightarrow> c b a = Less) \<and> (\<forall>a b d. c a b \<noteq> Greater \<longrightarrow> c b d \<noteq> Greater \<longrightarrow> c a d \<noteq> Greater)"

text \<open>The contract of \<open>slice::sort_unstable_by\<close>: a sorted permutation, for a total order.\<close>

definition sorts :: "sorter \<Rightarrow> bool" where
  "sorts S \<longleftrightarrow> (\<forall>c xs. order_ok c \<longrightarrow> mset (S c xs) = mset xs \<and> sorted_wrt (\<lambda>a b. c a b \<noteq> Greater) (S c xs))"

definition row_key :: "col list \<Rightarrow> nat \<Rightarrow> (bool \<times> int list) list" where
  "row_key cols i = map (\<lambda>c. if snd (c ! i) then (False, cell_key (fst (c ! i))) else (True, [])) cols"

lemma order_list_key: "order_list cols a b = cmp (row_key cols a) (row_key cols b)"
  by (induction cols) (auto simp: row_key_def cmp_def compare_cells_def less_prod_def split: if_splits)

lemma order_list_ok: "order_ok (order_list cols)"
  by (auto simp: order_ok_def order_list_key cmp_def split: if_splits)

section \<open>Writing columns\<close>

abbreviation target :: "table_merge \<Rightarrow> nat \<Rightarrow> field" where
  "target m i \<equiv> schema_fields (tm_schema m) ! i"

lemma write_columns_spec:
  assumes "distinct is" and "\<forall>i\<in>set is. i < length dst \<and> (\<forall>c. g i c = Inr (c @ F i))"
  shows "write_columns g is dst = Inr (map (\<lambda>j. dst ! j @ (if j \<in> set is then F j else [])) [0..<length dst])"
  using assms
proof (induction "is" arbitrary: dst)
  case Nil
  then show ?case by (simp add: map_nth)
next
  case (Cons i "is")
  let ?dst = "dst[i := dst ! i @ F i]"
  have i: "i < length dst" "g i (dst ! i) = Inr (dst ! i @ F i)" using Cons.prems(2) by simp_all
  have "write_columns g is ?dst = Inr (map (\<lambda>j. ?dst ! j @ (if j \<in> set is then F j else [])) [0..<length ?dst])"
    by (rule Cons.IH) (use Cons.prems in simp_all)
  moreover have "map (\<lambda>j. ?dst ! j @ (if j \<in> set is then F j else [])) [0..<length ?dst] =
      map (\<lambda>j. dst ! j @ (if j \<in> set (i # is) then F j else [])) [0..<length dst]"
    using Cons.prems(1) i(1) by (intro map_cong) (auto simp: nth_list_update)
  ultimately show ?case using i by (simp add: at_def)
qed

lemma merged_length:
  assumes "fits m" "i < num_columns m"
  shows "length (merged_column (tm_chunks m) (schema_fields (tm_schema m) ! i)) = sum_list (map st_num_rows (tm_chunks m))"
  using merged_column_ok(1) [OF assms(1)] assms(2) by (simp add: num_columns_def)

lemma unsorted_write_fits:
  assumes "fits m"
  shows "unsorted_write m (replicate (num_columns m) []) =
    Inr (map (\<lambda>i. merged_column (tm_chunks m) (schema_fields (tm_schema m) ! i)) [0..<num_columns m])"
proof -
  have "write_columns (read_unsorted_column m) [0..<num_columns m] (replicate (num_columns m) []) =
      Inr (map (\<lambda>j. replicate (num_columns m) [] ! j @
        (if j \<in> set [0..<num_columns m] then merged_column (tm_chunks m) (schema_fields (tm_schema m) ! j) else []))
        [0..<length (replicate (num_columns m) ([] :: col))])"
    by (rule write_columns_spec) (use read_unsorted_fit [OF assms] in simp_all)
  then show ?thesis by (simp add: unsorted_write_def cong: map_cong)
qed

section \<open>Reading ranges\<close>

lemma build_offsets_nth:
  fixes k :: nat
  shows "c \<le> length lens \<Longrightarrow> build_offsets k lens ! c = k + sum_list (take c lens)"
  by (induction lens arbitrary: k c) (auto simp: take_Cons' nth_Cons' Suc_le_eq)

lemma length_build_offsets [simp]: "length (build_offsets k lens) = Suc (length lens)"
  by (induction lens arbitrary: k) auto

lemma build_offsets_last:
  fixes k :: nat
  shows "last (build_offsets k lens) = k + sum_list lens"
proof -
  have "build_offsets k lens \<noteq> []" by (cases lens) simp_all
  then show ?thesis using build_offsets_nth [of "length lens" lens k] by (simp add: last_conv_nth)
qed

lemma build_offsets_strict:
  fixes k :: nat
  assumes "\<forall>l\<in>set lens. 0 < l"
  shows "sorted_wrt (<) (build_offsets k lens) \<and> (\<forall>o'\<in>set (build_offsets k lens). k \<le> o')"
  using assms
proof (induction lens arbitrary: k)
  case (Cons l lens)
  then show ?case using Cons.IH [of "k + l"] by fastforce
qed simp

lemma concat_slice:
  assumes "c < length cols" and "off + len \<le> length (cols ! c)"
  shows "take len (drop off (cols ! c)) =
    map ((!) (concat cols)) [sum_list (map length (take c cols)) + off ..< sum_list (map length (take c cols)) + off + len]"
proof -
  have "concat cols = concat (take c cols) @ cols ! c @ concat (drop (Suc c) cols)"
    using id_take_nth_drop [OF assms(1)] by (metis concat.simps(2) concat_append)
  moreover have "length (concat (take c cols)) = sum_list (map length (take c cols))" by (simp add: length_concat)
  ultimately show ?thesis using assms(2) by (intro nth_equalityI) (simp_all add: nth_append)
qed


text \<open>A reader of one chunk that yields the chunk's contribution to a target column.\<close>

definition reads :: "field \<Rightarrow> source_table \<Rightarrow> maybe_casted_reader \<Rightarrow> bool" where
  "reads f t r \<longleftrightarrow>
     (\<forall>off len dst. off + len \<le> st_num_rows t \<longrightarrow> mcr_read_slice r off len dst = Inr (dst @ take len (drop off (contribution f t))))"

lemma data_types_equal_sym: "data_types_equal a b \<Longrightarrow> data_types_equal b a"
  by (induction a b rule: data_types_equal.induct) auto

lemma make_readers_fit:
  assumes "fits m" and f: "f \<in> set (schema_fields (tm_schema m))" and "set ts \<subseteq> set (tm_chunks m)"
  shows "\<exists>rs. make_readers (field_type f) (zip ts (map (\<lambda>t. fst (the (col_named t (field_name f)))) ts)) = Inr rs \<and> list_all2 (reads f) ts rs"
  using assms(3)
proof (induction ts)
  case (Cons t ts)
  have t: "t \<in> set (tm_chunks m)" using Cons.prems by simp
  obtain k g where kg: "source_ok t" "col_named t (field_name f) = Some (k, g)" "widens (field_type g) (field_type f)"
    "contribution f t = conv (field_type g) (field_type f) (st_columns t ! k)" by (rule fitsD [OF assms(1) t f])
  obtain r where "create_maybe_casted_reader t k (field_type f) = Inr r" "reads f t r"
    using mcr_widen [OF kg(1) kg(2) [unfolded col_named_def] kg(3)] kg(4) unfolding reads_def by metis
  moreover obtain rs where "make_readers (field_type f) (zip ts (map (\<lambda>t. fst (the (col_named t (field_name f)))) ts)) = Inr rs"
    "list_all2 (reads f) ts rs" using Cons by auto
  ultimately show ?case using kg(2) by simp
qed simp

lemma plain_readers_fit:
  assumes "fits m" and f: "f \<in> set (schema_fields (tm_schema m))" and "set ts \<subseteq> set (tm_chunks m)"
    and "\<forall>t\<in>set ts. data_types_equal (field_type f) (field_type (schema_fields (st_schema t) ! fst (the (col_named t (field_name f)))))"
  shows "\<exists>rs. plain_readers (zip ts (map (\<lambda>t. fst (the (col_named t (field_name f)))) ts)) = Inr rs \<and> list_all2 (reads f) ts rs"
  using assms(3,4)
proof (induction ts)
  case (Cons t ts)
  have t: "t \<in> set (tm_chunks m)" using Cons.prems by simp
  obtain k g where kg: "col_named t (field_name f) = Some (k, g)"
    "contribution f t = conv (field_type g) (field_type f) (st_columns t ! k)" "length (st_columns t ! k) = st_num_rows t"
    "g = schema_fields (st_schema t) ! k" "k < length (st_columns t)" by (rule fitsD [OF assms(1) t f])
  have "data_types_equal (field_type g) (field_type f)" using Cons.prems(2) kg(1,4) data_types_equal_sym by simp
  then have "reads f t (Plain (st_columns t ! k))" using kg by (simp add: reads_def conv_def col_slice_def)
  moreover obtain rs where "plain_readers (zip ts (map (\<lambda>t. fst (the (col_named t (field_name f)))) ts)) = Inr rs"
    "list_all2 (reads f) ts rs" using Cons by auto
  ultimately show ?case using kg by (simp add: at_def)
qed simp

lemma read_ranges_fit:
  assumes readers: "list_all2 (reads f) ts readers" and len: "\<forall>t\<in>set ts. length (contribution f t) = st_num_rows t"
    and rs: "\<forall>r\<in>set rs. range_ok (build_offsets 0 (map st_num_rows ts)) False r"
  shows "read_ranges readers rs dst =
    Inr (dst @ map ((!) (merged_column ts f)) (concat (map (range_rows (build_offsets 0 (map st_num_rows ts)) False) rs)))"
  using rs
proof (induction rs arbitrary: dst)
  case (Cons r rs)
  let ?offs = "build_offsets 0 (map st_num_rows ts)"
  define c where "c = unat (cr_chunk r)"
  define off where "off = unat (cr_offset r)"
  define n where "n = unat (cr_len r)"
  have ok: "c + 1 < length ?offs" "0 < n" "\<forall>i\<in>set (range_rows ?offs False r). ?offs ! c \<le> i \<and> i < ?offs ! (c + 1)"
    using Cons.prems by (simp_all add: range_ok_def c_def n_def unat_gt_0 word_gt_0)
  have c: "c < length ts" using ok(1) by simp
  have rows: "range_rows ?offs False r = [?offs ! c + off ..< ?offs ! c + off + n]" by (simp add: range_rows_def Let_def c_def off_def n_def)
  have "?offs ! c + off + n - 1 \<in> set (range_rows ?offs False r)" unfolding rows using ok(2) by auto
  then have "?offs ! c + off + n - 1 < ?offs ! (c + 1)" using ok(3) by blast
  then have "?offs ! c + off + n \<le> ?offs ! (c + 1)" using ok(2) by linarith
  moreover have offs: "?offs ! c = sum_list (map st_num_rows (take c ts))" "?offs ! (c + 1) = ?offs ! c + st_num_rows (ts ! c)"
    using c by (simp_all add: build_offsets_nth take_map take_Suc_conv_app_nth)
  ultimately have fit: "off + n \<le> st_num_rows (ts ! c)" by linarith
  have read: "mcr_read_slice (readers ! c) off n dst = Inr (dst @ take n (drop off (contribution f (ts ! c))))"
    using list_all2_nthD [OF readers c] fit by (simp add: reads_def)
  have "map length (take c (map (contribution f) ts)) = map st_num_rows (take c ts)"
    using len by (auto simp: take_map dest: in_set_takeD)
  then have slice: "take n (drop off (contribution f (ts ! c))) = map ((!) (merged_column ts f)) (range_rows ?offs False r)"
    using concat_slice [of c "map (contribution f) ts" off n] c fit len offs(1) unfolding rows merged_column_def by simp
  have lr: "c < length readers" using c list_all2_lengthD [OF readers] by simp
  show ?case
    using Cons.IH [of "dst @ take n (drop off (contribution f (ts ! c)))"] Cons.prems read lr
    by (simp add: at_def c_def [symmetric] off_def [symmetric] n_def [symmetric] slice)
qed simp


lemma read_sorted_fit:
  assumes "fits m" and i: "i < num_columns m"
    and rs: "\<forall>r\<in>set rs. range_ok (build_offsets 0 (map st_num_rows (tm_chunks m))) False r"
    and order: "concat (map (range_rows (build_offsets 0 (map st_num_rows (tm_chunks m))) False) rs) = order"
  shows "read_sorted_column m i rs dst = Inr (dst @ map ((!) (merged_column (tm_chunks m) (schema_fields (tm_schema m) ! i))) order)"
proof -
  let ?f = "schema_fields (tm_schema m) ! i"
  let ?srcs = "zip (tm_chunks m) (map (\<lambda>t. fst (the (col_named t (field_name ?f)))) (tm_chunks m))"
  have f: "?f \<in> set (schema_fields (tm_schema m))" using i by (simp add: num_columns_def)
  have len: "\<forall>t\<in>set (tm_chunks m). length (contribution ?f t) = st_num_rows t" using contribution_ok(1) [OF assms(1) _ f] by blast
  have cols: "chunk_columns m i = Inr (map (\<lambda>t. fst (the (col_named t (field_name ?f)))) (tm_chunks m))"
    using chunk_columns_fit [OF assms(1) i, of "tm_chunks m"] i by (simp add: chunk_columns_def at_def num_columns_def)
  define needs where "needs \<longleftrightarrow> (\<exists>(t, ci)\<in>set ?srcs. \<not> data_types_equal (field_type ?f) (field_type (schema_fields (st_schema t) ! ci)))"
  obtain readers where readers: "(if needs then make_readers (field_type ?f) ?srcs else plain_readers ?srcs) = Inr readers"
    "list_all2 (reads ?f) (tm_chunks m) readers"
  proof (cases needs)
    case True
    then show ?thesis using make_readers_fit [OF assms(1) f, of "tm_chunks m"] that by auto
  next
    case False
    then have "\<forall>t\<in>set (tm_chunks m). data_types_equal (field_type ?f) (field_type (schema_fields (st_schema t) ! fst (the (col_named t (field_name ?f)))))"
      by (auto simp: needs_def zip_map2 zip_same_conv_map)
    then show ?thesis using plain_readers_fit [OF assms(1) f, of "tm_chunks m"] that False by auto
  qed
  have "read_ranges readers rs dst = Inr (dst @ map ((!) (merged_column (tm_chunks m) ?f)) order)"
    using read_ranges_fit [OF readers(2) len rs] order by simp
  then show ?thesis
    using i cols readers(1) by (simp add: read_sorted_column_def at_def num_columns_def Let_def needs_def)
qed

lemma read_sort_key_fit:
  assumes "fits m" and "\<forall>i\<in>set key. i < num_columns m"
  shows "read_sort_key_columns m key =
    Inr (map (\<lambda>i. (field_type (schema_fields (tm_schema m) ! i), merged_column (tm_chunks m) (schema_fields (tm_schema m) ! i))) key)"
  using assms(2)
proof (induction key)
  case (Cons i key)
  then show ?case using read_unsorted_fit [OF assms(1), of i] by (simp add: at_def num_columns_def)
qed simp

lemma rel_order_of_chunks:
  fixes ts :: "source_table list"
  assumes rows: "\<forall>t\<in>set ts. 0 < st_num_rows t" "sum_list (map st_num_rows ts) < 2 ^ 32" "length ts + 1 < 2 ^ 32"
    and "\<forall>i\<in>set order. i < last (build_offsets 0 (map st_num_rows ts))"
  obtains rs where "build_rel_order_list (build_offsets 0 (map st_num_rows ts)) order = Inr rs"
    "\<forall>r\<in>set rs. range_ok (build_offsets 0 (map st_num_rows ts)) False r"
    "concat (map (range_rows (build_offsets 0 (map st_num_rows ts)) False) rs) = order"
proof -
  let ?offs = "build_offsets 0 (map st_num_rows ts)"
  have "\<exists>rs. build_order_list ?offs order False = Inr rs \<and> (\<forall>r\<in>set rs. range_ok ?offs False r) \<and> concat (map (range_rows ?offs False) rs) = order"
  proof (rule build_order_list_spec)
    show "sorted_wrt (<) ?offs" using build_offsets_strict [of "map st_num_rows ts" 0] rows(1) by simp
    show "?offs \<noteq> []" by (cases "map st_num_rows ts") simp_all
    show "length ?offs < 2 ^ 32" "last ?offs < 2 ^ 32" using rows by (simp_all add: build_offsets_last)
    show "\<forall>i\<in>set order. ?offs ! 0 \<le> i \<and> i < last ?offs" using assms(4) by (simp add: build_offsets_nth)
  qed
  then show thesis using that by (auto simp: build_rel_order_list_def)
qed

text \<open>
  The sorted write for any sort key. The sort table holds the key columns at the positions of the key,
  and the write addresses them by their index in the full table: column \<open>i\<close> of the destination gets
  the column at position \<open>i\<close> of the key.
\<close>

definition sort_source :: "nat list \<Rightarrow> nat \<Rightarrow> nat" where
  "sort_source key i = (if i < length key then key ! i else i)"

lemma sort_source_prefix [simp]: "sort_source [0..<k] i = i"
  by (simp add: sort_source_def)

lemma write_columns_stops:
  assumes "\<forall>j\<in>set is. j < length dst \<and> (\<forall>c. g j c = Inl e \<or> (\<exists>c'. g j c = Inr c'))" and "i \<in> set is" "\<forall>c. g i c = Inl e"
  shows "write_columns g is dst = Inl e"
  using assms(1,2)
proof (induction "is" arbitrary: dst)
  case (Cons j "is")
  have j: "at dst j = Inr (dst ! j)" using Cons.prems(1) by (simp add: at_def)
  show ?case
  proof (cases "g j (dst ! j)")
    case (Inl x)
    then have "x = e" using Cons.prems(1) by (metis Inl_Inr_False Inl_inject list.set_intros(1))
    then show ?thesis using j Inl by simp
  next
    case (Inr c')
    then have "i \<in> set is" using Cons.prems(2) assms(3) by auto
    then have "write_columns g is (dst[j := c']) = Inl e" using Cons.IH [of "dst[j := c']"] Cons.prems(1) by simp
    then show ?thesis using j Inr by simp
  qed
qed simp

lemma sort_key_order:
  fixes m :: table_merge
  defines "n \<equiv> num_columns m" and "U \<equiv> \<lambda>i. merged_column (tm_chunks m) (schema_fields (tm_schema m) ! i)"
    and "N \<equiv> sum_list (map st_num_rows (tm_chunks m))"
  assumes fits: "fits m" and key: "key \<noteq> []" "\<forall>i\<in>set key. i < n"
    and sup: "\<forall>i\<in>set key. order_supported (field_type (schema_fields (tm_schema m) ! i)) (U i)" and S: "sorts S"
  obtains order where "mset order = mset [0..<N]" "sorted_wrt (\<lambda>a b. order_list (map U key) a b \<noteq> Greater) order"
    "\<forall>rest :: (data_type \<times> col) list \<Rightarrow> nat list \<Rightarrow> db_err + col list. rbind (read_sort_key_columns m key) (\<lambda>tab. rbind (table_len tab) (\<lambda>len. rbind (sort_table_to_indexes S tab len) (rest tab))) =
       rest (map (\<lambda>i. (field_type (schema_fields (tm_schema m) ! i), U i)) key) order"
    "\<forall>i<n. \<forall>c. write_indexes (U i) order c = Inr (c @ map ((!) (U i)) order)"
proof -
  let ?tab = "map (\<lambda>i. (field_type (schema_fields (tm_schema m) ! i), U i)) key"
  define order where "order = S (order_list (map U key)) [0..<N]"
  have order: "mset order = mset [0..<N]" "sorted_wrt (\<lambda>a b. order_list (map U key) a b \<noteq> Greater) order"
    using S order_list_ok unfolding sorts_def order_def by blast+
  have len: "length (U i) = N" if "i < n" for i using merged_length [OF fits] that by (simp add: U_def n_def N_def)
  have "read_sort_key_columns m key = Inr ?tab"
    using read_sort_key_fit [OF fits, of key] key(2) by (simp add: U_def n_def)
  moreover have "table_len ?tab = Inr N"
    using len key by (cases key) (auto simp: table_len_def Let_def list_all_iff)
  moreover have "sort_table_to_indexes S ?tab N = Inr order"
    using sup key(1) by (auto simp: sort_table_to_indexes_def order_def list_all_iff comp_def)
  moreover have "list_all (\<lambda>j. j < N) order" using mset_eq_setD [OF order(1)] by (auto simp: list_all_iff)
  ultimately show thesis using that [OF order] len by (simp add: write_indexes_def)
qed

lemma sorted_write_panics:
  assumes fits: "fits m" and key: "tm_sort_key m = key" "key \<noteq> []" "\<forall>i\<in>set key. i < num_columns m"
    and sup: "\<forall>i\<in>set key. order_supported (field_type (target m i)) (merged_column (tm_chunks m) (target m i))"
    and S: "sorts S" and off: "i \<in> set key" "length key \<le> i"
  shows "sorted_write S m (replicate (num_columns m) []) = Inl IndexPanic"
proof -
  let ?U = "\<lambda>i. merged_column (tm_chunks m) (target m i)"
  let ?tab = "map (\<lambda>i. (field_type (target m i), ?U i)) key"
  obtain order where "mset order = mset [0..<sum_list (map st_num_rows (tm_chunks m))]"
    "sorted_wrt (\<lambda>a b. order_list (map ?U key) a b \<noteq> Greater) order"
    and run: "\<forall>rest :: (data_type \<times> col) list \<Rightarrow> nat list \<Rightarrow> db_err + col list. rbind (read_sort_key_columns m key) (\<lambda>tab. rbind (table_len tab) (\<lambda>len. rbind (sort_table_to_indexes S tab len) (rest tab))) =
       rest ?tab order" and w: "\<forall>i<num_columns m. \<forall>c. write_indexes (?U i) order c = Inr (c @ map ((!) (?U i)) order)"
    by (rule sort_key_order [OF fits key(2,3) sup S])
  have "write_columns (\<lambda>i c. rbind (at ?tab i) (\<lambda>src. write_indexes (snd src) order c)) key (replicate (num_columns m) []) = Inl IndexPanic"
  proof (rule write_columns_stops [OF _ off(1)])
    show "\<forall>j\<in>set key. j < length (replicate (num_columns m) ([] :: col)) \<and>
      (\<forall>c. rbind (at ?tab j) (\<lambda>src. write_indexes (snd src) order c) = Inl IndexPanic \<or>
        (\<exists>c'. rbind (at ?tab j) (\<lambda>src. write_indexes (snd src) order c) = Inr c'))"
      using w key(3) by (auto simp: at_def)
    show "\<forall>c. rbind (at ?tab i) (\<lambda>src. write_indexes (snd src) order c) = Inl IndexPanic" using off(2) by (simp add: at_def)
  qed
  then show ?thesis unfolding sorted_write_def key(1) run [rule_format] by simp
qed

lemma sorted_write_fits:
  fixes m :: table_merge
  defines "n \<equiv> num_columns m" and "U \<equiv> \<lambda>i. merged_column (tm_chunks m) (schema_fields (tm_schema m) ! i)"
  assumes fits: "fits m" and key: "tm_sort_key m = key" "key \<noteq> []" "set key = {0..<length key}" "length key \<le> n" "distinct key"
    and sup: "\<forall>i\<in>set key. order_supported (field_type (schema_fields (tm_schema m) ! i)) (U i)"
    and rows: "\<forall>t\<in>set (tm_chunks m). 0 < st_num_rows t" "sum_list (map st_num_rows (tm_chunks m)) < 2 ^ 32" "length (tm_chunks m) + 1 < 2 ^ 32"
    and S: "sorts S"
  obtains order where "sorted_write S m (replicate n []) = Inr (map (\<lambda>i. map ((!) (U (sort_source key i))) order) [0..<n])"
    "mset order = mset [0..<sum_list (map st_num_rows (tm_chunks m))]"
    "sorted_wrt (\<lambda>a b. order_list (map U key) a b \<noteq> Greater) order"
proof -
  let ?k = "length key" and ?offs = "build_offsets 0 (map st_num_rows (tm_chunks m))"
  let ?tab = "map (\<lambda>i. (field_type (schema_fields (tm_schema m) ! i), U i)) key"
  have key_n: "\<forall>i\<in>set key. i < num_columns m" using key(3,4) n_def by auto
  obtain order where order: "mset order = mset [0..<sum_list (map st_num_rows (tm_chunks m))]"
    "sorted_wrt (\<lambda>a b. order_list (map U key) a b \<noteq> Greater) order"
    and run: "\<forall>rest :: (data_type \<times> col) list \<Rightarrow> nat list \<Rightarrow> db_err + col list. rbind (read_sort_key_columns m key) (\<lambda>tab. rbind (table_len tab) (\<lambda>len. rbind (sort_table_to_indexes S tab len) (rest tab))) =
       rest ?tab order" and w: "\<forall>i<n. \<forall>c. write_indexes (U i) order c = Inr (c @ map ((!) (U i)) order)"
    unfolding U_def n_def by (rule sort_key_order [OF fits key(2) key_n sup [unfolded U_def] S])
  have nth: "key ! j \<in> set key \<and> key ! j < n" if "j < ?k" for j using that key(4) key_n n_def by simp
  have w1: "write_columns (\<lambda>i c. rbind (at ?tab i) (\<lambda>src. write_indexes (snd src) order c)) key (replicate n []) =
      Inr (map (\<lambda>j. replicate n [] ! j @ (if j \<in> set key then map ((!) (U (key ! j))) order else [])) [0..<length (replicate n ([] :: col))])"
    by (rule write_columns_spec [OF key(5)]) (use key(3,4) nth w in \<open>auto simp: at_def\<close>)
  define d1 where "d1 = map (\<lambda>j. if j < ?k then map ((!) (U (key ! j))) order else []) [0..<n]"
  have d1: "map (\<lambda>j. replicate n [] ! j @ (if j \<in> set key then map ((!) (U (key ! j))) order else [])) [0..<length (replicate n ([] :: col))] = d1"
    unfolding d1_def key(3) by (simp cong: map_cong)
  show thesis
  proof (cases "?k = n")
    case True
    then have "d1 = map (\<lambda>i. map ((!) (U (sort_source key i))) order) [0..<n]" by (simp add: d1_def sort_source_def cong: map_cong)
    then have "sorted_write S m (replicate n []) = Inr (map (\<lambda>i. map ((!) (U (sort_source key i))) order) [0..<n])"
      using True w1 [unfolded d1] unfolding sorted_write_def key(1) run [rule_format] n_def by simp
    then show ?thesis using that order by blast
  next
    case False
    have "\<forall>i\<in>set order. i < last ?offs" using mset_eq_setD [OF order(1)] by (auto simp: build_offsets_last)
    then obtain rs where rs: "build_rel_order_list ?offs order = Inr rs" "\<forall>r\<in>set rs. range_ok ?offs False r"
      "concat (map (range_rows ?offs False) rs) = order" by (rule rel_order_of_chunks [OF rows])
    let ?js = "filter (\<lambda>i. i \<notin> set key) [0..<n]"
    have "write_columns (\<lambda>i. read_sorted_column m i rs) ?js d1 =
        Inr (map (\<lambda>j. d1 ! j @ (if j \<in> set ?js then map ((!) (U j)) order else [])) [0..<length d1])"
      by (rule write_columns_spec) (use read_sorted_fit [OF fits _ rs(2,3)] in \<open>auto simp: n_def U_def d1_def\<close>)
    also have "\<dots> = Inr (map (\<lambda>i. map ((!) (U (sort_source key i))) order) [0..<n])"
      using key(3) by (auto simp: d1_def sort_source_def intro!: map_cong)
    finally have "sorted_write S m (replicate n []) = Inr (map (\<lambda>i. map ((!) (U (sort_source key i))) order) [0..<n])"
      using rs(1) False w1 [unfolded d1] unfolding sorted_write_def key(1) run [rule_format] n_def by simp
    then show ?thesis using that order by blast
  qed
qed


lemma sort_key_in_range: "get_sort_key s = Inr key \<Longrightarrow> i \<in> set key \<Longrightarrow> i < length (schema_fields s)"
  by (auto simp: get_sort_key_def parse_sort_key_def split: option.splits)

section \<open>Properties\<close>

text \<open>
  What the merge of a table demands of its inputs: with a sort key, rows in every chunk, sizes that fit
  the \<open>u32\<close> order lists, and key columns of sortable types.
\<close>

definition sort_ready :: "source_table list \<Rightarrow> nat list \<Rightarrow> bool" where
  "sort_ready ts key \<longleftrightarrow>
     (\<forall>t\<in>set ts. 0 < st_num_rows t) \<and> sum_list (map st_num_rows ts) < 2 ^ 32 \<and> length ts + 1 < 2 ^ 32 \<and>
     (\<forall>m. tm_prepare ts = Inr m \<longrightarrow> (\<forall>i\<in>set key. order_supported (field_type (target m i)) (merged_column ts (target m i))))"

lemma sorted_merge:
  assumes "inputs_ok ts key" and "key \<noteq> []" "distinct key" and "sorts S" and "sort_ready ts key"
  obtains m where "tm_prepare ts = Inr m" "tm_chunks m = ts" "fits m" "length key \<le> num_columns m"
    "\<And>i. \<lbrakk> i \<in> set key; length key \<le> i \<rbrakk> \<Longrightarrow> tm_write S m (replicate (num_columns m) []) = Inl IndexPanic"
    "\<forall>i\<in>set key. i < length key \<Longrightarrow> \<exists>order. tm_write S m (replicate (num_columns m) []) =
        Inr (map (\<lambda>i. map ((!) (merged_column ts (target m (sort_source key i)))) order) [0..<num_columns m]) \<and>
      mset order = mset [0..<sum_list (map st_num_rows ts)] \<and>
      sorted_wrt (\<lambda>a b. order_list (map (\<lambda>i. merged_column ts (target m i)) key) a b \<noteq> Greater) order"
proof -
  obtain m where m: "tm_prepare ts = Inr m" "tm_chunks m = ts" "tm_sort_key m = key" "fits m"
    "map field_name (schema_fields (tm_schema m)) = map field_name (schema_fields (st_schema (last ts)))"
    by (rule prepare_ok [OF assms(1)])
  have key_n: "\<forall>i\<in>set key. i < num_columns m"
    using assms(1) sort_key_in_range [of "st_schema (last ts)" key] arg_cong [OF m(5), of length]
    by (simp add: inputs_ok_def num_columns_def)
  then have "set key \<subseteq> {..<num_columns m}" by auto
  then have k: "length key \<le> num_columns m" using card_mono [of "{..<num_columns m}" "set key"] distinct_card [OF assms(3)] by simp
  have sup: "\<forall>i\<in>set key. order_supported (field_type (target m i)) (merged_column (tm_chunks m) (target m i))"
    using assms(5) m(1,2) by (simp add: sort_ready_def)
  have rows: "\<forall>t\<in>set (tm_chunks m). 0 < st_num_rows t" "sum_list (map st_num_rows (tm_chunks m)) < 2 ^ 32"
    "length (tm_chunks m) + 1 < 2 ^ 32" using assms(5) m(2) by (simp_all add: sort_ready_def)
  have tm: "tm_write S m dst = sorted_write S m dst" for dst using m(3) assms(2) by (simp add: tm_write_def)
  show thesis
  proof (rule that [OF m(1,2,4) k])
    show "tm_write S m (replicate (num_columns m) []) = Inl IndexPanic" if "i \<in> set key" "length key \<le> i" for i
      unfolding tm by (rule sorted_write_panics [OF m(4,3) assms(2) key_n sup assms(4) that])
  next
    assume "\<forall>i\<in>set key. i < length key"
    then have "set key \<subseteq> {0..<length key}" by auto
    then have "set key = {0..<length key}" by (rule card_subset_eq [OF finite_atLeastLessThan]) (simp add: distinct_card [OF assms(3)])
    then show "\<exists>order. tm_write S m (replicate (num_columns m) []) =
        Inr (map (\<lambda>i. map ((!) (merged_column ts (target m (sort_source key i)))) order) [0..<num_columns m]) \<and>
      mset order = mset [0..<sum_list (map st_num_rows ts)] \<and>
      sorted_wrt (\<lambda>a b. order_list (map (\<lambda>i. merged_column ts (target m i)) key) a b \<noteq> Greater) order"
      using sorted_write_fits [OF m(4,3) assms(2) _ k assms(3) sup rows assms(4)] unfolding tm m(2) by blast
  qed
qed

lemma prefix_merge:
  assumes "inputs_ok ts [0..<k]" and "0 < k" and "sorts S" and "sort_ready ts [0..<k]"
  obtains m order where "tm_prepare ts = Inr m" "tm_chunks m = ts" "fits m"
    "tm_write S m (replicate (num_columns m) []) = Inr (map (\<lambda>i. map ((!) (merged_column ts (target m i))) order) [0..<num_columns m])"
    "mset order = mset [0..<sum_list (map st_num_rows ts)]"
    "sorted_wrt (\<lambda>a b. order_list (map (\<lambda>i. merged_column ts (target m i)) [0..<k]) a b \<noteq> Greater) order"
proof (rule sorted_merge [OF assms(1) _ distinct_upt assms(3,4)])
  show "[0..<k] \<noteq> []" using assms(2) by simp
next
  fix m
  assume m: "tm_prepare ts = Inr m" "tm_chunks m = ts" "fits m"
    and w: "\<forall>i\<in>set [0..<k]. i < length [0..<k] \<Longrightarrow>
      \<exists>order. tm_write S m (replicate (num_columns m) []) =
        Inr (map (\<lambda>i. map ((!) (merged_column ts (target m (sort_source [0..<k] i)))) order) [0..<num_columns m]) \<and>
      mset order = mset [0..<sum_list (map st_num_rows ts)] \<and>
      sorted_wrt (\<lambda>a b. order_list (map (\<lambda>i. merged_column ts (target m i)) [0..<k]) a b \<noteq> Greater) order"
  have "\<forall>i\<in>set [0..<k]. i < length [0..<k]" by simp
  from w [OF this] show thesis using that [OF m] unfolding sort_source_prefix by blast
qed

text \<open>
  C11: type soundness of the merge. For well-typed tables whose schemas merge pairwise, with no sort key or one
  that is a prefix of the columns, the merge is prepared and written without error: no cast is refused, the destination
  has the columns of the merged schema, each with all rows, and every cell that is written has the
  type that the merged schema declares for its column.
\<close>

theorem merge_type_sound:
  assumes "inputs_ok ts [0..<k]" and "0 < k \<Longrightarrow> sorts S \<and> sort_ready ts [0..<k]"
  shows "\<exists>m dst. tm_prepare ts = Inr m \<and> tm_write S m (replicate (num_columns m) []) = Inr dst \<and> length dst = num_columns m \<and>
    (\<forall>i < num_columns m. length (dst ! i) = sum_list (map st_num_rows ts) \<and> col_ok (field_type (target m i)) (dst ! i))"
proof (cases "k = 0")
  case True
  obtain m where m: "tm_prepare ts = Inr m" "tm_chunks m = ts" "tm_sort_key m = [0..<k]" "fits m" by (rule prepare_ok [OF assms(1)])
  have "tm_write S m (replicate (num_columns m) []) = Inr (map (\<lambda>i. merged_column ts (target m i)) [0..<num_columns m])"
    using unsorted_write_fits [OF m(4)] m(2,3) True by (simp add: tm_write_def)
  then show ?thesis
    using m(1,2) merged_length [OF m(4)] merged_column_ok(2) [OF m(4)] by (simp add: num_columns_def)
next
  case False
  then have ready: "sorts S" "sort_ready ts [0..<k]" using assms(2) by simp_all
  obtain m order where m: "tm_prepare ts = Inr m" "tm_chunks m = ts" "fits m" and order: "tm_write S m (replicate (num_columns m) []) =
      Inr (map (\<lambda>i. map ((!) (merged_column ts (target m i))) order) [0..<num_columns m])"
    "mset order = mset [0..<sum_list (map st_num_rows ts)]"
    by (rule prefix_merge [OF assms(1) _ ready]) (use False in simp)
  have col: "length (merged_column ts (target m i)) = sum_list (map st_num_rows ts)" "col_ok (field_type (target m i)) (merged_column ts (target m i))"
    if "i < num_columns m" for i
    using merged_length [OF m(3) that] merged_column_ok(2) [OF m(3)] that m(2) by (simp_all add: num_columns_def)
  have "col_ok ty (map ((!) c) order)" if "length c = sum_list (map st_num_rows ts)" "col_ok ty c" for c ty
    using that mset_eq_setD [OF order(2)] by (auto simp: col_ok_def list_all_iff)
  moreover have "length order = sum_list (map st_num_rows ts)" using mset_eq_length [OF order(2)] by simp
  ultimately show ?thesis using m(1) order(1) col by simp
qed

text \<open>
  C12: the unsorted merge loses nothing. The destination gets, column by column, the cells of all chunks
  one after the other, taken from the source column of the same name, with their validity and their
  value; only the width of an integer may grow.
\<close>

theorem merge_unsorted_cells:
  assumes "inputs_ok ts []"
  shows "\<exists>m dst. tm_prepare ts = Inr m \<and> tm_write S m (replicate (num_columns m) []) = Inr dst \<and> length dst = num_columns m \<and>
    map field_name (schema_fields (tm_schema m)) = map field_name (schema_fields (st_schema (last ts))) \<and>
    (\<forall>i < num_columns m.
       map (\<lambda>c. (erase (fst c), snd c)) (dst ! i) =
       map (\<lambda>c. (erase (fst c), snd c)) (concat (map (source_cells (field_name (target m i))) ts)))"
proof -
  obtain m where m: "tm_prepare ts = Inr m" "tm_chunks m = ts" "tm_sort_key m = []" "fits m"
    "map field_name (schema_fields (tm_schema m)) = map field_name (schema_fields (st_schema (last ts)))"
    by (rule prepare_ok [OF assms])
  let ?dst = "map (\<lambda>i. merged_column ts (target m i)) [0..<num_columns m]"
  have "tm_write S m (replicate (num_columns m) []) = Inr ?dst"
    using unsorted_write_fits [OF m(4)] m(2,3) by (simp add: tm_write_def)
  moreover have "map (\<lambda>c. (erase (fst c), snd c)) (merged_column ts (target m i)) =
       map (\<lambda>c. (erase (fst c), snd c)) (concat (map (source_cells (field_name (target m i))) ts))" if "i < num_columns m" for i
    using merged_column_ok(3) [OF m(4), of "target m i"] that m(2) by (simp add: num_columns_def)
  ultimately show ?thesis using m(1,5) by (intro exI [of _ m] exI [of _ ?dst]) simp
qed

text \<open>
  C10: the sorted merge. For a sort key that is a prefix of the columns, the destination is one
  permutation of the rows of the unsorted merge, applied to every column alike, and the rows come in
  the order of the key columns, with nulls last. Every chunk must have rows: an empty chunk is
  mistaken for its neighbour when the rows are located.
\<close>

theorem merge_sorted_rows:
  assumes "inputs_ok ts [0..<k]" and "0 < k" and "sorts S"
    and "\<forall>t\<in>set ts. 0 < st_num_rows t" and "sum_list (map st_num_rows ts) < 2 ^ 32" and "length ts + 1 < 2 ^ 32"
    and "\<forall>m i. tm_prepare ts = Inr m \<longrightarrow> i < k \<longrightarrow> order_supported (field_type (target m i)) (merged_column ts (target m i))"
  shows "\<exists>m order. tm_prepare ts = Inr m \<and>
    tm_write S m (replicate (num_columns m) []) =
      Inr (map (\<lambda>i. map ((!) (merged_column ts (target m i))) order) [0..<num_columns m]) \<and>
    mset order = mset [0..<sum_list (map st_num_rows ts)] \<and>
    sorted_wrt (\<lambda>a b. order_list (map (\<lambda>i. merged_column ts (target m i)) [0..<k]) a b \<noteq> Greater) order"
proof -
  have "sort_ready ts [0..<k]" using assms(4-7) by (simp add: sort_ready_def)
  then show ?thesis using prefix_merge [OF assms(1-3)] by blast
qed


section \<open>Examples\<close>

definition ex_table :: "(string \<times> string) list \<Rightarrow> data_type \<Rightarrow> cell list \<Rightarrow> source_table" where
  "ex_table meta ty cells =
     \<lparr>st_schema = \<lparr>schema_fields = [Field ''i'' ty False], schema_metadata = meta\<rparr>, st_num_rows = length cells,
      st_columns = [map (\<lambda>c. (c, True)) cells], st_stats = (\<lambda>_. Inr True)\<rparr>"

definition ex_inputs :: "(string \<times> string) list \<Rightarrow> source_table list" where
  "ex_inputs meta = [ex_table meta DUInt16 [CU16 7, CU16 3], ex_table meta DUInt32 [CU32 5]]"

lemma ex_key: "get_sort_key (st_schema (ex_table [] ty cells)) = Inr []"
  "get_sort_key (st_schema (ex_table [(SQD_SORT_KEY, ''0'')] ty cells)) = Inr [0]"
  by (simp_all add: ex_table_def get_sort_key_def parse_sort_key_def parse_usize_def digit_of_def)

lemma ex_can_merge:
  assumes "get_sort_key (st_schema (ex_table meta ty cells)) = Inr key" "get_sort_key (st_schema (ex_table meta ty' cells')) = Inr key"
    and "compat ty ty'" "\<forall>i\<in>set key. i = 0"
  shows "can_merge_schemas (st_schema (ex_table meta ty cells)) (st_schema (ex_table meta ty' cells'))"
proof -
  have "list_all (\<lambda>(ai, bi). ai = (0 :: nat) \<and> bi = (0 :: nat)) (zip key key)"
    using assms(4) by (auto simp: list_all_iff dest: set_zip_leftD set_zip_rightD)
  then show ?thesis using assms(1-3) by (auto simp: can_merge_schemas_def ex_table_def compat_def list_all_iff)
qed

lemma ex_inputs_ok:
  assumes "meta = [] \<and> key = [] \<or> meta = [(SQD_SORT_KEY, ''0'')] \<and> key = [0]"
  shows "inputs_ok (ex_inputs meta) key"
proof -
  have k: "get_sort_key (st_schema (ex_table meta ty cells)) = Inr key" for ty cells using assms ex_key by auto
  have c: "compat DUInt16 DUInt32" "compat DUInt32 DUInt16" by (simp_all add: compat_def common_item_index_type_def common_index_def)
  have "can_merge_schemas (st_schema (ex_table meta ty cells)) (st_schema (ex_table meta ty' cells'))" if "compat ty ty'" for ty cells ty' cells'
    by (rule ex_can_merge [OF k k that]) (use assms in auto)
  then have "mergeable (ex_inputs meta)" using c by (simp add: mergeable_def ex_inputs_def)
  moreover have "\<forall>t\<in>set (ex_inputs meta). source_ok t"
    by (simp add: ex_inputs_def ex_table_def source_ok_def col_ok_def list_items_ok_def)
  moreover have "stats_ok (last (ex_inputs meta))" by (auto simp: stats_ok_def ex_inputs_def ex_table_def)
  ultimately show ?thesis using k by (simp add: inputs_ok_def) (simp add: ex_inputs_def)
qed

theorem merge_unsorted_cells_witness:
  "\<exists>m dst. tm_prepare (ex_inputs []) = Inr m \<and> tm_write (\<lambda>_. rev) m (replicate (num_columns m) []) = Inr dst \<and>
    length dst = num_columns m \<and> map field_name (schema_fields (tm_schema m)) = [''i'']"
proof -
  have "inputs_ok (ex_inputs []) []" by (rule ex_inputs_ok) simp
  then show ?thesis using merge_unsorted_cells [of "ex_inputs []" "\<lambda>_. rev"] by (auto simp: ex_inputs_def ex_table_def)
qed

fun insert_by :: "(nat \<Rightarrow> nat \<Rightarrow> ordering) \<Rightarrow> nat \<Rightarrow> nat list \<Rightarrow> nat list" where
  "insert_by c x [] = [x]"
| "insert_by c x (y # ys) = (if c x y = Greater then y # insert_by c x ys else x # y # ys)"

definition insertion_sort_by :: sorter where
  "insertion_sort_by c xs = foldr (insert_by c) xs []"

lemma mset_insert_by: "mset (insert_by c x ys) = add_mset x (mset ys)"
  by (induction ys) auto

lemma sorted_insert_by:
  assumes "order_ok c" and "sorted_wrt (\<lambda>a b. c a b \<noteq> Greater) ys"
  shows "sorted_wrt (\<lambda>a b. c a b \<noteq> Greater) (insert_by c x ys)"
  using assms(2)
proof (induction ys)
  case (Cons y ys)
  have set: "set (insert_by c x ys) = insert x (set ys)" using mset_insert_by [of c x ys] by (metis set_mset_mset set_mset_add_mset_insert)
  show ?case
  proof (cases "c x y = Greater")
    case True
    then have "c y x \<noteq> Greater" using assms(1) by (auto simp: order_ok_def)
    then show ?thesis using True Cons set by auto
  next
    case False
    then show ?thesis using Cons.prems assms(1) unfolding order_ok_def by auto
  qed
qed simp

lemma insertion_sort_sorts: "sorts insertion_sort_by"
proof -
  have "mset (insertion_sort_by c xs) = mset xs" for c xs
    unfolding insertion_sort_by_def by (induction xs) (simp_all add: mset_insert_by)
  moreover have "sorted_wrt (\<lambda>a b. c a b \<noteq> Greater) (insertion_sort_by c xs)" if "order_ok c" for c xs
    unfolding insertion_sort_by_def using that by (induction xs) (simp_all add: sorted_insert_by)
  ultimately show ?thesis by (simp add: sorts_def)
qed


lemma ex_merge_u32:
  assumes "tm_prepare (ex_inputs [(SQD_SORT_KEY, ''0'')]) = Inr m"
  shows "field_type (target m 0) = DUInt32"
  using assms
  by (auto simp: tm_prepare_def ex_inputs_def ex_table_def Let_def strip_unknown_metadata_def patch_new_def patch_metadata_def
      patch_fields_def patch_finish_def merge_schema_def find_by_name_def merge_fields_def common_item_index_type_def
      common_index_def set_field_def patch_update_def new_schema_mut_def)

lemma ex_sort_ready: "sort_ready (ex_inputs [(SQD_SORT_KEY, ''0'')]) [0..<1]"
  using ex_merge_u32 by (auto simp: sort_ready_def order_supported_def) (auto simp: ex_inputs_def ex_table_def)

theorem merge_type_sound_witness:
  "\<exists>m dst. tm_prepare (ex_inputs [(SQD_SORT_KEY, ''0'')]) = Inr m \<and>
    tm_write insertion_sort_by m (replicate (num_columns m) []) = Inr dst \<and> length dst = num_columns m \<and>
    (\<forall>i < num_columns m. length (dst ! i) = 3 \<and> col_ok (field_type (target m i)) (dst ! i))"
proof -
  let ?ts = "ex_inputs [(SQD_SORT_KEY, ''0'')]"
  have ok: "inputs_ok ?ts [0..<1]" using ex_inputs_ok [of "[(SQD_SORT_KEY, ''0'')]" "[0]"] by simp
  have n: "sum_list (map st_num_rows ?ts) = 3" by (simp add: ex_inputs_def ex_table_def)
  show ?thesis using merge_type_sound [OF ok, of insertion_sort_by] insertion_sort_sorts ex_sort_ready unfolding n by blast
qed

theorem merge_sorted_rows_witness:
  "\<exists>m order. tm_prepare (ex_inputs [(SQD_SORT_KEY, ''0'')]) = Inr m \<and> mset order = mset [0, 1, 2] \<and>
    tm_write insertion_sort_by m (replicate (num_columns m) []) =
      Inr (map (\<lambda>i. map ((!) (merged_column (ex_inputs [(SQD_SORT_KEY, ''0'')]) (target m i))) order) [0..<num_columns m])"
proof -
  let ?ts = "ex_inputs [(SQD_SORT_KEY, ''0'')]"
  have ok: "inputs_ok ?ts [0..<1]" using ex_inputs_ok [of "[(SQD_SORT_KEY, ''0'')]" "[0]"] by simp
  have rows: "\<forall>t\<in>set ?ts. 0 < st_num_rows t" "sum_list (map st_num_rows ?ts) < 2 ^ 32" "length ?ts + 1 < 2 ^ 32"
    by (simp_all add: ex_inputs_def ex_table_def)
  have sup: "\<forall>m i. tm_prepare ?ts = Inr m \<longrightarrow> i < 1 \<longrightarrow> order_supported (field_type (target m i)) (merged_column ?ts (target m i))"
    using ex_merge_u32 by (auto simp: order_supported_def)
  have n: "sum_list (map st_num_rows ?ts) = 3" by (simp add: ex_inputs_def ex_table_def)
  have upt: "[0..<3] = [0, 1, 2 :: nat]" by (simp add: upt_rec)
  show ?thesis
    using merge_sorted_rows [OF ok _ insertion_sort_sorts rows sup] unfolding n upt by auto
qed

section \<open>Limits of the merge\<close>

text \<open>
  C34: neighbours that merge are not enough. The compaction planner compares the schema of a chunk with
  that of the next one only; for chunks whose index column widens from 16 to 32 to 64 bits, each
  pair of neighbours can be merged, but preparing the merge of the three fails.
\<close>

definition ex_chain :: "source_table list" where
  "ex_chain = [ex_table [] DUInt16 [], ex_table [] DUInt32 [], ex_table [] DUInt64 []]"

theorem neighbours_do_not_merge:
  "can_merge_schemas (st_schema (ex_chain ! 0)) (st_schema (ex_chain ! 1)) \<and>
   can_merge_schemas (st_schema (ex_chain ! 1)) (st_schema (ex_chain ! 2)) \<and>
   tm_prepare ex_chain = Inl IncompatibleTypes"
proof -
  have c: "compat DUInt16 DUInt32" "compat DUInt32 DUInt64" by (simp_all add: compat_def common_item_index_type_def common_index_def)
  have "tm_prepare ex_chain = Inl IncompatibleTypes"
    by (simp add: tm_prepare_def ex_chain_def ex_table_def Let_def strip_unknown_metadata_def patch_new_def patch_metadata_def
      patch_fields_def patch_finish_def merge_schema_def find_by_name_def merge_fields_def common_item_index_type_def
      common_index_def set_field_def patch_update_def new_schema_mut_def)
  then show ?thesis
    using ex_can_merge [OF ex_key(1) ex_key(1) c(1)] ex_can_merge [OF ex_key(1) ex_key(1) c(2)] by (simp add: ex_chain_def)
qed






end
