(* ===== verification/CompactionProps.thy ===== *)
theory CompactionProps
  imports WriterProps CompactionSafety CompactionPlan TableMergeProps
begin

text \<open>
  Properties of dataset compaction: what it keeps, what it commits, and what its planner chooses.
\<close>

section \<open>A committed compaction\<close>

lemma finished_ok:
  assumes "(case r of
      (Inr (CompactionOk merged), db) \<Rightarrow> (Inr (CompactionOk merged), db)
    | (result, db) \<Rightarrow>
        (case abandon db of
           (Inl abandon_err, db) \<Rightarrow> (case result of Inr _ \<Rightarrow> Inl abandon_err | Inl e \<Rightarrow> Inl e, db)
         | (Inr _, db) \<Rightarrow> (result, db))) = (Inr (CompactionOk info), db')"
  shows "r = (Inr (CompactionOk info), db')"
  using assms by (auto split: prod.splits sum.splits compaction_status.splits)

context kv_store
begin

lemma execute_ok:
  assumes X: "reads_from X T" "stored_tables_ok T" "rows = chunk_rows X" and b: "builds R T build"
    and env: "\<And>k. maintaining R X rows (dc_dataset_id d) (E k)"
    and v: "view R db (dc_dataset_id d) cs fin" and h: "history X rows cs"
    and ex: "execute_compaction R S T build p E d db = (Inr (CompactionOk info), db')"
  shows "\<exists>ms cs1 pre post c. prepare_merge_plan R T d db = Inr ms \<and> 2 \<le> length ms \<and>
    same_span cs cs1 \<and> blocks_of rows cs1 = blocks_of rows cs \<and> cs1 = pre @ ms @ post \<and>
    view R db' (dc_dataset_id d) (pre @ c # post) fin \<and> history X rows (pre @ c # post) \<and>
    first_block c = first_block (hd ms) \<and> get_chunk_head c = get_chunk_head (last ms) \<and> rows c = blocks_of rows ms \<and>
    collect_results (map (merged_chunk_info T) ms) = Inr info"
proof (cases "prepare_merge_plan R T d db")
  case (Inl e)
  then show ?thesis using ex by (simp add: execute_compaction_def)
next
  case (Inr ms)
  have two: "2 \<le> length ms" using ex Inr by (simp add: execute_compaction_def split: if_splits)
  then have ne: "ms \<noteq> []" by auto
  obtain res db1 where m: "merge_all_tables S T build ms (map fst (tables (hd ms))) [] db = (res, db1)" by fastforce
  have m1: "maintained R X rows (dc_dataset_id d) db db1"
    by (rule maintained_cong) (use merge_all_result [OF b m] in \<open>auto simp: same_store_def\<close>)
  obtain tabs where tabs: "res = Inr tabs" using ex Inr two m by (cases res) (auto simp: execute_compaction_def)
  have bf: "built_from S T ms tabs" by (rule merge_all_built [OF b ne m [unfolded tabs]])
  let ?c = "make_chunk ms tabs"
  have run: "tx_run p (E 0) (compaction_tx R T (dc_dataset_id d) ms ?c) db1 = (Inr (CompactionOk info), db')"
    by (rule finished_ok [where abandon = "abandon_new_chunk_tables R p (E 1) ?c"]) (use ex Inr two m tabs in \<open>simp add: execute_compaction_def Let_def\<close>)
  obtain k where k: "compaction_tx R T (dc_dataset_id d) ms ?c (seen_by (E 0) k db1) = Inr (CompactionOk info, db')"
    by (rule tx_run_committed [OF run])
  obtain cs1 where cs1: "view R (seen_by (E 0) k db1) (dc_dataset_id d) cs1 fin" "history X rows cs1" "same_span cs cs1"
    "blocks_of rows cs1 = blocks_of rows cs"
    by (rule maintainedE [OF maintained_trans [OF m1 maintained_seen_by [OF env]] v h])
  obtain pre post where c: "cs1 = pre @ ms @ post" "view R db' (dc_dataset_id d) (pre @ ?c # post) fin"
    "history X rows (pre @ ?c # post)" "rows ?c = blocks_of rows ms"
    by (rule compaction_tx_commit [OF X bf cs1(1,2) k])
  have "collect_results (map (merged_chunk_info T) ms) = Inr info"
    using compaction_tx_view [OF cs1(1) ne k] by blast
  then show ?thesis
    using Inr two cs1(3,4) c
    by (intro exI [of _ ms] exI [of _ cs1] exI [of _ pre] exI [of _ post] exI [of _ ?c]) (simp add: get_chunk_head_def)
qed

end

section \<open>An example store\<close>

definition cx_source :: "u64 list \<Rightarrow> bytes list \<Rightarrow> source_table" where
  "cx_source ns hs =
     \<lparr>st_schema = \<lparr>schema_fields = [Field ''number'' DUInt64 False, Field ''hash'' (DOther ''Utf8'') False], schema_metadata = []\<rparr>,
      st_num_rows = length ns, st_columns = [map (\<lambda>n. (CU64 n, True)) ns, map (\<lambda>h. (CBytes h, True)) hs],
      st_stats = (\<lambda>_. Inr False)\<rparr>"

definition cx_tables :: "table_id \<Rightarrow> db_err + source_table" where
  "cx_tables tid =
     (if tid = [1] then Inr (cx_source [4] [[8]]) else if tid = [2] then Inr (cx_source [5] [[9]])
      else if tid = [3] then Inr (cx_source [4, 5] [[8], [9]]) else Inl TableNotFound)"

definition cx_build :: "table_merge \<Rightarrow> col list \<Rightarrow> mem \<Rightarrow> (db_err + table_id) \<times> mem" where
  "cx_build m cols t =
     (if tm_schema m = st_schema (cx_source [] []) \<and> cols = st_columns (cx_source [4, 5] [[8], [9]]) then (Inr [3], t)
      else (Inl TableNotFound, t))"

definition cx_ctx :: tx_ctx where
  "cx_ctx = \<lparr>block_hash_index = False, transaction_hash_index = False,
     table_reader = (\<lambda>tid. rbind (cx_tables tid) (\<lambda>st. Inr (to_table st)))\<rparr>"

definition cx_db :: mem where
  "cx_db = write_label mem_kv
     (kv_put mem_kv (kv_put mem_kv [] CF_CHUNKS (chunk_id_for ex_ds ex_a) (enc_chunk mem_kv ex_a)) CF_CHUNKS
        (chunk_id_for ex_ds ex_b) (enc_chunk mem_kv ex_b)) ex_ds
     (LabelV0 (sid_pad 16 [101, 118, 109]) 0 None)"

definition cx_writer :: "mem wc" where
  "cx_writer = \<lparr>wc_db = cx_db, wc_dataset_id = ex_ds, wc_first_block = 4, wc_parent_block_hash = Some [7],
     wc_first_chunk_head = Some (get_chunk_head ex_a), wc_head = Some (get_chunk_head ex_b), wc_finalized_head = None,
     wc_watch = (Some (get_chunk_head ex_b), None), wc_observed = []\<rparr>"

definition cx_compaction :: compaction where
  "cx_compaction = \<lparr>dc_dataset_id = ex_ds, dc_max_chunk_size = MAX_CHUNK_SIZE, dc_wa_below = wa_below_default, dc_len_limit = COMPACTION_LEN_LIMIT\<rparr>"

lemma cx_view: "view mem_kv cx_db ex_ds [ex_a, ex_b] None"
proof -
  have ok: "sid_ok 48 ex_ds" unfolding ex_ds_def by code_simp
  then have "rep mem_kv (kv_put mem_kv [] CF_CHUNKS (chunk_id_for ex_ds ex_a) (enc_chunk mem_kv ex_a)) ex_ds [ex_a]"
    by (intro mem.rep_put [OF mem_rep_empty]) auto
  then have "rep mem_kv (kv_put mem_kv (kv_put mem_kv [] CF_CHUNKS (chunk_id_for ex_ds ex_a) (enc_chunk mem_kv ex_a)) CF_CHUNKS
        (chunk_id_for ex_ds ex_b) (enc_chunk mem_kv ex_b)) ex_ds [ex_a, ex_b]"
    by (rule mem.rep_put) auto
  then have "rep mem_kv cx_db ex_ds [ex_a, ex_b]"
    by (rule iffD1 [OF rep_cong, rotated]) (simp add: cx_db_def write_label_def mem.get_put)
  then show ?thesis
    by (simp add: view_def linked_def find_label_for_update_def cx_db_def write_label_def mem.get_put mem.dec_enc_label)
qed

lemma cx_reads: "reads_from cx_ctx cx_tables"
  by (simp add: reads_from_def cx_ctx_def)

lemma cx_stored: "stored_tables_ok cx_tables"
  by (auto simp: stored_tables_ok_def cx_tables_def cx_source_def source_ok_def col_ok_def list_items_ok_def get_sort_key_def split: if_splits)

lemma cx_builds: "builds mem_kv cx_tables cx_build"
  by (auto simp: builds_def cx_build_def cx_tables_def cx_source_def split: if_splits)

lemma cx_chunk_rows: "chunk_rows cx_ctx ex_a = [(4, [8])]" "chunk_rows cx_ctx ex_b = [(5, [9])]"
  by (simp_all add: chunk_rows_def cx_ctx_def get_table_def ex_a_def ex_b_def cx_tables_def cx_source_def to_table_def to_array_def block_rows_def ensure_number_type_def ensure_utf8_type_def)

lemma cx_history: "history cx_ctx (chunk_rows cx_ctx) [ex_a, ex_b]"
  by (simp add: history_def tables_ok_def cx_chunk_rows)
     (simp add: readable_def cx_ctx_def get_table_def ex_a_def ex_b_def cx_tables_def cx_source_def to_table_def to_array_def block_rows_def table_ok_def
      ensure_number_type_def ensure_utf8_type_def)

lemma cx_inv: "wc_inv mem_kv cx_ctx (chunk_rows cx_ctx) cx_writer [ex_a, ex_b]"
  using cx_view cx_history by (simp add: wc_inv_def cx_writer_def head_of_def fin_ok_def first_ok_def get_chunk_head_def on_chain_def)

lemma cx_plan: "prepare_merge_plan mem_kv cx_tables cx_compaction cx_db = Inr [ex_a, ex_b]"
proof -
  have rep: "rep mem_kv cx_db ex_ds [ex_a, ex_b]" using cx_view by (simp add: view_def)
  have merge: "can_merge_schemas (st_schema (cx_source [4] [[8]])) (st_schema (cx_source [5] [[9]]))"
    unfolding cx_source_def by code_simp
  have scan: "scan_loop cx_tables cx_compaction 0 (map Inr [ex_b, ex_a]) ps_init =
      Inr \<lparr>ps_first_applicable = 4, ps_runs = [[1, 1]], ps_schemas = [(''blocks'', st_schema (cx_source [4] [[8]]))], ps_first_block = Some 4\<rparr>"
    using merge
    by (simp add: MERGE_HORIZON_def scan_chunk_def ps_init_def ex_a_def ex_b_def cx_tables_def push_run_def cx_compaction_def MAX_CHUNK_SIZE_def)
       (simp add: cx_source_def)
  have sc: "score_merge (sizes_between [1, 1] 0 1) (Some wa_below_default) = 0" "score_merge (sizes_between [1, 1] 0 2) (Some wa_below_default) = 2"
    by code_simp+
  have "grow_range [1, 1] 0 2 2 MAX_CHUNK_SIZE wa_below_default = Inl (0, 2, 2)"
    by (subst grow_range.simps) (simp add: sc MAX_CHUNK_SIZE_def del: One_nat_def)
  then have "grow_range [1, 1] 0 1 2 MAX_CHUNK_SIZE wa_below_default = Inl (0, 2, 2)"
    by (subst grow_range.simps) (simp add: sc MAX_CHUNK_SIZE_def one_add_one del: One_nat_def)
  then have "find_range [1, 1] 0 2 MAX_CHUNK_SIZE wa_below_default COMPACTION_LEN_LIMIT = Some (0, 2, 2)"
    by (subst find_range.simps) (simp add: COMPACTION_LEN_LIMIT_def del: One_nat_def)
  then have sel: "select_range cx_compaction [[1, 1]] 0 = (0, 2)" by (simp add: cx_compaction_def numeral_2_eq_2)
  show ?thesis
    using scan sel
    by (simp add: prepare_merge_plan_def mem.list_chunks_rev_rep [OF rep] mem.list_chunks_rep [OF rep] cx_compaction_def [THEN arg_cong, of dc_dataset_id, simplified])
qed

definition cx_merge :: table_merge where
  "cx_merge = \<lparr>tm_chunks = [cx_source [4] [[8]], cx_source [5] [[9]]], tm_schema = st_schema (cx_source [] []), tm_sort_key = [],
     tm_columns_with_stats = []\<rparr>"

lemma cx_prepare: "tm_prepare [cx_source [4] [[8]], cx_source [5] [[9]]] = Inr cx_merge"
proof -
  have s: "merge_schemas [cx_source [4] [[8]]] (patch_new (strip_unknown_metadata (st_schema (cx_source [5] [[9]])))) =
      Inr (patch_new (strip_unknown_metadata (st_schema (cx_source [5] [[9]]))))"
    "patch_finish (patch_new (strip_unknown_metadata (st_schema (cx_source [5] [[9]])))) = st_schema (cx_source [] [])"
    "get_sort_key (st_schema (cx_source [] [])) = Inr []"
    unfolding cx_source_def by code_simp+
  have stats: "collect_stats (cx_source [5] [[9]]) [0..<length (schema_fields (st_schema (cx_source [5] [[9]])))] = Inr []"
    by (simp add: cx_source_def upt_rec)
  show ?thesis
    unfolding tm_prepare_def Let_def cx_merge_def
    by (simp only: ensure_def list.distinct if_True not_False_eq_True res_simps last.simps rev.simps append.simps list.sel if_False s stats simp_thms)
qed

lemma cx_write: "tm_write S cx_merge (replicate (num_columns cx_merge) []) = Inr (st_columns (cx_source [4, 5] [[8], [9]]))"
proof -
  have "unsorted_write cx_merge (replicate (num_columns cx_merge) []) = Inr (st_columns (cx_source [4, 5] [[8], [9]]))"
    unfolding cx_merge_def cx_source_def by code_simp
  then show ?thesis by (simp add: tm_write_def cx_merge_def)
qed

lemma cx_merged: "merge_all_tables S cx_tables cx_build [ex_a, ex_b] (map fst (tables ex_a)) [] t = (Inr [(''blocks'', [3])], t)"
proof -
  have "collect_results (map (\<lambda>c. get_table_reader cx_tables c ''blocks'') [ex_a, ex_b]) = Inr [cx_source [4] [[8]], cx_source [5] [[9]]]"
    by (simp add: get_table_reader_def get_table_def cx_tables_def ex_a_def ex_b_def)
  then have "merge_table S cx_tables cx_build [ex_a, ex_b] ''blocks'' t = (Inr [3], t)"
    using cx_write by (simp add: merge_table_def cx_prepare cx_build_def) (simp add: cx_merge_def)
  then show ?thesis by (simp add: ex_a_def)
qed

lemma cx_commit:
  "\<exists>info t'. compaction_tx mem_kv cx_tables ex_ds [ex_a, ex_b] c cx_db = Inr (CompactionOk info, t')"
proof -
  have v: "rep mem_kv cx_db ex_ds [ex_a, ex_b]" "\<exists>l. find_label_for_update mem_kv cx_db ex_ds = Inr (Some l)"
    using cx_view by (auto simp: view_def)
  have "data_was_changed mem_kv ex_ds [ex_a, ex_b] cx_db = Inr False"
    by (simp add: data_was_changed_def mem.list_chunks_rep [OF v(1)])
  moreover have "\<exists>info. collect_results (map (merged_chunk_info cx_tables) [ex_a, ex_b]) = Inr info"
    by (simp add: merged_chunk_info_def get_table_reader_def get_table_def cx_tables_def ex_a_def ex_b_def)
  ultimately show ?thesis using v(2) by (auto simp: compaction_tx_def Let_def)
qed

lemma cx_execute:
  "\<exists>info db'. execute_compaction mem_kv S cx_tables cx_build default_policy (\<lambda>_. quiet_env) cx_compaction cx_db = (Inr (CompactionOk info), db')"
proof -
  obtain info t' where "compaction_tx mem_kv cx_tables ex_ds [ex_a, ex_b] (make_chunk [ex_a, ex_b] [(''blocks'', [3])]) cx_db = Inr (CompactionOk info, t')"
    using cx_commit by blast
  then have "tx_run default_policy quiet_env (compaction_tx mem_kv cx_tables ex_ds [ex_a, ex_b] (make_chunk [ex_a, ex_b] [(''blocks'', [3])])) cx_db =
      (Inr (CompactionOk info), t')" by (simp add: quiet_tx_run)
  then show ?thesis using cx_merged by (simp add: execute_compaction_def cx_plan) (simp add: cx_compaction_def)
qed

section \<open>Properties\<close>

text \<open>
  C3: compaction is invisible. Whatever it returns (a commit, a cancelled or failed transaction, a
  failed merge) and whatever other maintenance ran in between, the writer's view stays correct: the
  same window, the same heads and finality, and the same blocks in the same order.
\<close>

theorem compaction_invisible:
  assumes "kv_store R" and "wc_inv R X (chunk_rows X) w cs" and "reads_from X T" and "stored_tables_ok T" and "builds R T build"
    and "\<And>k. maintaining R X (chunk_rows X) (wc_dataset_id w) (E k)" and "dc_dataset_id d = wc_dataset_id w"
  shows "\<exists>cs'. wc_inv R X (chunk_rows X) (w\<lparr>wc_db := snd (execute_compaction R S T build p E d (wc_db w))\<rparr>) cs' \<and>
    same_span cs cs' \<and> blocks_of (chunk_rows X) cs' = blocks_of (chunk_rows X) cs"
proof -
  have "maintained R X (chunk_rows X) (wc_dataset_id w) (wc_db w) (snd (execute_compaction R S T build p E d (wc_db w)))"
    using kv_store.execute_maintained [OF assms(1,3,4) refl assms(5), of d E] assms(6,7) by simp
  then show ?thesis by (rule wc_inv_maintained [OF assms(2)]) blast
qed

theorem compaction_invisible_witness:
  "\<exists>cs'. wc_inv mem_kv cx_ctx (chunk_rows cx_ctx) (cx_writer\<lparr>wc_db := snd (execute_compaction mem_kv insertion_sort_by cx_tables cx_build
      default_policy (\<lambda>_. quiet_env) cx_compaction cx_db)\<rparr>) cs' \<and> blocks_of (chunk_rows cx_ctx) cs' = [(4, [8]), (5, [9])]"
  using compaction_invisible [OF mem.kv_store_axioms cx_inv cx_reads cx_stored cx_builds quiet_maintaining, of cx_compaction insertion_sort_by default_policy]
  by (auto simp: cx_writer_def cx_compaction_def cx_chunk_rows)

text \<open>
  C6: a compaction that reports success replaced the planned chunks, at least two, found unchanged and
  next to each other in the stored chain, by one chunk that covers them: first block of the first,
  head of the last, and all their blocks in order. The reported chunks are the merged ones.
\<close>

theorem compaction_commits_plan:
  assumes "kv_store R" and "reads_from X T" and "stored_tables_ok T" and "builds R T build"
    and "\<And>k. maintaining R X (chunk_rows X) (dc_dataset_id d) (E k)"
    and "view R db (dc_dataset_id d) cs fin" and "history X (chunk_rows X) cs"
    and "execute_compaction R S T build p E d db = (Inr (CompactionOk info), db')"
  shows "\<exists>ms cs1 pre post c. prepare_merge_plan R T d db = Inr ms \<and> 2 \<le> length ms \<and>
    same_span cs cs1 \<and> blocks_of (chunk_rows X) cs1 = blocks_of (chunk_rows X) cs \<and> cs1 = pre @ ms @ post \<and>
    view R db' (dc_dataset_id d) (pre @ c # post) fin \<and> history X (chunk_rows X) (pre @ c # post) \<and>
    first_block c = first_block (hd ms) \<and> get_chunk_head c = get_chunk_head (last ms) \<and> chunk_rows X c = blocks_of (chunk_rows X) ms \<and>
    collect_results (map (merged_chunk_info T) ms) = Inr info"
  by (rule kv_store.execute_ok [OF assms(1-3) refl assms(4-)])

theorem compaction_commits_plan_witness:
  "\<exists>info db' pre c post. execute_compaction mem_kv insertion_sort_by cx_tables cx_build default_policy (\<lambda>_. quiet_env) cx_compaction cx_db =
      (Inr (CompactionOk info), db') \<and> view mem_kv db' ex_ds (pre @ c # post) None \<and> chunk_rows cx_ctx c = [(4, [8]), (5, [9])]"
proof -
  obtain info db' where ex: "execute_compaction mem_kv insertion_sort_by cx_tables cx_build default_policy (\<lambda>_. quiet_env) cx_compaction cx_db =
      (Inr (CompactionOk info), db')" using cx_execute by blast
  have ds: "dc_dataset_id cx_compaction = ex_ds" by (simp add: cx_compaction_def)
  obtain ms cs1 pre post c where "prepare_merge_plan mem_kv cx_tables cx_compaction cx_db = Inr ms"
    "blocks_of (chunk_rows cx_ctx) cs1 = blocks_of (chunk_rows cx_ctx) [ex_a, ex_b]" "cs1 = pre @ ms @ post"
    "view mem_kv db' ex_ds (pre @ c # post) None" "history cx_ctx (chunk_rows cx_ctx) (pre @ c # post)" "chunk_rows cx_ctx c = blocks_of (chunk_rows cx_ctx) ms"
    using compaction_commits_plan [OF mem.kv_store_axioms cx_reads cx_stored cx_builds quiet_maintaining _ cx_history ex, of None] cx_view
    unfolding ds by blast
  then have "view mem_kv db' ex_ds (pre @ c # post) None" "chunk_rows cx_ctx c = [(4, [8]), (5, [9])]" by (auto simp: cx_plan cx_chunk_rows)
  then show ?thesis using ex by blast
qed

text \<open>
  C13: the plan is a run of neighbouring stored chunks, at most 500 of them, whose block ranges follow
  each other without a gap and each of which is below the configured chunk size.
\<close>

theorem plan_is_contiguous_slice:
  assumes "kv_store R" and "rep R t (dc_dataset_id d) cs" and "prepare_merge_plan R T d t = Inr ms"
  shows "plan_ok T d ms \<and> (\<exists>pre post. cs = pre @ ms @ post)"
  by (rule kv_store.plan_slice [OF assms])

theorem plan_is_contiguous_slice_witness: "plan_ok cx_tables cx_compaction [ex_a, ex_b]"
proof -
  have "rep mem_kv cx_db (dc_dataset_id cx_compaction) [ex_a, ex_b]" using cx_view by (simp add: view_def cx_compaction_def)
  from plan_is_contiguous_slice [OF mem.kv_store_axioms this cx_plan] show ?thesis by blast
qed

text \<open>
  C31: a range that the size search returns lies inside the searched bounds, is not longer than the
  length limit and carries the score of exactly that slice; with a positive threshold the score is
  positive, so the slice meets the write-amplification limit.
\<close>

theorem find_range_spec:
  assumes "find_range sizes start stop threshold wa len_limit = Some r"
  shows "good_range sizes wa start stop len_limit r \<and> (0 < threshold \<longrightarrow> 0 < snd (snd r))"
  by (rule find_range_sound [OF assms])

theorem find_range_spec_witness: "good_range [1, 1] (\<lambda>a b. a < 2 * b) 0 2 2 (0, 2, 2)"
proof -
  have "find_range [1, 1] 0 2 2 (\<lambda>a b. a < 2 * b) 2 = Some (0, 2, 2)" by code_simp
  from find_range_spec [OF this] show ?thesis by simp
qed

section \<open>Table sets that do not match\<close>

definition mix_tables :: "table_id \<Rightarrow> db_err + source_table" where
  "mix_tables tid = Inr (cx_source [1] [[1]])"

definition mix_chunk :: "u64 \<Rightarrow> string list \<Rightarrow> chunk" where
  "mix_chunk n names = V0 n n [] [] (map (\<lambda>name. (name, [1])) names)"

definition mix_chunks :: "chunk list" where
  "mix_chunks = [mix_chunk 4 [''a'', ''b'', ''c''], mix_chunk 5 [''b'', ''c''], mix_chunk 6 [''a'', ''b'']]"

definition mix_db :: mem where
  "mix_db = fold (\<lambda>c t. kv_put mem_kv t CF_CHUNKS (chunk_id_for ex_ds c) (enc_chunk mem_kv c)) mix_chunks []"

lemma mix_rep: "rep mem_kv mix_db ex_ds mix_chunks"
proof -
  have ok: "sid_ok 48 ex_ds" unfolding ex_ds_def by code_simp
  let ?put = "\<lambda>c t. kv_put mem_kv t CF_CHUNKS (chunk_id_for ex_ds c) (enc_chunk mem_kv c)"
  let ?a = "mix_chunk 4 [''a'', ''b'', ''c'']" and ?b = "mix_chunk 5 [''b'', ''c'']" and ?c = "mix_chunk 6 [''a'', ''b'']"
  have "rep mem_kv (?put ?a []) ex_ds [?a]" using ok by (intro mem.rep_put [OF mem_rep_empty]) (auto simp: mix_chunk_def)
  then have "rep mem_kv (?put ?b (?put ?a [])) ex_ds [?a, ?b]" by (rule mem.rep_put) (auto simp: mix_chunk_def)
  then have "rep mem_kv (?put ?c (?put ?b (?put ?a []))) ex_ds [?a, ?b, ?c]" by (rule mem.rep_put) (auto simp: mix_chunk_def)
  then show ?thesis by (simp add: mix_db_def mix_chunks_def)
qed

lemma mix_plan: "prepare_merge_plan mem_kv mix_tables cx_compaction mix_db = Inr (butlast mix_chunks)"
proof -
  have same: "can_merge_schemas (st_schema (cx_source [1] [[1]])) (st_schema (cx_source [1] [[1]]))" unfolding cx_source_def by code_simp
  let ?s = "st_schema (cx_source [1] [[1]])"
  let ?st = "\<lambda>n runs names. \<lparr>ps_first_applicable = n, ps_runs = runs, ps_schemas = map (\<lambda>name. (name, ?s)) names, ps_first_block = Some n\<rparr>"
  have rows: "st_num_rows (cx_source [1] [[1]]) = 1" by (simp add: cx_source_def)
  note scan = scan_chunk_def mix_chunk_def mix_tables_def push_run_def cx_compaction_def MAX_CHUNK_SIZE_def rows same
  have "scan_chunk mix_tables cx_compaction (mix_chunk 6 [''a'', ''b'']) ps_init = Inr (?st 6 [[1]] [''a'', ''b''])"
    by (simp add: scan ps_init_def Let_def del: rbind_eq_Inr)
  moreover have "scan_chunk mix_tables cx_compaction (mix_chunk 5 [''b'', ''c'']) (?st 6 [[1]] [''a'', ''b'']) =
      Inr (?st 5 [[1], [1]] [''a'', ''b'', ''c''])"
    by (simp add: scan Let_def del: rbind_eq_Inr)
  moreover have "scan_chunk mix_tables cx_compaction (mix_chunk 4 [''a'', ''b'', ''c'']) (?st 5 [[1], [1]] [''a'', ''b'', ''c'']) =
      Inr (?st 4 [[1], [1, 1]] [''a'', ''b'', ''c''])"
    by (simp add: scan Let_def del: rbind_eq_Inr)
  ultimately have s: "scan_loop mix_tables cx_compaction 0 (map Inr (rev mix_chunks)) ps_init = Inr (?st 4 [[1], [1, 1]] [''a'', ''b'', ''c''])"
    by (simp add: mix_chunks_def MERGE_HORIZON_def)
  have sc: "score_merge (sizes_between [1, 1] 0 1) None = 1" by code_simp
  have "merge_until [1, 1] MAX_CHUNK_SIZE 2 = 2" by (subst merge_until.simps) simp
  then have "merge_until [1, 1] MAX_CHUNK_SIZE 1 = 2"
    by (subst merge_until.simps) (simp add: sc MAX_CHUNK_SIZE_def one_add_one del: One_nat_def)
  then have sel: "select_range cx_compaction [[1, 1], [1]] 0 = (0, 2)" by (simp add: cx_compaction_def)
  have ds: "dc_dataset_id cx_compaction = ex_ds" by (simp add: cx_compaction_def)
  have "filter (\<lambda>c. 4 \<le> last_block c) mix_chunks = mix_chunks" by (simp add: mix_chunks_def mix_chunk_def)
  then show ?thesis
    using s sel unfolding prepare_merge_plan_def ds mem.list_chunks_rev_rep [OF mix_rep] mem.list_chunks_rep [OF mix_rep]
    by (simp add: take_map collect_results_Inr) (simp add: mix_chunks_def)
qed

text \<open>
  C33: the planner joins chunks with different tables. It remembers the schema of every table seen since
  the last reset, and resets only when the number of tables differs from the number remembered. Scanning
  chunks with the tables \<open>{a, b}\<close>, \<open>{b, c}\<close> and \<open>{a, b, c}\<close>, from the newest on, it takes the last two for
  compatible; the compaction then fails, because the second has no table \<open>a\<close>, and changes nothing, so the next
  one plans the same.
\<close>

theorem plan_mixes_table_sets:
  "prepare_merge_plan mem_kv mix_tables cx_compaction mix_db = Inr [mix_chunk 4 [''a'', ''b'', ''c''], mix_chunk 5 [''b'', ''c'']] \<and>
   execute_compaction mem_kv S mix_tables build p E cx_compaction mix_db = (Inl TableNotFound, mix_db)"
proof -
  let ?ms = "[mix_chunk 4 [''a'', ''b'', ''c''], mix_chunk 5 [''b'', ''c'']]"
  have plan: "prepare_merge_plan mem_kv mix_tables cx_compaction mix_db = Inr ?ms" by (simp add: mix_plan) (simp add: mix_chunks_def)
  have "collect_results (map (\<lambda>c. get_table_reader mix_tables c ''a'') ?ms) = Inl TableNotFound"
    by (simp add: get_table_reader_def get_table_def mix_tables_def mix_chunk_def)
  then have "merge_table S mix_tables build ?ms ''a'' mix_db = (Inl TableNotFound, mix_db)" unfolding merge_table_def by simp
  then have "merge_all_tables S mix_tables build ?ms [''a'', ''b'', ''c''] [] mix_db = (Inl TableNotFound, mix_db)" by simp
  moreover have "map fst (tables (hd ?ms)) = [''a'', ''b'', ''c'']" by (simp add: mix_chunk_def)
  ultimately show ?thesis using plan unfolding execute_compaction_def by simp
qed

end
