(* ===== verification/DataSource.thy ===== *)
theory DataSource
  imports Store
begin

text \<open>
  The data source of the ingest task (\<open>data-source/src/standard.rs\<close>): several endpoints stream blocks of one
  chain; the source turns them into one sequence of events, follows one position, and decides by
  consensus when the endpoints report a fork.

  What the clients answer is input of a poll: for each endpoint the list of answers that are ready, in
  order. An endpoint whose next answer is missing, or does not fit its state, is pending. The fork timer is
  an input as well. Labels and metrics are not modelled.
\<close>

section \<open>Blocks, events and requests\<close>

record block =
  bl_number :: u64
  bl_hash :: bytes
  bl_parent_hash :: bytes
  bl_timestamp :: "int option"
  bl_mask :: u32

datatype 'p data_event =
  EvFinalizedHead block_ref
| EvBlock "'p block_scheme" bool
| EvFork "block_ref list"
| EvMaybeOnHead

record block_stream_request =
  req_first_block :: u64
  req_parent_block_hash :: "bytes option"

text \<open>What a client answers: to a request, for the next item of a stream, and the end of a pause.\<close>

datatype 'r client_input =
  Streaming "block_ref option"
| Forked "block_ref list"
| RequestError
| Item 'r
| ItemError
| StreamEnd
| Woken

section \<open>Endpoints\<close>

datatype endpoint_state =
  Ready
| Req block_stream_request
| Streams u64
| OnFork block_stream_request "block_ref list"
| Backoff nat

record endpoint =
  ep_state :: endpoint_state
  ep_error_counter :: nat
  ep_reject_counter :: nat
  ep_last_committed_block :: "u64 option"

definition is_on_fork :: "endpoint \<Rightarrow> bool" where
  "is_on_fork ep = (case ep_state ep of OnFork _ _ \<Rightarrow> True | _ \<Rightarrow> False)"

definition is_active :: "endpoint \<Rightarrow> bool" where
  "is_active ep = (case ep_state ep of Backoff _ \<Rightarrow> False | _ \<Rightarrow> True)"

definition BACKOFF_MS :: "nat list" where
  "BACKOFF_MS = [0, 100, 200, 500, 1000, 2000, 5000, 10000]"

definition backoff_ms :: "nat \<Rightarrow> nat" where
  "backoff_ms consecutive = BACKOFF_MS ! min consecutive (length BACKOFF_MS - 1)"

definition pause_state :: "nat \<Rightarrow> endpoint_state" where
  "pause_state pause = (if pause > 0 then Backoff pause else Ready)"

definition on_error :: "endpoint \<Rightarrow> endpoint" where
  "on_error ep = ep\<lparr>ep_state := pause_state (backoff_ms (ep_error_counter ep)), ep_error_counter := ep_error_counter ep + 1\<rparr>"

definition on_reject :: "endpoint \<Rightarrow> endpoint" where
  "on_reject ep = ep\<lparr>ep_state := pause_state (backoff_ms (ep_reject_counter ep)), ep_reject_counter := ep_reject_counter ep + 1\<rparr>"

section \<open>The shared state\<close>

text \<open>Of the fork timer and the start of the consensus only their presence matters.\<close>

record data_source_state =
  ds_finalized_head :: "block_ref option"
  ds_position :: block_stream_request
  ds_position_is_canonical :: bool
  ds_max_seen_finalized_block :: u64
  ds_fork_consensus_timeout :: bool
  ds_fork_consensus_started :: bool

definition reset_fork_consensus :: "data_source_state \<Rightarrow> data_source_state" where
  "reset_fork_consensus s = s\<lparr>ds_fork_consensus_timeout := False, ds_fork_consensus_started := False\<rparr>"

definition accept_new_block :: "data_source_state \<Rightarrow> 'p block_scheme \<Rightarrow> bool \<Rightarrow> db_err + bool \<times> data_source_state" where
  "accept_new_block s b is_final =
     rbind (ensure (req_first_block (ds_position s) \<le> bl_number b) AssertPanic) (\<lambda>_.
     if (case req_parent_block_hash (ds_position s) of Some h \<Rightarrow> bl_parent_hash b \<noteq> h | None \<Rightarrow> False)
     then Inr (False, s)
     else
       let s = s\<lparr>ds_position := \<lparr>req_first_block = bl_number b + 1, req_parent_block_hash = Some (bl_hash b)\<rparr>,
                  ds_position_is_canonical := True\<rparr>;
           s = reset_fork_consensus s
       in Inr (True, if is_final then s\<lparr>ds_finalized_head := Some \<lparr>br_number = bl_number b, br_hash = bl_hash b\<rparr>\<rparr> else s))"

definition on_new_finalized_head :: "data_source_state \<Rightarrow> block_ref option \<Rightarrow> bool \<times> data_source_state" where
  "on_new_finalized_head s new_head =
     (case new_head of
        None \<Rightarrow> (False, s)
      | Some h \<Rightarrow>
          let s = s\<lparr>ds_max_seen_finalized_block := max (ds_max_seen_finalized_block s) (br_number h)\<rparr>;
              pos = ds_position s
          in if req_first_block pos = 0 then (False, s)
             else case req_parent_block_hash pos of
               None \<Rightarrow> (False, s)
             | Some current_parent_hash \<Rightarrow>
                 if (case ds_finalized_head s of Some c \<Rightarrow> br_number h \<le> br_number c | None \<Rightarrow> False) then (False, s)
                 else if req_first_block pos \<le> br_number h then
                   if \<not> ds_position_is_canonical s then (False, s)
                   else (True, s\<lparr>ds_finalized_head := Some \<lparr>br_number = req_first_block pos - 1, br_hash = current_parent_hash\<rparr>\<rparr>)
                 else (True, s\<lparr>ds_finalized_head := Some h\<rparr>))"

section \<open>Polling an endpoint\<close>

definition saturating_pred :: "u64 \<Rightarrow> u64" where
  "saturating_pred n = (if n = 0 then 0 else n - 1)"

definition state_rank :: "endpoint_state \<Rightarrow> nat" where
  "state_rank st = (case st of OnFork _ _ \<Rightarrow> 2 | Ready \<Rightarrow> 1 | _ \<Rightarrow> 0)"

text \<open>The loop of \<open>poll_endpoint\<close>; no event is \<open>Poll::Pending\<close>.\<close>

function poll_endpoint ::
  "('r \<Rightarrow> db_err + 'p block_scheme) \<Rightarrow> data_source_state \<Rightarrow> endpoint \<Rightarrow> 'r client_input list \<Rightarrow>
   db_err + 'p data_event option \<times> data_source_state \<times> endpoint" where
  "poll_endpoint parse s ep ins =
     (case ep_state ep of
        Ready \<Rightarrow> poll_endpoint parse s (ep\<lparr>ep_state := Req (ds_position s)\<rparr>) ins
      | Req req \<Rightarrow>
          (case ins of
             Streaming fh # ins \<Rightarrow>
               let (updated, s) = on_new_finalized_head s fh;
                   ep = ep\<lparr>ep_error_counter := 0, ep_state := Streams (case fh of Some b \<Rightarrow> br_number b | None \<Rightarrow> 0)\<rparr>
               in if updated then Inr (map_option EvFinalizedHead fh, s, ep) else poll_endpoint parse s ep ins
           | Forked prev_blocks # ins \<Rightarrow>
               poll_endpoint parse (s\<lparr>ds_fork_consensus_started := True\<rparr>)
                 (ep\<lparr>ep_error_counter := 0, ep_state := OnFork req prev_blocks\<rparr>) ins
           | RequestError # ins \<Rightarrow> poll_endpoint parse s (on_error ep) ins
           | _ \<Rightarrow> Inr (None, s, ep))
      | Streams finalized \<Rightarrow>
          (case ins of
             StreamEnd # ins \<Rightarrow>
               let ep = ep\<lparr>ep_error_counter := 0, ep_state := Ready\<rparr>;
                   prev_block = saturating_pred (req_first_block (ds_position s))
               in if ds_max_seen_finalized_block s \<le> prev_block \<and> ep_last_committed_block ep = Some prev_block
                  then Inr (Some EvMaybeOnHead, s, ep)
                  else poll_endpoint parse s ep ins
           | Item r # ins \<Rightarrow>
               (case parse r of
                  Inr b \<Rightarrow>
                    let ep = ep\<lparr>ep_error_counter := 0\<rparr>
                    in if req_first_block (ds_position s) \<le> bl_number b then
                         let is_final = (bl_number b \<le> finalized)
                         in case accept_new_block s b is_final of
                              Inl e \<Rightarrow> Inl e
                            | Inr (True, s) \<Rightarrow>
                                Inr (Some (EvBlock b is_final), s,
                                     ep\<lparr>ep_reject_counter := 0, ep_last_committed_block := Some (bl_number b)\<rparr>)
                            | Inr (False, s) \<Rightarrow> poll_endpoint parse s (on_reject ep) ins
                       else poll_endpoint parse s ep ins
                | Inl _ \<Rightarrow> poll_endpoint parse s (on_error ep) ins)
           | ItemError # ins \<Rightarrow> poll_endpoint parse s (on_error ep) ins
           | _ \<Rightarrow> Inr (None, s, ep))
      | OnFork req prev_blocks \<Rightarrow>
          if req = ds_position s then Inr (None, s, ep)
          else poll_endpoint parse s (ep\<lparr>ep_state := Ready\<rparr>) ins
      | Backoff _ \<Rightarrow>
          (case ins of
             Woken # ins \<Rightarrow> poll_endpoint parse s (ep\<lparr>ep_state := Ready\<rparr>) ins
           | _ \<Rightarrow> Inr (None, s, ep)))"
  by pat_completeness auto
termination
  by (relation "measure (\<lambda>(parse, s, ep, ins). 3 * length ins + state_rank (ep_state ep))")
     (auto simp: state_rank_def on_error_def on_reject_def pause_state_def split: endpoint_state.splits)

declare poll_endpoint.simps [simp del]

section \<open>The data source\<close>

record data_source =
  src_endpoints :: "endpoint list"
  src_state :: data_source_state

definition sds_new :: "nat \<Rightarrow> data_source" where
  "sds_new clients =
     \<lparr>src_endpoints = replicate clients \<lparr>ep_state = Ready, ep_error_counter = 0, ep_reject_counter = 0, ep_last_committed_block = None\<rparr>,
      src_state = \<lparr>ds_finalized_head = None, ds_position = \<lparr>req_first_block = 0, req_parent_block_hash = None\<rparr>,
        ds_position_is_canonical = False, ds_max_seen_finalized_block = 0, ds_fork_consensus_timeout = False,
        ds_fork_consensus_started = False\<rparr>\<rparr>"

definition set_position :: "u64 \<Rightarrow> bytes option \<Rightarrow> data_source \<Rightarrow> data_source" where
  "set_position next_pos parent_hash src =
     \<lparr>src_endpoints = map (\<lambda>ep. ep\<lparr>ep_state := Ready, ep_last_committed_block := None, ep_reject_counter := 0\<rparr>) (src_endpoints src),
      src_state = reset_fork_consensus ((src_state src)
        \<lparr>ds_position := \<lparr>req_first_block = next_pos, req_parent_block_hash = parent_hash\<rparr>,
         ds_position_is_canonical := False, ds_finalized_head := None\<rparr>)\<rparr>"

definition get_next_block :: "data_source \<Rightarrow> u64" where
  "get_next_block src = req_first_block (ds_position (src_state src))"

definition get_parent_block_hash_of :: "data_source \<Rightarrow> bytes option" where
  "get_parent_block_hash_of src = req_parent_block_hash (ds_position (src_state src))"

text \<open>Endpoints are polled in order until one has an event.\<close>

fun poll_endpoints ::
  "('r \<Rightarrow> db_err + 'p block_scheme) \<Rightarrow> (nat \<Rightarrow> 'r client_input list) \<Rightarrow> data_source_state \<Rightarrow> nat \<Rightarrow> endpoint list \<Rightarrow>
   db_err + (nat \<times> 'p data_event) option \<times> data_source_state \<times> endpoint list" where
  "poll_endpoints parse ins s i [] = Inr (None, s, [])"
| "poll_endpoints parse ins s i (ep # eps) =
     rbind (poll_endpoint parse s ep (ins i)) (\<lambda>(ev, s, ep).
     case ev of
       Some e \<Rightarrow> Inr (Some (i, e), s, ep # eps)
     | None \<Rightarrow> rbind (poll_endpoints parse ins s (i + 1) eps) (\<lambda>(r, s, eps). Inr (r, s, ep # eps)))"

definition forgive :: "endpoint \<Rightarrow> endpoint" where
  "forgive other =
     (let reject_attributable = (ep_reject_counter other > 0 \<and> ep_error_counter other = 0);
          other = other\<lparr>ep_reject_counter := 0\<rparr>
      in if reject_attributable \<and> \<not> is_active other then other\<lparr>ep_state := Ready\<rparr> else other)"

definition forgive_others :: "nat \<Rightarrow> endpoint list \<Rightarrow> endpoint list" where
  "forgive_others committed_idx eps = map (\<lambda>(j, ep). if j = committed_idx then ep else forgive ep) (enumerate 0 eps)"

definition fork_consensus_timeout :: "bool \<Rightarrow> data_source_state \<Rightarrow> bool \<times> data_source_state" where
  "fork_consensus_timeout fired s =
     (if fired then (True, s\<lparr>ds_fork_consensus_timeout := False\<rparr>) else (False, s\<lparr>ds_fork_consensus_timeout := True\<rparr>))"

definition longest_hints :: "endpoint list \<Rightarrow> block_ref list" where
  "longest_hints eps =
     fold (\<lambda>ep best. case ep_state ep of OnFork _ prev_blocks \<Rightarrow> if length best < length prev_blocks then prev_blocks else best | _ \<Rightarrow> best)
       eps []"

definition extract_fork :: "data_source \<Rightarrow> db_err + block_ref list \<times> data_source" where
  "extract_fork src =
     (let eps = src_endpoints src
      in rbind (ensure (longest_hints eps \<noteq> []) AssertPanic) (\<lambda>_.
         Inr (longest_hints eps, \<lparr>src_endpoints = map (\<lambda>ep. ep\<lparr>ep_state := Ready\<rparr>) eps, src_state = reset_fork_consensus (src_state src)\<rparr>)))"

definition is_block :: "'p data_event \<Rightarrow> bool" where
  "is_block e = (case e of EvBlock _ _ \<Rightarrow> True | _ \<Rightarrow> False)"

definition poll_next_event ::
  "('r \<Rightarrow> db_err + 'p block_scheme) \<Rightarrow> (nat \<Rightarrow> 'r client_input list) \<Rightarrow> bool \<Rightarrow> data_source \<Rightarrow> db_err + 'p data_event option \<times> data_source" where
  "poll_next_event parse ins timer_fired src =
     rbind (poll_endpoints parse ins (src_state src) 0 (src_endpoints src)) (\<lambda>(committed, s, eps).
     case committed of
       Some (committed_idx, e) \<Rightarrow>
         Inr (Some e, \<lparr>src_endpoints = (if is_block e then forgive_others committed_idx eps else eps), src_state = s\<rparr>)
     | None \<Rightarrow>
         let forks = length (filter is_on_fork eps); active = length (filter is_active eps)
         in if forks > 0 then
              let early = (length eps div 2 < forks \<or> forks = active);
                  (decided, s) = (if early then (True, s) else fork_consensus_timeout timer_fired s)
              in if \<not> decided then Inr (None, \<lparr>src_endpoints = eps, src_state = s\<rparr>)
                 else
                   rbind (ensure (ds_fork_consensus_started s) AssertPanic) (\<lambda>_.
                   rbind (extract_fork \<lparr>src_endpoints = eps, src_state = s\<rparr>) (\<lambda>(chain, src).
                   Inr (Some (EvFork chain), src)))
            else Inr (None, \<lparr>src_endpoints = eps, src_state = reset_fork_consensus s\<rparr>))"

end
