(* ===== verification/SourceProps.thy ===== *)
theory SourceProps
  imports DataSource
begin

text \<open>
  Properties of the data source: it never panics, the blocks it emits continue its position one after
  the other, its finalized head only rises, and a fork is reported only by consensus.
\<close>

section \<open>Induction over a poll\<close>

lemma accept_cases:
  "req_first_block (ds_position s) \<le> bl_number b \<Longrightarrow>
     accept_new_block s b fin = Inr (False, s) \<or> (\<exists>s'. accept_new_block s b fin = Inr (True, s'))"
  by (simp add: accept_new_block_def Let_def split: option.splits)

text \<open>
  An invariant \<open>I\<close> kept by every turn of the loop gives the postcondition \<open>Q\<close> of the poll.
\<close>

lemma poll_endpoint_rule:
  assumes I: "I s ep" and ok: "\<forall>i\<in>set ins. ok i"
    and pending: "\<And>s ep. I s ep \<Longrightarrow> (\<And>req prev. ep_state ep = OnFork req prev \<Longrightarrow> req = ds_position s) \<Longrightarrow> Q None s ep"
    and ready: "\<And>s ep. I s ep \<Longrightarrow> ep_state ep = Ready \<Longrightarrow> I s (ep\<lparr>ep_state := Req (ds_position s)\<rparr>)"
    and wake: "\<And>s ep. I s ep \<Longrightarrow> \<not> is_active ep \<or> is_on_fork ep \<Longrightarrow> I s (ep\<lparr>ep_state := Ready\<rparr>)"
    and err: "\<And>s ep. I s ep \<Longrightarrow> I s (on_error ep)"
    and calm: "\<And>s ep. I s ep \<Longrightarrow> I s (ep\<lparr>ep_error_counter := 0\<rparr>)"
    and rej: "\<And>s ep. I s ep \<Longrightarrow> I s (on_reject ep)"
    and streams: "\<And>s ep fh u s'. I s ep \<Longrightarrow> ok (Streaming fh) \<Longrightarrow> on_new_finalized_head s fh = (u, s') \<Longrightarrow>
      (let ep' = ep\<lparr>ep_error_counter := 0, ep_state := Streams (case fh of Some b \<Rightarrow> br_number b | None \<Rightarrow> 0)\<rparr>
       in if u then Q (map_option EvFinalizedHead fh) s' ep' else I s' ep')"
    and forked: "\<And>s ep req prev. I s ep \<Longrightarrow> ep_state ep = Req req \<Longrightarrow> ok (Forked prev) \<Longrightarrow>
      I (s\<lparr>ds_fork_consensus_started := True\<rparr>) (ep\<lparr>ep_error_counter := 0, ep_state := OnFork req prev\<rparr>)"
    and ended: "\<And>s ep. I s ep \<Longrightarrow> I s (ep\<lparr>ep_error_counter := 0, ep_state := Ready\<rparr>) \<and>
      Q (Some EvMaybeOnHead) s (ep\<lparr>ep_error_counter := 0, ep_state := Ready\<rparr>)"
    and block: "\<And>s ep r b fin s'. I s ep \<Longrightarrow> ok (Item r) \<Longrightarrow> parse r = Inr b \<Longrightarrow> accept_new_block s b fin = Inr (True, s') \<Longrightarrow>
      Q (Some (EvBlock b fin)) s' (ep\<lparr>ep_error_counter := 0, ep_reject_counter := 0, ep_last_committed_block := Some (bl_number b)\<rparr>)"
  shows "\<exists>ev s' ep'. poll_endpoint parse s ep ins = Inr (ev, s', ep') \<and> Q ev s' ep'"
  using I ok block
proof (induction parse s ep ins rule: poll_endpoint.induct)
  case (1 parse s ep ins)
  note I = "1.prems"(1) and ok = "1.prems"(2) and block = "1.prems"(3)
  note unfold = poll_endpoint.simps [of parse s ep ins]
  show ?case
  proof (cases "ep_state ep")
    case Ready
    then show ?thesis using "1.IH"(1) [OF Ready ready [OF I Ready] ok] block unfold by simp
  next
    case (Req req)
    show ?thesis
    proof (cases ins)
      case Nil
      then show ?thesis using pending [OF I] unfold Req by simp
    next
      case (Cons i ins')
      have ok': "\<forall>i\<in>set ins'. ok i" "ok i" using ok Cons by simp_all
      show ?thesis
      proof (cases i)
        case (Streaming fh)
        obtain u s' where u: "on_new_finalized_head s fh = (u, s')" by fastforce
        note st = streams [OF I ok'(2) [unfolded Streaming] u, unfolded Let_def]
        show ?thesis
        proof (cases u)
          case True
          then show ?thesis using st u unfold Req Cons Streaming by simp
        next
          case False
          then show ?thesis using st "1.IH"(2) [OF Req Cons Streaming refl u [symmetric] refl False _ ok'(1) block] u unfold Req Cons Streaming by simp
        qed
      next
        case (Forked prev)
        then show ?thesis
          using "1.IH"(3) [OF Req Cons Forked forked [OF I Req] ok'(1) block] ok'(2) unfold Req Cons by simp
      next
        case RequestError
        then show ?thesis using "1.IH"(4) [OF Req Cons RequestError err [OF I] ok'(1) block] unfold Req Cons by simp
      qed (use pending [OF I] unfold Req Cons in simp_all)
    qed
  next
    case (Streams fin)
    show ?thesis
    proof (cases ins)
      case Nil
      then show ?thesis using pending [OF I] unfold Streams by simp
    next
      case (Cons i ins')
      have ok': "\<forall>i\<in>set ins'. ok i" "ok i" using ok Cons by simp_all
      show ?thesis
      proof (cases i)
        case (Item r)
        show ?thesis
        proof (cases "parse r")
          case (Inl e)
          then show ?thesis using "1.IH"(5) [OF Streams Cons Item Inl err [OF I] ok'(1) block] unfold Streams Cons Item by simp
        next
          case (Inr b)
          let ?ep = "ep\<lparr>ep_error_counter := 0\<rparr>" and ?fin = "bl_number b \<le> fin"
          show ?thesis
          proof (cases "req_first_block (ds_position s) \<le> bl_number b")
            case True
            from accept_cases [OF True, of ?fin] show ?thesis
            proof
              assume a: "accept_new_block s b ?fin = Inr (False, s)"
              have "I s (on_reject ?ep)" by (rule rej [OF calm [OF I]])
              then show ?thesis
                using "1.IH"(6) [OF Streams Cons Item Inr refl True refl a refl refl _ ok'(1) block] unfold Streams Cons Item Inr True a by simp
            next
              assume "\<exists>s'. accept_new_block s b ?fin = Inr (True, s')"
              then obtain s' where a: "accept_new_block s b ?fin = Inr (True, s')" by blast
              then show ?thesis using block [OF I ok'(2) [unfolded Item] Inr a] unfold Streams Cons Item Inr True by simp
            qed
          next
            case False
            then show ?thesis using "1.IH"(7) [OF Streams Cons Item Inr refl False calm [OF I] ok'(1) block] unfold Streams Cons Item Inr by simp
          qed
        qed
      next
        case ItemError
        then show ?thesis using "1.IH"(8) [OF Streams Cons ItemError err [OF I] ok'(1) block] unfold Streams Cons by simp
      next
        case StreamEnd
        then show ?thesis using "1.IH"(9) [OF Streams Cons StreamEnd refl refl _ _ ok'(1) block] ended [OF I] unfold Streams Cons by (simp add: Let_def)
      qed (use pending [OF I] unfold Streams Cons in simp_all)
    qed
  next
    case (OnFork req prev)
    show ?thesis
    proof (cases "req = ds_position s")
      case True
      then show ?thesis using OnFork pending [OF I] unfold by simp
    next
      case False
      have "I s (ep\<lparr>ep_state := Ready\<rparr>)" using wake [OF I] OnFork by (simp add: is_on_fork_def)
      then show ?thesis using "1.IH" ok block unfold OnFork False by simp
    qed
  next
    case (Backoff n)
    show ?thesis
    proof (cases "\<exists>ins'. ins = Woken # ins'")
      case True
      then obtain ins' where ins: "ins = Woken # ins'" by blast
      have "I s (ep\<lparr>ep_state := Ready\<rparr>)" using wake [OF I] Backoff by (simp add: is_active_def)
      then show ?thesis using "1.IH"(11) [OF Backoff ins refl _ _ block] ok unfold Backoff ins by simp
    next
      case False
      then show ?thesis using pending [OF I] unfold Backoff by (auto split: list.splits client_input.splits)
    qed
  qed
qed

section \<open>Invariant of the source\<close>

text \<open>A block continues a position; the position after it.\<close>

definition extends :: "block_stream_request \<Rightarrow> 'p block_scheme \<Rightarrow> bool" where
  "extends p b \<longleftrightarrow> req_first_block p \<le> bl_number b \<and> (\<forall>h. req_parent_block_hash p = Some h \<longrightarrow> bl_parent_hash b = h)"

definition advance :: "'p block_scheme \<Rightarrow> block_stream_request" where
  "advance b = \<lparr>req_first_block = bl_number b + 1, req_parent_block_hash = Some (bl_hash b)\<rparr>"

text \<open>Outstanding requests are not ahead of the position; a fork signal at the position has started the consensus.\<close>

definition endpoint_ok :: "data_source_state \<Rightarrow> endpoint \<Rightarrow> bool" where
  "endpoint_ok s ep \<longleftrightarrow>
     (case ep_state ep of
        Req req \<Rightarrow> req_first_block req \<le> req_first_block (ds_position s)
      | OnFork req prev \<Rightarrow> req_first_block req \<le> req_first_block (ds_position s) \<and> prev \<noteq> [] \<and>
          (req = ds_position s \<longrightarrow> ds_fork_consensus_started s)
      | _ \<Rightarrow> True)"

definition finality_ok :: "data_source_state \<Rightarrow> bool" where
  "finality_ok s \<longleftrightarrow> (\<forall>f. ds_finalized_head s = Some f \<longrightarrow> br_number f < req_first_block (ds_position s))"

definition finality_up :: "data_source_state \<Rightarrow> data_source_state \<Rightarrow> bool" where
  "finality_up s s' \<longleftrightarrow> (\<forall>f. ds_finalized_head s = Some f \<longrightarrow> (\<exists>g. ds_finalized_head s' = Some g \<and> br_number f \<le> br_number g))"

text \<open>What an event says of the states before and after it.\<close>

definition quiet :: "data_source_state \<Rightarrow> data_source_state \<Rightarrow> bool" where
  "quiet s s' \<longleftrightarrow> finality_up s s' \<and> ds_position s' = ds_position s \<and> (ds_fork_consensus_started s \<longrightarrow> ds_fork_consensus_started s')"

definition turn :: "data_source_state \<Rightarrow> 'p data_event option \<Rightarrow> data_source_state \<Rightarrow> bool" where
  "turn s ev s' \<longleftrightarrow> finality_up s s' \<and>
     (case ev of
        Some (EvBlock b fin) \<Rightarrow> extends (ds_position s) b \<and> ds_position s' = advance b \<and>
          req_first_block (ds_position s) < req_first_block (ds_position s')
      | Some (EvFork _) \<Rightarrow> False
      | _ \<Rightarrow> ds_position s' = ds_position s \<and> (ds_fork_consensus_started s \<longrightarrow> ds_fork_consensus_started s'))"

text \<open>Clients do not send empty fork hints, and block numbers leave room for a successor.\<close>

definition input_ok :: "('r \<Rightarrow> db_err + 'p block_scheme) \<Rightarrow> 'r client_input \<Rightarrow> bool" where
  "input_ok parse i \<longleftrightarrow> i \<noteq> Forked [] \<and> (\<forall>r b. i = Item r \<longrightarrow> parse r = Inr b \<longrightarrow> bl_number b < bl_number b + 1)"

lemma finality_up_trans: "finality_up a b \<Longrightarrow> finality_up b c \<Longrightarrow> finality_up a c"
  unfolding finality_up_def by (meson order_trans)

lemma turn_none: "turn s None s' \<longleftrightarrow> quiet s s'"
  by (auto simp: turn_def quiet_def)

lemma turn_trans: "quiet a b \<Longrightarrow> turn b ev c \<Longrightarrow> turn a ev c"
  using finality_up_trans [of a b c] by (auto simp: turn_def quiet_def split: option.splits data_event.splits)

lemma quiet_trans: "quiet a b \<Longrightarrow> quiet b c \<Longrightarrow> quiet a c"
  using finality_up_trans [of a b c] by (auto simp: quiet_def)

lemma endpoint_ok_turn: "endpoint_ok s ep \<Longrightarrow> turn s ev s' \<Longrightarrow> endpoint_ok s' ep"
  by (auto simp: endpoint_ok_def turn_def split: endpoint_state.splits option.splits data_event.splits)

lemma pause_ok [simp]: "endpoint_ok s (on_error ep)" "endpoint_ok s (on_reject ep)"
  by (simp_all add: endpoint_ok_def on_error_def on_reject_def pause_state_def)

lemma new_finality:
  assumes "on_new_finalized_head s fh = (u, s')" and "finality_ok s"
  shows "ds_position s' = ds_position s" "ds_fork_consensus_started s' = ds_fork_consensus_started s" "finality_ok s'" "finality_up s s'"
    "u \<Longrightarrow> fh \<noteq> None"
proof -
  have "p - 1 < p" if "p \<noteq> 0" for p :: u64
    using that unat_gt_0 [of p] by (simp add: word_less_nat_alt unat_minus_one)
  moreover have "c \<le> p - 1" if "c < p" for c p :: u64
  proof -
    have "p \<noteq> 0" using that by auto
    then show ?thesis using that by (simp add: word_less_nat_alt word_le_nat_alt unat_minus_one)
  qed
  ultimately show "ds_position s' = ds_position s" "ds_fork_consensus_started s' = ds_fork_consensus_started s" "finality_ok s'" "finality_up s s'"
    "u \<Longrightarrow> fh \<noteq> None"
    using assms
    by (auto simp: on_new_finalized_head_def finality_ok_def finality_up_def Let_def split: option.splits if_splits)
qed

lemma accepted:
  assumes "accept_new_block s b fin = Inr (True, s')" and "bl_number b < bl_number b + 1" and "finality_ok s"
  shows "turn s (Some (EvBlock b fin)) s'" "finality_ok s'"
  using assms
  by (auto simp: accept_new_block_def turn_def extends_def advance_def finality_ok_def finality_up_def reset_fork_consensus_def Let_def
      split: option.splits if_splits)

lemma poll_endpoint_turn:
  assumes "endpoint_ok s ep" "finality_ok s" "\<forall>i\<in>set ins. input_ok parse i"
  shows "\<exists>ev s' ep'. poll_endpoint parse s ep ins = Inr (ev, s', ep') \<and> turn s ev s' \<and> endpoint_ok s' ep' \<and> finality_ok s' \<and>
    (ev = None \<longrightarrow> (\<forall>req prev. ep_state ep' = OnFork req prev \<longrightarrow> req = ds_position s'))"
proof (rule poll_endpoint_rule [where I = "\<lambda>s' ep'. quiet s s' \<and> endpoint_ok s' ep' \<and> finality_ok s'" and ok = "input_ok parse"])
  show "quiet s s \<and> endpoint_ok s ep \<and> finality_ok s" using assms by (simp add: quiet_def finality_up_def)
  show "\<forall>i\<in>set ins. input_ok parse i" by (rule assms(3))
next
  fix s' ep' fh u s''
  assume I: "quiet s s' \<and> endpoint_ok s' ep' \<and> finality_ok s'" and u: "on_new_finalized_head s' fh = (u, s'')"
  note n = new_finality [OF u conjunct2 [OF conjunct2 [OF I]]]
  have "quiet s' s''" using n by (simp add: quiet_def)
  then have "quiet s s''" using I quiet_trans by blast
  then show "let e = ep'\<lparr>ep_error_counter := 0, ep_state := Streams (case fh of Some b \<Rightarrow> br_number b | None \<Rightarrow> 0)\<rparr>
    in if u then turn s (map_option EvFinalizedHead fh) s'' \<and> endpoint_ok s'' e \<and> finality_ok s'' \<and>
        (map_option EvFinalizedHead fh = None \<longrightarrow> (\<forall>req prev. ep_state e = OnFork req prev \<longrightarrow> req = ds_position s''))
      else quiet s s'' \<and> endpoint_ok s'' e \<and> finality_ok s''"
    using n(3) by (cases fh) (simp_all add: endpoint_ok_def Let_def turn_def quiet_def)
next
  fix s' ep' r b fin s''
  assume I: "quiet s s' \<and> endpoint_ok s' ep' \<and> finality_ok s'" and i: "input_ok parse (Item r)" "parse r = Inr b"
    and a: "accept_new_block s' b fin = Inr (True, s'')"
  have "bl_number b < bl_number b + 1" using i by (simp add: input_ok_def)
  note n = accepted [OF a this conjunct2 [OF conjunct2 [OF I]]]
  have "turn s (Some (EvBlock b fin)) s''" using I n(1) turn_trans by blast
  moreover have "endpoint_ok s'' ep'" using endpoint_ok_turn [OF _ n(1)] I by blast
  ultimately show "turn s (Some (EvBlock b fin)) s'' \<and>
      endpoint_ok s'' (ep'\<lparr>ep_error_counter := 0, ep_reject_counter := 0, ep_last_committed_block := Some (bl_number b)\<rparr>) \<and> finality_ok s'' \<and>
      (Some (EvBlock b fin) = None \<longrightarrow> (\<forall>req prev. ep_state (ep'\<lparr>ep_error_counter := 0, ep_reject_counter := 0,
        ep_last_committed_block := Some (bl_number b)\<rparr>) = OnFork req prev \<longrightarrow> req = ds_position s''))"
    using n(2) by (simp add: endpoint_ok_def)
qed (auto simp: endpoint_ok_def turn_def quiet_def finality_up_def finality_ok_def input_ok_def on_error_def on_reject_def pause_state_def)

definition at_position :: "data_source_state \<Rightarrow> endpoint \<Rightarrow> bool" where
  "at_position s ep \<longleftrightarrow> (\<forall>req prev. ep_state ep = OnFork req prev \<longrightarrow> req = ds_position s)"

lemma poll_endpoints_turn:
  assumes "\<forall>ep\<in>set eps. endpoint_ok s ep" "finality_ok s" and ins: "\<forall>j. \<forall>i\<in>set (ins j). input_ok parse i"
  shows "\<exists>r s' eps'. poll_endpoints parse ins s i eps = Inr (r, s', eps') \<and> turn s (map_option snd r) s' \<and> length eps' = length eps \<and>
    (\<forall>ep\<in>set eps'. endpoint_ok s' ep) \<and> finality_ok s' \<and> (r = None \<longrightarrow> (\<forall>ep\<in>set eps'. at_position s' ep))"
  using assms(1,2)
proof (induction eps arbitrary: s i)
  case Nil
  then show ?case by (simp add: turn_def finality_up_def)
next
  case (Cons ep eps)
  have "endpoint_ok s ep" using Cons.prems by simp
  then obtain ev s1 ep1 where p: "poll_endpoint parse s ep (ins i) = Inr (ev, s1, ep1)" "turn s ev s1" "endpoint_ok s1 ep1" "finality_ok s1"
    "ev = None \<longrightarrow> at_position s1 ep1"
    using poll_endpoint_turn [OF _ Cons.prems(2), of ep "ins i" parse] ins unfolding at_position_def by blast
  have rest: "\<forall>e\<in>set eps. endpoint_ok s1 e" using Cons.prems(1) endpoint_ok_turn [OF _ p(2)] by simp
  show ?case
  proof (cases ev)
    case (Some e)
    then show ?thesis using p rest by simp
  next
    case None
    obtain r s2 eps2 where q: "poll_endpoints parse ins s1 (i + 1) eps = Inr (r, s2, eps2)" "turn s1 (map_option snd r) s2" "length eps2 = length eps"
      "\<forall>ep\<in>set eps2. endpoint_ok s2 ep" "finality_ok s2" "r = None \<longrightarrow> (\<forall>ep\<in>set eps2. at_position s2 ep)"
      using Cons.IH [OF rest p(4)] by blast
    have "turn s (map_option snd r) s2" using turn_trans [OF p(2) [unfolded None turn_none] q(2)] .
    moreover have "endpoint_ok s2 ep1" by (rule endpoint_ok_turn [OF p(3) q(2)])
    moreover have "r = None \<longrightarrow> at_position s2 ep1" using q(2) p(5) None by (auto simp: turn_def at_position_def)
    ultimately show ?thesis using p(1) None q by simp
  qed
qed

lemma longest_hints_fold:
  fixes best :: "block_ref list"
  defines "pick \<equiv> (\<lambda>ep best. case ep_state ep of OnFork _ prev \<Rightarrow> if length best < length prev then prev else best | _ \<Rightarrow> best)"
  shows "(fold pick eps best = best \<or> (\<exists>ep\<in>set eps. \<exists>req. ep_state ep = OnFork req (fold pick eps best))) \<and>
    length best \<le> length (fold pick eps best) \<and>
    (\<forall>ep\<in>set eps. \<forall>req prev. ep_state ep = OnFork req prev \<longrightarrow> length prev \<le> length (fold pick eps best))"
proof (induction eps arbitrary: best)
  case (Cons ep eps)
  have "length best \<le> length (pick ep best)" "pick ep best = best \<or> (\<exists>req. ep_state ep = OnFork req (pick ep best))"
    "\<forall>req prev. ep_state ep = OnFork req prev \<longrightarrow> length prev \<le> length (pick ep best)"
    by (simp_all add: pick_def split: endpoint_state.splits)
  then show ?case using Cons.IH [of "pick ep best"] by (auto intro: order_trans)
qed simp

lemma longest_hints:
  shows "longest_hints eps \<noteq> [] \<Longrightarrow> \<exists>ep\<in>set eps. \<exists>req. ep_state ep = OnFork req (longest_hints eps)"
    "ep \<in> set eps \<Longrightarrow> ep_state ep = OnFork req prev \<Longrightarrow> length prev \<le> length (longest_hints eps)"
  using longest_hints_fold [of eps "[]"] unfolding longest_hints_def by auto

definition data_source_ok :: "data_source \<Rightarrow> bool" where
  "data_source_ok src \<longleftrightarrow> (\<forall>ep\<in>set (src_endpoints src). endpoint_ok (src_state src) ep) \<and> finality_ok (src_state src)"

text \<open>Endpoints agree on a fork: most of them, all that are active, or those that did before the timer ran out.\<close>

definition consensus :: "endpoint list \<Rightarrow> bool \<Rightarrow> bool" where
  "consensus eps timer_fired \<longleftrightarrow>
     (let forks = length (filter is_on_fork eps)
      in length eps div 2 < forks \<or> forks = length (filter is_active eps) \<or> timer_fired)"

definition source_turn :: "data_source \<Rightarrow> 'p data_event option \<Rightarrow> data_source \<Rightarrow> bool" where
  "source_turn src ev src' \<longleftrightarrow> finality_up (src_state src) (src_state src') \<and> length (src_endpoints src') = length (src_endpoints src) \<and>
     (case ev of
        Some (EvBlock b fin) \<Rightarrow> extends (ds_position (src_state src)) b \<and> ds_position (src_state src') = advance b
      | _ \<Rightarrow> ds_position (src_state src') = ds_position (src_state src))"

lemma forgive_ok: "endpoint_ok s ep \<Longrightarrow> endpoint_ok s (forgive ep)"
  by (auto simp: forgive_def endpoint_ok_def Let_def is_active_def split: endpoint_state.splits)

lemma forgive_others_simps:
  "length (forgive_others k eps) = length eps" "ep \<in> set (forgive_others k eps) \<Longrightarrow> \<exists>e\<in>set eps. ep = e \<or> ep = forgive e"
  by (auto simp: forgive_others_def set_zip enumerate_eq_zip) (metis nth_mem)+

lemma on_fork_state: "is_on_fork ep \<longleftrightarrow> (\<exists>req prev. ep_state ep = OnFork req prev)"
  by (auto simp: is_on_fork_def split: endpoint_state.splits)

text \<open>The decision about a fork, after all endpoints were polled.\<close>

definition fork_decided :: "endpoint list \<Rightarrow> data_source_state \<Rightarrow> bool \<Rightarrow> block_ref list \<Rightarrow> bool" where
  "fork_decided eps s timer_fired hints \<longleftrightarrow>
     consensus eps timer_fired \<and> (\<forall>ep\<in>set eps. at_position s ep) \<and>
     (\<exists>ep\<in>set eps. \<exists>req. ep_state ep = OnFork req hints) \<and>
     (\<forall>ep\<in>set eps. \<forall>req prev. ep_state ep = OnFork req prev \<longrightarrow> length prev \<le> length hints)"

lemma fork_step:
  assumes ok: "\<forall>ep\<in>set eps. endpoint_ok s ep" "\<forall>ep\<in>set eps. at_position s ep" and f: "0 < length (filter is_on_fork eps)"
  shows "ds_fork_consensus_started s" "longest_hints eps \<noteq> []"
proof -
  obtain ep where ep: "ep \<in> set eps" "is_on_fork ep" using f by (metis filter_False less_numeral_extra(3) list.size(3))
  then obtain req prev where st: "ep_state ep = OnFork req prev" by (auto simp: on_fork_state)
  then show "ds_fork_consensus_started s" using ok ep(1) by (auto simp: endpoint_ok_def at_position_def)
  have "prev \<noteq> []" using ok ep(1) st by (auto simp: endpoint_ok_def)
  then show "longest_hints eps \<noteq> []" using longest_hints(2) [OF ep(1) st] by auto
qed

lemma poll_next_event_turn:
  assumes ok: "data_source_ok src" and ins: "\<forall>j. \<forall>i\<in>set (ins j). input_ok parse i"
  shows "\<exists>ev src'. poll_next_event parse ins timer src = Inr (ev, src') \<and> source_turn src ev src' \<and> data_source_ok src' \<and>
    (\<forall>hints. ev = Some (EvFork hints) \<longrightarrow> (\<exists>eps s. poll_endpoints parse ins (src_state src) 0 (src_endpoints src) = Inr (None, s, eps) \<and>
       ds_position s = ds_position (src_state src) \<and> fork_decided eps s timer hints \<and>
       src_endpoints src' = map (\<lambda>ep. ep\<lparr>ep_state := Ready\<rparr>) eps))"
proof -
  obtain r s eps where p: "poll_endpoints parse ins (src_state src) 0 (src_endpoints src) = Inr (r, s, eps)" "turn (src_state src) (map_option snd r) s"
    "length eps = length (src_endpoints src)" "\<forall>ep\<in>set eps. endpoint_ok s ep" "finality_ok s" "r = None \<longrightarrow> (\<forall>ep\<in>set eps. at_position s ep)"
    using poll_endpoints_turn [OF _ _ ins, of "src_endpoints src" "src_state src" 0] ok unfolding data_source_ok_def by blast
  show ?thesis
  proof (cases r)
    case (Some ie)
    obtain i e where ie: "ie = (i, e)" by (cases ie)
    let ?src = "\<lparr>src_endpoints = (if is_block e then forgive_others i eps else eps), src_state = s\<rparr>"
    have "\<forall>ep\<in>set (forgive_others i eps). endpoint_ok s ep" using forgive_others_simps(2) [of _ i eps] p(4) forgive_ok by blast
    then have "data_source_ok ?src" using p(4,5) by (simp add: data_source_ok_def)
    moreover have "source_turn src (Some e) ?src"
      using p(2,3) Some ie by (auto simp: source_turn_def turn_def forgive_others_simps(1) split: data_event.splits)
    moreover have "poll_next_event parse ins timer src = Inr (Some e, ?src)" using p(1) Some ie by (simp add: poll_next_event_def)
    moreover have "e \<noteq> EvFork hints" for hints using p(2) Some ie by (auto simp: turn_def)
    ultimately show ?thesis by blast
  next
    case None
    let ?forks = "length (filter is_on_fork eps)" and ?active = "length (filter is_active eps)"
    let ?early = "length eps div 2 < ?forks \<or> ?forks = ?active"
    have pos: "ds_position s = ds_position (src_state src)" "finality_up (src_state src) s" using p(2) None by (simp_all add: turn_def)
    have at: "\<forall>ep\<in>set eps. at_position s ep" using p(6) None by simp
    have quiet: "source_turn src None \<lparr>src_endpoints = eps', src_state = s'\<rparr>" "source_turn src (Some (EvFork hints)) \<lparr>src_endpoints = eps', src_state = s'\<rparr>"
      if "length eps' = length eps" "ds_position s' = ds_position s" "ds_finalized_head s' = ds_finalized_head s" for eps' s' hints
      using that pos p(3) by (simp_all add: source_turn_def finality_up_def)
    show ?thesis
    proof (cases "?forks > 0")
      case False
      then have "\<forall>ep\<in>set eps. endpoint_ok (reset_fork_consensus s) ep"
        using p(4) by (auto simp: endpoint_ok_def reset_fork_consensus_def filter_empty_conv on_fork_state split: endpoint_state.splits)
      then show ?thesis
        using p(1,5) None False quiet(1) [of eps "reset_fork_consensus s"]
        by (simp add: poll_next_event_def data_source_ok_def finality_ok_def reset_fork_consensus_def)
    next
      case True
      note st = fork_step [OF p(4) at True]
      obtain decided s1 where d: "(if ?early then (True, s) else fork_consensus_timeout timer s) = (decided, s1)" by fastforce
      have s1: "ds_position s1 = ds_position s" "ds_finalized_head s1 = ds_finalized_head s" "ds_fork_consensus_started s1 = ds_fork_consensus_started s"
        "decided \<longrightarrow> consensus eps timer"
        using d by (auto simp: fork_consensus_timeout_def consensus_def split: if_splits)
      show ?thesis
      proof (cases decided)
        case False
        have "\<forall>ep\<in>set eps. endpoint_ok s1 ep" using p(4) unfolding endpoint_ok_def s1 .
        then show ?thesis
          using p(1,5) None True False d s1 quiet(1) [of eps s1]
          by (simp add: poll_next_event_def data_source_ok_def finality_ok_def)
      next
        case decided: True
        let ?src = "\<lparr>src_endpoints = map (\<lambda>ep. ep\<lparr>ep_state := Ready\<rparr>) eps, src_state = reset_fork_consensus s1\<rparr>"
        have run: "poll_next_event parse ins timer src = Inr (Some (EvFork (longest_hints eps)), ?src)"
          using p(1) None True decided d s1(3) st by (simp add: poll_next_event_def extract_fork_def)
        have "fork_decided eps s timer (longest_hints eps)"
          using s1(4) decided at longest_hints(1) [OF st(2)] longest_hints(2) [where eps = eps] by (auto simp: fork_decided_def)
        moreover have "data_source_ok ?src"
          using p(5) s1 by (simp add: data_source_ok_def finality_ok_def endpoint_ok_def reset_fork_consensus_def)
        moreover have "source_turn src (Some (EvFork (longest_hints eps))) ?src" by (rule quiet(2)) (simp_all add: s1 reset_fork_consensus_def)
        moreover have "poll_endpoints parse ins (src_state src) 0 (src_endpoints src) = Inr (None, s, eps)" using p(1) None by simp
        ultimately show ?thesis using run pos(1) by fastforce
      qed
    qed
  qed
qed

section \<open>Runs\<close>

text \<open>Polling with successive inputs, and the blocks among the events.\<close>

fun run_source ::
  "('r \<Rightarrow> db_err + 'p block_scheme) \<Rightarrow> ((nat \<Rightarrow> 'r client_input list) \<times> bool) list \<Rightarrow> data_source \<Rightarrow> db_err + 'p data_event list \<times> data_source" where
  "run_source parse [] src = Inr ([], src)"
| "run_source parse ((ins, timer) # polls) src =
     rbind (poll_next_event parse ins timer src) (\<lambda>(ev, src).
     rbind (run_source parse polls src) (\<lambda>(evs, src).
     Inr (case ev of Some e \<Rightarrow> e # evs | None \<Rightarrow> evs, src)))"

fun blocks_in :: "'p data_event list \<Rightarrow> 'p block_scheme list" where
  "blocks_in [] = []"
| "blocks_in (EvBlock b fin # evs) = b # blocks_in evs"
| "blocks_in (_ # evs) = blocks_in evs"

fun follows :: "block_stream_request \<Rightarrow> 'p block_scheme list \<Rightarrow> bool" where
  "follows p [] \<longleftrightarrow> True"
| "follows p (b # bs) \<longleftrightarrow> extends p b \<and> follows (advance b) bs"

definition position_after :: "block_stream_request \<Rightarrow> 'p block_scheme list \<Rightarrow> block_stream_request" where
  "position_after p bs = (if bs = [] then p else advance (last bs))"

definition polls_ok :: "('r \<Rightarrow> db_err + 'p block_scheme) \<Rightarrow> ((nat \<Rightarrow> 'r client_input list) \<times> bool) list \<Rightarrow> bool" where
  "polls_ok parse polls \<longleftrightarrow> (\<forall>p\<in>set polls. \<forall>j. \<forall>i\<in>set (fst p j). input_ok parse i)"

lemma run_source_result:
  assumes "data_source_ok src" "polls_ok parse polls"
  shows "\<exists>evs src'. run_source parse polls src = Inr (evs, src') \<and> data_source_ok src' \<and>
    follows (ds_position (src_state src)) (blocks_in evs) \<and>
    ds_position (src_state src') = position_after (ds_position (src_state src)) (blocks_in evs) \<and> finality_up (src_state src) (src_state src')"
  using assms
proof (induction polls arbitrary: src)
  case Nil
  then show ?case by (simp add: position_after_def finality_up_def)
next
  case (Cons p polls)
  obtain ins timer where p: "p = (ins, timer)" by (cases p)
  obtain ev src1 where e: "poll_next_event parse ins timer src = Inr (ev, src1)" "source_turn src ev src1" "data_source_ok src1"
    using poll_next_event_turn [OF Cons.prems(1), of ins parse timer] Cons.prems(2) p by (auto simp: polls_ok_def)
  obtain evs src' where r: "run_source parse polls src1 = Inr (evs, src')" "data_source_ok src'"
    "follows (ds_position (src_state src1)) (blocks_in evs)" "ds_position (src_state src') = position_after (ds_position (src_state src1)) (blocks_in evs)"
    "finality_up (src_state src1) (src_state src')"
    using Cons.IH [OF e(3)] Cons.prems(2) by (auto simp: polls_ok_def)
  have up: "finality_up (src_state src) (src_state src')" using e(2) finality_up_trans [OF _ r(5)] by (simp add: source_turn_def)
  show ?case
    using e r up p
    by (cases ev rule: option.exhaust [case_product data_event.exhaust]) (auto simp: source_turn_def position_after_def split: option.splits data_event.splits)
qed

inductive source_reach for parse :: "'r \<Rightarrow> db_err + 'p block_scheme" where
  created: "source_reach parse (sds_new n)"
| positioned: "source_reach parse (set_position n h src)" if "source_reach parse src"
| polled: "source_reach parse src'"
    if "source_reach parse src" "\<forall>j. \<forall>i\<in>set (ins j). input_ok parse i" "poll_next_event parse ins timer src = Inr (ev, src')"

lemma set_position_ok: "data_source_ok (set_position n h src)"
  by (auto simp: data_source_ok_def set_position_def endpoint_ok_def finality_ok_def reset_fork_consensus_def)

lemma source_reach_ok: "source_reach parse src \<Longrightarrow> data_source_ok src"
proof (induction rule: source_reach.induct)
  case (created n)
  then show ?case by (simp add: data_source_ok_def sds_new_def endpoint_ok_def finality_ok_def)
next
  case (positioned src n h)
  show ?case by (rule set_position_ok)
next
  case (polled src ins timer ev src')
  then show ?case using poll_next_event_turn [OF polled.IH polled.hyps(2), of timer] by auto
qed

section \<open>Properties\<close>

definition ex_block :: "u64 \<Rightarrow> bytes \<Rightarrow> bytes \<Rightarrow> block" where
  "ex_block n h p = \<lparr>bl_number = n, bl_hash = h, bl_parent_hash = p, bl_timestamp = None, bl_mask = 0\<rparr>"

text \<open>
  C29: from any position, whatever the endpoints answer, errors, non-linking blocks and forks included,
  the source never panics, and the blocks it emits continue that position: every block names the hash
  of the block before it as its parent and has a higher number. The position of the source is always
  right after the last emitted block, and its finalized head stays below it.
\<close>

theorem source_emits_chain:
  assumes "polls_ok parse polls"
  shows "\<exists>evs src'. run_source parse polls (set_position n h src) = Inr (evs, src') \<and>
    follows \<lparr>req_first_block = n, req_parent_block_hash = h\<rparr> (blocks_in evs) \<and>
    ds_position (src_state src') = position_after \<lparr>req_first_block = n, req_parent_block_hash = h\<rparr> (blocks_in evs) \<and>
    finality_ok (src_state src')"
proof -
  have "ds_position (src_state (set_position n h src)) = \<lparr>req_first_block = n, req_parent_block_hash = h\<rparr>"
    by (simp add: set_position_def reset_fork_consensus_def)
  then show ?thesis using run_source_result [OF set_position_ok [of n h src] assms] by (auto simp: data_source_ok_def)
qed

definition ex_polls :: "((nat \<Rightarrow> block client_input list) \<times> bool) list" where
  "ex_polls =
     [(\<lambda>i. if i = 0 then [RequestError] else [Streaming (Some \<lparr>br_number = 4, br_hash = [8]\<rparr>), Item (ex_block 4 [8] [7])], False),
      (\<lambda>i. if i = 0 then [Streaming None, Item (ex_block 5 [6] [1])] else [Item (ex_block 5 [9] [8])], False)]"

theorem source_emits_chain_witness:
  "\<exists>evs src'. run_source Inr ex_polls (set_position 4 (Some [7]) (sds_new 2)) = Inr (evs, src') \<and>
     blocks_in evs = [ex_block 4 [8] [7], ex_block 5 [9] [8]] \<and>
     ds_position (src_state src') = advance (ex_block 5 [9] [8])"
proof -
  have ok: "polls_ok Inr ex_polls" by (auto simp: polls_ok_def ex_polls_def input_ok_def ex_block_def split: if_splits)
  have run: "map_sum id fst (run_source Inr ex_polls (set_position 4 (Some [7]) (sds_new 2))) =
      (Inr [EvBlock (ex_block 4 [8] [7]) True, EvBlock (ex_block 5 [9] [8]) False] :: db_err + _)"
    by code_simp
  from source_emits_chain [OF ok, of 4 "Some [7]" "sds_new 2"]
  obtain evs src' where r: "run_source Inr ex_polls (set_position 4 (Some [7]) (sds_new 2)) = Inr (evs, src')"
    "ds_position (src_state src') = position_after \<lparr>req_first_block = 4, req_parent_block_hash = Some [7]\<rparr> (blocks_in evs)" by blast
  then have "blocks_in evs = [ex_block 4 [8] [7], ex_block 5 [9] [8]]" using run by simp
  then show ?thesis using r by (simp add: position_after_def)
qed

text \<open>
  C30: a reachable source reports a fork only when polling the endpoints produced no event and left them in
  states where every endpoint with a fork signal sent it for the current position and most endpoints, or all active ones, have
  one, or the timer ran out. The reported hints are the longest ones among these endpoints, the source does not panic over
  them, its position stays, and every endpoint of that poll is ready to be asked again.
\<close>

theorem fork_needs_consensus:
  assumes "source_reach parse src" and "\<forall>j. \<forall>i\<in>set (ins j). input_ok parse i"
    and "poll_next_event parse ins timer src = Inr (Some (EvFork hints), src')"
  shows "ds_position (src_state src') = ds_position (src_state src) \<and>
    (\<exists>eps s. poll_endpoints parse ins (src_state src) 0 (src_endpoints src) = Inr (None, s, eps) \<and>
       ds_position s = ds_position (src_state src) \<and> fork_decided eps s timer hints \<and>
       src_endpoints src' = map (\<lambda>ep. ep\<lparr>ep_state := Ready\<rparr>) eps)"
  using poll_next_event_turn [OF source_reach_ok [OF assms(1)] assms(2), of timer] assms(3) by (auto simp: source_turn_def)

definition ex_fork_input :: "nat \<Rightarrow> block client_input list" where
  "ex_fork_input i = [Forked [\<lparr>br_number = of_nat i, br_hash = [3]\<rparr>]]"

theorem fork_needs_consensus_witness:
  "\<exists>src'. poll_next_event Inr ex_fork_input False (set_position 4 (Some [7]) (sds_new 2)) =
       Inr (Some (EvFork [\<lparr>br_number = 0, br_hash = [3]\<rparr>]), src') \<and>
     ds_position (src_state src') = \<lparr>req_first_block = 4, req_parent_block_hash = Some [7]\<rparr> \<and>
     (\<forall>ep\<in>set (src_endpoints src'). ep_state ep = Ready)"
proof -
  let ?src = "set_position 4 (Some [7]) (sds_new 2)"
  have "map_sum id fst (poll_next_event Inr ex_fork_input False ?src) = (Inr (Some (EvFork [\<lparr>br_number = 0, br_hash = [3]\<rparr>])) :: db_err + _)"
    by code_simp
  then obtain src' where p: "poll_next_event Inr ex_fork_input False ?src = Inr (Some (EvFork [\<lparr>br_number = 0, br_hash = [3]\<rparr>]), src')"
    by (cases "poll_next_event Inr ex_fork_input False ?src") auto
  have "source_reach Inr ?src" by (intro positioned created)
  moreover have "\<forall>j. \<forall>i\<in>set (ex_fork_input j). input_ok Inr i" by (simp add: ex_fork_input_def input_ok_def)
  ultimately have "ds_position (src_state src') = ds_position (src_state ?src) \<and> (\<forall>ep\<in>set (src_endpoints src'). ep_state ep = Ready)"
    using fork_needs_consensus [OF _ _ p] by auto
  then show ?thesis using p by (simp add: set_position_def reset_fork_consensus_def)
qed

end
