(* ===== verification/Spec2Isabelle.thy ===== *)
theory Spec2Isabelle
  imports Ranges CompactionProps SourceProps
begin

text \<open>
  A verification of the block storage of the SQD data service: the hot-blocks writer that keeps the
  latest blocks of a chain, the transactional store below it, and the compaction that merges stored
  chunks in the background.

  \<^bold>\<open>The program.\<close> A dataset is a chain of chunks, each with tables of blocks, transactions and so on. The
  \<^emph>\<open>writer\<close> (\<open>hotblocks/src/dataset_controller/write_controller.rs\<close>) receives chunks, finality reports and
  retention requests, resolves forks, and publishes the head and the finalized head. It changes the store
  through \<^emph>\<open>database updates\<close> (\<open>storage/src/db/db.rs\<close>, \<open>storage/src/db/write\<close>), optimistic transactions with a
  retry budget over a key-value engine. Readers list chunks and look up hashes on snapshots
  (\<open>storage/src/db/read\<close>). \<^emph>\<open>Compaction\<close> (\<open>storage/src/db/ops\<close>) plans a run of small chunks, merges their tables
  column by column and swaps them for one chunk. Maintenance passes purge dropped tables and reclaim disk space.

  \<^bold>\<open>Conventions\<close> (\<open>Prelude\<close>, \<open>Errors\<close>). Fallible code returns a sum: \<open>Inl\<close> an error of \<open>db_err\<close> (every \<open>bail!\<close>,
  \<open>ensure!\<close>, typed error and panic has a constructor), \<open>Inr\<close> a value; \<open>rbind\<close> is the \<open>?\<close> operator. Block numbers
  are 64-bit words with their wrap-around, keys and hashes byte lists, iterators the lists they yield.

  \<^bold>\<open>Theories.\<close>
  \<^item> \<open>Ranges\<close>: range lists (\<open>primitives/src/range\<close>): intersection, union and pagination against the rows they denote.
  \<^item> \<open>Keys\<close>: short ids, chunk ids, hash-index keys, table keys and reclaim bounds
    (\<open>primitives/src/sid.rs\<close>, \<open>storage/src/db/data.rs\<close>, \<open>storage/src/table/key.rs\<close>): order, isolation, round trips.
  \<^item> \<open>Tables\<close>: the readers of blocks and transactions tables, on decoded columns.
  \<^item> \<open>Store\<close>: chunks, labels, chunk iteration, and the key-value interface as the locale \<open>kv_store\<close>, whose laws are
    the documented behaviour of the engine (\<open>storage/src/kv.rs\<close>); \<open>mem_kv\<close> interprets it. \<open>rep R t ds cs\<close> says
    that the store \<open>t\<close> holds the chunks \<open>cs\<close>.
  \<^item> \<open>Tx\<close>, \<open>FinalizedPrefix\<close>, \<open>HashIndex\<close>, \<open>TxRun\<close>, \<open>Database\<close>: the operations of a transaction and a dataset update,
    the check of finalized history, the hash indexes, the commit loop with its retry policy, dataset
    lifecycle and maintenance. An attempt of the commit loop sees a store that others have changed meanwhile;
    the loop ends within its attempt budget.
  \<^item> \<open>WriteController\<close>: the writer's state and all its operations. \<open>WriteSafety\<close>, \<open>WriterInvariant\<close>, \<open>Writer\<close>, \<open>Rollback\<close>,
    \<open>WriterProps\<close>: the invariant \<open>wc_inv\<close> (stored chain, heads, finality and published values agree), its
    preservation by every step of the relation \<open>wc_reach\<close>, protection of finalized history, retention,
    and progress of fork resolution. \<open>maintained\<close> is the contract of everybody else who changes the dataset.
  \<^item> \<open>Offsets\<close>, \<open>Schemas\<close>: offset search and order lists (\<open>array/src/util.rs\<close>, \<open>array/src/chunking.rs\<close>), sort keys,
    schema patches and schema merging.
  \<^item> \<open>TableMerge\<close>, \<open>MergePrepare\<close>, \<open>MergeContents\<close>, \<open>TableMergeProps\<close>: the merge of tables with its index casts
    and its sort; the written columns have the merged type and hold the rows of the chunks.
  \<^item> \<open>Compaction\<close>, \<open>CompactionPlan\<close>, \<open>CompactionSafety\<close>, \<open>CompactionProps\<close>: planner and execution. Every run of a
    compaction is \<open>maintained\<close>, so the writer's invariant survives it; the plan is a gapless slice of the chain.

  \<^item> \<open>DataSource\<close>, \<open>SourceProps\<close>: the endpoints, the shared position and the fork consensus of
    \<open>data-source/src/standard.rs\<close>. Answers of the clients and the timer are inputs of a poll. The emitted blocks form a
    chain from the position, no assertion fails, and a fork event needs consensus.

  \<^bold>\<open>Arguments of the model.\<close> The engine \<open>R\<close> (locale \<open>kv_store\<close>), the transaction environment (what others commit
  between attempts, whether a commit conflicts, the clock), the reader of table data \<open>T\<close> and the table
  builder \<open>build\<close> (page encoding; a stored table never changes under its id, so the reader \<open>table_reader\<close> of a transaction is a function
  of the table id alone), the slice sort \<open>S\<close> (contract \<open>sorts\<close>), and the floating-point comparison of the write
  amplification. Their hypotheses are named definitions, and each property that uses them has a witness on
  concrete functions.

  \<^bold>\<open>Loops.\<close> All loops end and are total functions; the only budget is the source's own number of attempts.

  \<^bold>\<open>Not modelled.\<close> The query engine (\<open>query\<close>, \<open>polars\<close>), the archive and block-data services (\<open>archive\<close>, \<open>bds\<close>,
  \<open>data-client\<close>), the chain data models (\<open>data\<close>, \<open>dataset\<close>), the HTTP interface, metrics and command
  lines: asynchronous I/O around third-party runtimes, or table definitions without logic of the store. The
  page format of tables and the options and statistics of the engine are behind the arguments named above.
\<close>

end
